(* ===== verification/Prelude.thy ===== *)
theory Prelude
  imports Main "HOL-Library.Word" "HOL-Library.Char_ord" "HOL-Library.List_Lexorder"
    "HOL-Library.Product_Lexorder" "HOL-Library.Sublist" "HOL-Library.Multiset"
    "HOL-Library.AList"
begin

text \<open>
  What the components share: the Go values the program computes with (instants and
  durations in nanoseconds, byte strings, UUIDs), the outcome of a Go call, the pieces of
  the standard library the source uses (\<open>strings\<close>, \<open>strconv\<close>, the instants
  of \<open>time\<close>), and generic lemmas on lists and association lists.
\<close>

unbundle bit_operations_syntax

named_theorems go_defs \<open>definitions of Go primitives, unfolded by the component proofs\<close>

section \<open>The outcome of a Go call\<close>

text \<open>
  A Go function that returns \<open>(T, error)\<close> ends in one of three ways: a value with a nil
  error, a non-nil error, or a panic that unwinds to the nearest \<open>recover\<close>.
\<close>

datatype ('e, 'a) gores = Ok 'a | Err 'e | Panic

fun is_ok :: "('e, 'a) gores \<Rightarrow> bool" where
  "is_ok (Ok x) = True"
| "is_ok (Err e) = False"
| "is_ok Panic = False"

lemma is_ok_conv: "is_ok r \<longleftrightarrow> (\<exists>x. r = Ok x)"
  by (cases r) auto

section \<open>Instants and durations\<close>

text \<open>
  An instant (\<open>time.Time\<close>) is its distance in nanoseconds from the zero \<open>Time\<close>
  (1 January of year 1), so \<open>IsZero\<close> is equality with 0 and \<open>Equal\<close> is equality of
  instants. A \<open>time.Duration\<close> is an \<open>int64\<close> of nanoseconds: an \<open>int\<close> whose
  wrap-around is written out (\<open>wrap64\<close>) where the code multiplies or shifts, and
  whose saturation is written out in \<open>Sub\<close>, as the standard library documents it.
\<close>

type_synonym gotime = int
type_synonym duration = int

definition minInt64 :: int where "minInt64 = - (2 ^ 63)"
definition maxInt64 :: int where "maxInt64 = 2 ^ 63 - 1"

definition wrap64 :: "int \<Rightarrow> int" where
  "wrap64 x = (x + 2 ^ 63) mod 2 ^ 64 - 2 ^ 63"

lemma wrap64_id: "minInt64 \<le> x \<Longrightarrow> x \<le> maxInt64 \<Longrightarrow> wrap64 x = x"
  by (simp add: wrap64_def minInt64_def maxInt64_def)

lemma wrap64_range: "minInt64 \<le> wrap64 x \<and> wrap64 x \<le> maxInt64"
proof -
  have "0 \<le> (x + 2 ^ 63) mod 2 ^ 64" "(x + 2 ^ 63) mod 2 ^ 64 < 2 ^ 64"
    by simp_all
  then show ?thesis by (simp add: wrap64_def minInt64_def maxInt64_def)
qed

lemma wrap64_cong: "\<exists>k. wrap64 x = x + k * 2 ^ 64"
proof -
  have "wrap64 x = x + (- ((x + 2 ^ 63) div 2 ^ 64)) * 2 ^ 64"
    by (simp add: wrap64_def minus_div_mult_eq_mod [symmetric] algebra_simps)
  then show ?thesis by blast
qed

definition Second :: duration where "Second = 1000000000"
definition Minute :: duration where "Minute = 60 * Second"
definition Hour :: duration where "Hour = 60 * Minute"

lemma duration_pos [simp]: "0 < Second" "0 < Minute" "0 < Hour"
  by (simp_all add: Second_def Minute_def Hour_def)

lemma Minute_less_Hour [simp]: "Minute < Hour" "Minute \<le> Hour"
  by (simp_all add: Second_def Minute_def Hour_def)

definition time_Add :: "gotime \<Rightarrow> duration \<Rightarrow> gotime" where
  [go_defs]: "time_Add t d = t + d"

definition time_After :: "gotime \<Rightarrow> gotime \<Rightarrow> bool" where
  [go_defs]: "time_After t u \<longleftrightarrow> u < t"

definition time_Before :: "gotime \<Rightarrow> gotime \<Rightarrow> bool" where
  [go_defs]: "time_Before t u \<longleftrightarrow> t < u"

definition time_IsZero :: "gotime \<Rightarrow> bool" where
  [go_defs]: "time_IsZero t \<longleftrightarrow> t = 0"

definition time_Sub :: "gotime \<Rightarrow> gotime \<Rightarrow> duration" where
  "time_Sub t u = max minInt64 (min maxInt64 (t - u))"

lemma time_Sub_exact:
  "minInt64 \<le> t - u \<Longrightarrow> t - u \<le> maxInt64 \<Longrightarrow> time_Sub t u = t - u"
  by (simp add: time_Sub_def)

lemma time_Sub_less_iff: "d \<le> maxInt64 \<Longrightarrow> minInt64 < d \<Longrightarrow> time_Sub t u < d \<longleftrightarrow> t - u < d"
  by (auto simp: time_Sub_def max_def min_def)

lemma time_Sub_pos_iff: "0 < time_Sub t u \<longleftrightarrow> u < t"
  by (auto simp: time_Sub_def minInt64_def maxInt64_def max_def min_def)

lemma Hour_small [simp]: "Hour \<le> maxInt64" "minInt64 < Hour" "minInt64 \<le> Hour"
  by (simp_all add: Hour_def Minute_def Second_def maxInt64_def minInt64_def)

lemma Minute_small [simp]: "Minute \<le> maxInt64" "minInt64 < Minute" "minInt64 \<le> Minute"
  by (simp_all add: Minute_def Second_def maxInt64_def minInt64_def)

section \<open>Byte strings\<close>

text \<open>
  A Go string is a sequence of bytes, here a \<open>char list\<close>. \<open>TrimSpace\<close> and
  \<open>ToUpper\<close> work bytewise when every byte is ASCII, which is written out; on other
  strings they consult the Unicode tables, and those two results (with the explosion of a
  string into its code points, which \<open>Split\<close> does for an empty separator) are the
  fields of the parameter \<open>unicode\<close>.
\<close>

record unicode =
  upper_uni :: "string \<Rightarrow> string"
  lower_uni :: "string \<Rightarrow> string"
  trim_uni :: "string \<Rightarrow> string"
  explode_uni :: "string \<Rightarrow> string list"

definition byte :: "char \<Rightarrow> nat" where
  "byte c = of_char c"

definition is_ascii :: "string \<Rightarrow> bool" where
  "is_ascii s \<longleftrightarrow> list_all (\<lambda>c. byte c < 128) s"

definition ascii_space :: "char \<Rightarrow> bool" where
  "ascii_space c \<longleftrightarrow> byte c \<in> {9, 10, 11, 12, 13, 32}"

definition upper_char :: "char \<Rightarrow> char" where
  "upper_char c = (if 97 \<le> byte c \<and> byte c \<le> 122 then char_of (byte c - 32) else c)"

definition trim_ascii :: "string \<Rightarrow> string" where
  "trim_ascii s = rev (dropWhile ascii_space (rev (dropWhile ascii_space s)))"

definition strings_TrimSpace :: "unicode \<Rightarrow> string \<Rightarrow> string" where
  "strings_TrimSpace U s = (if is_ascii s then trim_ascii s else trim_uni U s)"

definition strings_ToUpper :: "unicode \<Rightarrow> string \<Rightarrow> string" where
  "strings_ToUpper U s = (if is_ascii s then map upper_char s else upper_uni U s)"

definition lower_char :: "char \<Rightarrow> char" where
  "lower_char c = (if 65 \<le> byte c \<and> byte c \<le> 90 then char_of (byte c + 32) else c)"

definition strings_ToLower :: "unicode \<Rightarrow> string \<Rightarrow> string" where
  "strings_ToLower U s = (if is_ascii s then map lower_char s else lower_uni U s)"

lemma byte_char_of: "n < 256 \<Longrightarrow> byte (char_of n) = n"
  by (simp add: byte_def)

lemma byte_less_256: "byte c < 256"
  by (simp add: byte_def)

lemma byte_upper_char:
  "byte (upper_char c) = (if 97 \<le> byte c \<and> byte c \<le> 122 then byte c - 32 else byte c)"
  using byte_less_256 [of c] by (simp add: upper_char_def byte_char_of)

lemma byte_lower_char:
  "byte (lower_char c) = (if 65 \<le> byte c \<and> byte c \<le> 90 then byte c + 32 else byte c)"
  using byte_less_256 [of c] by (simp add: lower_char_def byte_char_of)

lemma byte_inject: "byte c = byte d \<longleftrightarrow> c = d"
  by (simp add: byte_def)

lemma upper_lower_char [simp]: "upper_char (lower_char c) = upper_char c"
  by (subst byte_inject [symmetric]) (simp add: byte_upper_char byte_lower_char)

lemma upper_upper_char [simp]: "upper_char (upper_char c) = upper_char c"
  by (subst byte_inject [symmetric]) (auto simp: byte_upper_char)

lemma ascii_space_upper_char [simp]: "ascii_space (upper_char c) = ascii_space c"
  by (auto simp: ascii_space_def byte_upper_char)

lemma ascii_space_lower_char [simp]: "ascii_space (lower_char c) = ascii_space c"
  by (auto simp: ascii_space_def byte_lower_char)

lemma is_ascii_append [simp]: "is_ascii (a @ b) \<longleftrightarrow> is_ascii a \<and> is_ascii b"
  by (simp add: is_ascii_def)

lemma is_ascii_Cons [simp]: "is_ascii (c # b) \<longleftrightarrow> byte c < 128 \<and> is_ascii b"
  by (simp add: is_ascii_def)

lemma is_ascii_Nil [simp]: "is_ascii []"
  by (simp add: is_ascii_def)

lemma is_ascii_map_lower [simp]: "is_ascii (map lower_char s) = is_ascii s"
  by (induction s) (auto simp: byte_lower_char)

lemma is_ascii_map_upper [simp]: "is_ascii (map upper_char s) = is_ascii s"
  by (induction s) (auto simp: byte_upper_char)

lemma dropWhile_all: "list_all P xs \<Longrightarrow> dropWhile P (xs @ ys) = dropWhile P ys"
  by (induction xs) auto

lemma trim_ascii_surround:
  assumes "list_all ascii_space a" "list_all ascii_space b"
    and "s \<noteq> []" "\<not> ascii_space (hd s)" "\<not> ascii_space (last s)"
  shows "trim_ascii (a @ s @ b) = s"
proof -
  have "dropWhile ascii_space (a @ s @ b) = s @ b"
    using assms by (cases s) (simp_all add: dropWhile_all)
  moreover have "dropWhile ascii_space (rev b @ rev s) = rev s"
    using assms by (cases s rule: rev_cases) (simp_all add: dropWhile_all list_all_iff)
  ultimately show ?thesis by (simp add: trim_ascii_def)
qed

text \<open>The first position at which \<open>sep\<close> occurs in \<open>s\<close>.\<close>

fun strings_Index :: "string \<Rightarrow> string \<Rightarrow> nat option" where
  "strings_Index [] sep = (if sep = [] then Some 0 else None)"
| "strings_Index (c # cs) sep =
     (if prefix sep (c # cs) then Some 0 else map_option Suc (strings_Index cs sep))"

lemma strings_Index_bound: "strings_Index s sep = Some m \<Longrightarrow> m + length sep \<le> length s"
  by (induction s arbitrary: m) (auto split: if_splits dest: prefix_length_le)

function genSplit :: "string \<Rightarrow> string \<Rightarrow> string list" where
  "genSplit s sep =
     (if sep = [] then [s]
      else case strings_Index s sep of
             None \<Rightarrow> [s]
           | Some m \<Rightarrow> take m s # genSplit (drop (m + length sep) s) sep)"
  by pat_completeness auto
termination
proof (relation "measure (\<lambda>(s, sep). length s)", goal_cases)
  case 1
  then show ?case by simp
next
  case (2 s sep m)
  from strings_Index_bound [OF 2(2)] 2(1) show ?case by (cases sep) auto
qed

declare genSplit.simps [simp del]

definition strings_Split :: "unicode \<Rightarrow> string \<Rightarrow> string \<Rightarrow> string list" where
  "strings_Split U s sep =
     (if sep = [] then (if is_ascii s then map (\<lambda>c. [c]) s else explode_uni U s)
      else genSplit s sep)"

lemma strings_Index_char:
  "strings_Index s [c] = (if c \<in> set s then Some (length (takeWhile (\<lambda>x. x \<noteq> c) s)) else None)"
  by (induction s) auto

lemma genSplit_none: "c \<notin> set s \<Longrightarrow> genSplit s [c] = [s]"
  by (subst genSplit.simps) (simp add: strings_Index_char)

lemma genSplit_cons:
  assumes "c \<notin> set a"
  shows "genSplit (a @ c # b) [c] = a # genSplit b [c]"
proof -
  have "takeWhile (\<lambda>x. x \<noteq> c) (a @ c # b) = a"
    using assms by (induction a) auto
  then show ?thesis
    by (subst genSplit.simps) (simp add: strings_Index_char)
qed

lemma genSplit_Cons_decomp:
  assumes "genSplit s [c] = x # xs"
  shows "c \<notin> set x \<and> (if xs = [] then s = x else \<exists>r. s = x @ c # r \<and> genSplit r [c] = xs)"
proof (cases "c \<in> set s")
  case False
  with assms show ?thesis by (simp add: genSplit_none)
next
  case True
  then obtain a b where ab: "s = a @ c # b" "c \<notin> set a" by (meson split_list_first)
  with assms have "x = a" "xs = genSplit b [c]" by (simp_all add: genSplit_cons)
  moreover have "genSplit b [c] \<noteq> []"
    by (subst genSplit.simps) (simp split: option.splits)
  ultimately show ?thesis using ab by auto
qed

lemma genSplit_two:
  "genSplit s [c] = [x, y] \<longleftrightarrow> s = x @ c # y \<and> c \<notin> set x \<and> c \<notin> set y"
proof
  assume "genSplit s [c] = [x, y]"
  from genSplit_Cons_decomp [OF this] obtain r
    where "c \<notin> set x" "s = x @ c # r" "genSplit r [c] = [y]" by auto
  with genSplit_Cons_decomp [of r c y "[]"] show "s = x @ c # y \<and> c \<notin> set x \<and> c \<notin> set y"
    by simp
qed (simp add: genSplit_cons genSplit_none)

section \<open>Decimal text\<close>

text \<open>\<open>strconv.Itoa\<close> and \<open>strconv.Atoi\<close>: an optional sign, at least one
  digit, nothing else, and the value must fit an \<open>int\<close> of 64 bits.\<close>

fun itoa_nat :: "nat \<Rightarrow> string" where
  "itoa_nat n = (if n < 10 then [char_of (48 + n)] else itoa_nat (n div 10) @ [char_of (48 + n mod 10)])"

declare itoa_nat.simps [simp del]

definition itoa :: "int \<Rightarrow> string" where
  "itoa i = (if i < 0 then CHR ''-'' # itoa_nat (nat (- i)) else itoa_nat (nat i))"

definition is_digit :: "char \<Rightarrow> bool" where
  "is_digit c \<longleftrightarrow> 48 \<le> byte c \<and> byte c \<le> 57"

fun digits_value :: "nat \<Rightarrow> string \<Rightarrow> nat" where
  "digits_value acc [] = acc"
| "digits_value acc (c # cs) = digits_value (10 * acc + (byte c - 48)) cs"

definition parse_uint :: "string \<Rightarrow> int option" where
  "parse_uint s = (if s \<noteq> [] \<and> list_all is_digit s then Some (int (digits_value 0 s)) else None)"

definition strconv_Atoi :: "string \<Rightarrow> int option" where
  "strconv_Atoi s =
     (let v = (case s of
                 [] \<Rightarrow> None
               | c # cs \<Rightarrow>
                   (if c = CHR ''-'' then map_option uminus (parse_uint cs)
                    else if c = CHR ''+'' then parse_uint cs
                    else parse_uint s))
      in case v of
           None \<Rightarrow> None
         | Some i \<Rightarrow> if minInt64 \<le> i \<and> i \<le> maxInt64 then Some i else None)"

lemma digits_value_append: "digits_value acc (s @ [c]) = 10 * digits_value acc s + (byte c - 48)"
  by (induction s arbitrary: acc) auto

lemma digit_char: "n < 10 \<Longrightarrow> is_digit (char_of (48 + n)) \<and> byte (char_of (48 + n)) - 48 = n"
  by (simp add: is_digit_def byte_char_of)

lemma itoa_nat_parse:
  "itoa_nat n \<noteq> [] \<and> list_all is_digit (itoa_nat n) \<and> digits_value 0 (itoa_nat n) = n"
proof (induction n rule: itoa_nat.induct)
  case (1 n)
  show ?case
  proof (cases "n < 10")
    case True
    then show ?thesis using digit_char [of n] by (simp add: itoa_nat.simps [of n])
  next
    case False
    with 1 digit_char [of "n mod 10"] show ?thesis
      by (simp add: itoa_nat.simps [of n] digits_value_append)
  qed
qed

lemma parse_uint_itoa_nat: "parse_uint (itoa_nat n) = Some (int n)"
  using itoa_nat_parse [of n] by (simp add: parse_uint_def)

lemma Atoi_itoa:
  assumes "minInt64 \<le> i" "i \<le> maxInt64"
  shows "strconv_Atoi (itoa i) = Some i"
proof (cases "i < 0")
  case True
  with assms show ?thesis by (simp add: strconv_Atoi_def itoa_def parse_uint_itoa_nat)
next
  case False
  obtain c cs where c: "itoa_nat (nat i) = c # cs"
    using itoa_nat_parse [of "nat i"] by (cases "itoa_nat (nat i)") auto
  moreover have "is_digit c" using itoa_nat_parse [of "nat i"] c by simp
  then have "c \<noteq> CHR ''-''" "c \<noteq> CHR ''+''" by (auto simp: is_digit_def byte_def)
  ultimately show ?thesis
    using assms False parse_uint_itoa_nat [of "nat i"] by (simp add: strconv_Atoi_def itoa_def)
qed

section \<open>UUIDs\<close>

text \<open>A UUID is its 128 bits; \<open>String\<close> is the canonical hexadecimal form, 8-4-4-4-12.\<close>

type_synonym uuid = "128 word"

definition hexdigit :: "nat \<Rightarrow> char" where
  "hexdigit n = (if n < 10 then char_of (48 + n) else char_of (87 + n))"

definition nibble :: "uuid \<Rightarrow> nat \<Rightarrow> nat" where
  "nibble w i = take_bit 4 (drop_bit (4 * i) (unat w))"

definition uuid_hex :: "uuid \<Rightarrow> string" where
  "uuid_hex w = map (\<lambda>i. hexdigit (nibble w i)) (rev [0..<32])"

definition uuid_String :: "uuid \<Rightarrow> string" where
  "uuid_String w =
     (let h = uuid_hex w
      in take 8 h @ CHR ''-'' # take 4 (drop 8 h) @ CHR ''-'' # take 4 (drop 12 h)
           @ CHR ''-'' # take 4 (drop 16 h) @ CHR ''-'' # drop 20 h)"

lemma hexdigit_inject: "m < 16 \<Longrightarrow> n < 16 \<Longrightarrow> hexdigit m = hexdigit n \<longleftrightarrow> m = n"
  by (auto simp: hexdigit_def split: if_splits)

lemma nibble_less: "nibble w i < 16"
  using take_bit_nat_less_exp [of 4 "drop_bit (4 * i) (unat w)"] by (simp add: nibble_def)

lemma length_uuid_hex [simp]: "length (uuid_hex w) = 32"
  by (simp add: uuid_hex_def)

lemma nibble_bit: "j < 4 \<Longrightarrow> bit (nibble w i) j \<longleftrightarrow> bit w (4 * i + j)"
  by (simp add: nibble_def bit_take_bit_iff bit_drop_bit_eq bit_unsigned_iff)

lemma uuid_hex_inject: "uuid_hex v = uuid_hex w \<longleftrightarrow> v = w"
proof
  assume eq: "uuid_hex v = uuid_hex w"
  have "nibble v i = nibble w i" if "i < 32" for i
  proof -
    have "i \<in> set (rev [0..<32])" using that by simp
    with eq have "hexdigit (nibble v i) = hexdigit (nibble w i)"
      unfolding uuid_hex_def map_eq_conv by blast
    then show ?thesis by (simp add: hexdigit_inject nibble_less)
  qed
  then have "bit v n = bit w n" if "n < 128" for n
    using nibble_bit [of "n mod 4" v "n div 4"] nibble_bit [of "n mod 4" w "n div 4"] that by simp
  then show "v = w" by (intro bit_word_eqI) simp
qed simp

lemma uuid_String_inject [simp]: "uuid_String v = uuid_String w \<longleftrightarrow> v = w"
proof
  assume eq: "uuid_String v = uuid_String w"
  let ?parts = "\<lambda>h :: string. take 8 h @ take 4 (drop 8 h) @ take 4 (drop 12 h) @ take 4 (drop 16 h) @ drop 20 h"
  have parts: "?parts h = h" for h
  proof -
    have "?parts h = take 8 h @ take 4 (drop 8 h) @ take 4 (drop 12 h) @ drop 16 h"
      using append_take_drop_id [of 4 "drop 16 h"] by simp
    also have "\<dots> = take 8 h @ take 4 (drop 8 h) @ drop 12 h"
      using append_take_drop_id [of 4 "drop 12 h"] by simp
    also have "\<dots> = take 8 h @ drop 8 h"
      using append_take_drop_id [of 4 "drop 8 h"] by simp
    finally show ?thesis by simp
  qed
  from eq have "?parts (uuid_hex v) = ?parts (uuid_hex w)"
    by (simp add: uuid_String_def Let_def append_eq_append_conv)
  then have "uuid_hex v = uuid_hex w" unfolding parts .
  then show "v = w" by (simp add: uuid_hex_inject)
qed simp

section \<open>Sorting and association lists\<close>

text \<open>
  Go's \<open>sort.Slice\<close> returns some permutation ordered by the given comparison. When the
  sort keys are distinct there is only one, the one \<open>sort_key\<close> returns.
\<close>

lemma sorted_perm_unique:
  assumes "sorted (map f ys)" "mset ys = mset xs" "inj_on f (set xs)" "distinct xs"
  shows "ys = sort_key f xs"
proof -
  have "distinct ys" "set ys = set xs"
    using assms by (metis mset_eq_imp_distinct_iff, metis mset_eq_setD)
  then have "sorted_list_of_set (f ` set xs) = map f ys"
    using assms(1,3) by (intro sorted_list_of_set.idem_if_sorted_distinct [symmetric, THEN sym] 
      sorted_distinct_set_unique) (simp_all add: distinct_map strict_sorted_iff)
  moreover have "sorted_list_of_set (f ` set xs) = map f (sort_key f xs)"
    using assms(3,4) by (intro sorted_distinct_set_unique) (simp_all add: distinct_map)
  ultimately have "map f ys = map f (sort_key f xs)" by simp
  then show ?thesis
    using assms(3) \<open>set ys = set xs\<close> by (intro map_inj_on [of f]) simp_all
qed

lemma length_filter_mono:
  "(\<And>x. x \<in> set xs \<Longrightarrow> P x \<Longrightarrow> Q x) \<Longrightarrow> length (filter P xs) \<le> length (filter Q xs)"
  by (induction xs) auto

lemma map_of_update: "map_of (AList.update k v al) = (map_of al)(k \<mapsto> v)"
  by (rule update_conv')

lemma set_map_of: "distinct (map fst al) \<Longrightarrow> (k, v) \<in> set al \<longleftrightarrow> map_of al k = Some v"
  by simp

lemma map_of_new: "map_of (AList.update k v al) k = Some v"
  by (simp add: map_of_update)

end
