(* ===== verification/Domain.thy ===== *)
theory Domain
  imports Prelude
begin

text \<open>
  The package \<open>internal/domain/quotes\<close>: currency codes and pairs, a validated
  exchange rate, the status machine of an update request, and the classified provider
  error. The error values of the whole program are one datatype, so that
  \<open>errors.Is\<close> and \<open>errors.As\<close> are functions on it.
\<close>

section \<open>Types\<close>

type_synonym CurrencyCode = string

record CurrencyPair =
  base :: CurrencyCode
  quote :: CurrencyCode

text \<open>
  \<open>CurrencyRateUpdateStatus\<close> and \<open>CurrencyRateErrorCode\<close> are string types in the
  source with named constants; the last constructor stands for any other string.
\<close>

datatype CurrencyRateUpdateStatus =
  StatusPending | StatusInProgress | StatusSucceeded | StatusFailed | StatusOther string

datatype CurrencyRateErrorCode =
  InvalidRequestError | UnsupportedPairError | AuthError | QuotaExceededError | RateLimitedError
| ProviderUnavailableError | UnclassifiedProviderError | MalformedResponseError | InternalError
| OtherErrorCode string

record CurrencyRateError =
  err_code :: CurrencyRateErrorCode
  err_message :: string
  err_retryable :: bool
  err_retryAfter :: duration
  err_providerCode :: string

text \<open>Why a well-formed pair is refused: the second half of an \<open>ErrPairNotAllowed\<close>.\<close>

datatype pair_refusal =
  WrappedBaseCode string | WrappedQuoteCode string
| InvalidBaseCode string | InvalidQuoteCode string | EqualCodes string

datatype go_error =
  ErrNotFound
| ErrIdempotencyKeyExists
| ErrIdempotencyConflict
| ErrMalformedPair string string
| ErrPairNotAllowed pair_refusal
| ErrUnsupportedCode string
| ErrRateNotPositive
| ErrQuotedAtZero
| ErrQuotedAtAhead gotime gotime
| RateError CurrencyRateError
| ErrInvalidTransition CurrencyRateUpdateStatus CurrencyRateUpdateStatus
| ErrConcurrentChange uuid
| ErrContext
| ErrOther string
| ErrWrap string go_error
| ErrJoin go_error go_error

type_synonym 'a go = "(go_error, 'a) gores"

text \<open>\<open>errors.Is\<close> walks the chain of wrapped errors; \<open>errors.As\<close> finds the first
  \<open>CurrencyRateError\<close> in it.\<close>

fun errors_Is :: "(go_error \<Rightarrow> bool) \<Rightarrow> go_error \<Rightarrow> bool" where
  "errors_Is P (ErrWrap s e) = errors_Is P e"
| "errors_Is P (ErrJoin e e') \<longleftrightarrow> errors_Is P e \<or> errors_Is P e'"
| "errors_Is P e = P e"

fun errors_As_rate :: "go_error \<Rightarrow> CurrencyRateError option" where
  "errors_As_rate (ErrWrap s e) = errors_As_rate e"
| "errors_As_rate (ErrJoin e e') =
     (case errors_As_rate e of Some r \<Rightarrow> Some r | None \<Rightarrow> errors_As_rate e')"
| "errors_As_rate (RateError r) = Some r"
| "errors_As_rate e = None"

fun is_ErrMalformedPair :: "go_error \<Rightarrow> bool" where
  "is_ErrMalformedPair (ErrMalformedPair s sep) = True"
| "is_ErrMalformedPair e = False"

fun is_ErrPairNotAllowed :: "go_error \<Rightarrow> bool" where
  "is_ErrPairNotAllowed (ErrPairNotAllowed d) = True"
| "is_ErrPairNotAllowed e = False"

section \<open>Currency codes and pairs\<close>

definition CodeUSD :: CurrencyCode where "CodeUSD = ''USD''"
definition CodeMXN :: CurrencyCode where "CodeMXN = ''MXN''"
definition CodeEUR :: CurrencyCode where "CodeEUR = ''EUR''"

definition Code_Valid :: "CurrencyCode \<Rightarrow> bool" where
  "Code_Valid c \<longleftrightarrow> c \<in> set [CodeUSD, CodeMXN, CodeEUR]"

definition NewCurrencyCode :: "string \<Rightarrow> CurrencyCode go" where
  "NewCurrencyCode s = (if \<not> Code_Valid s then Err (ErrUnsupportedCode s) else Ok s)"

definition Slug :: "CurrencyPair \<Rightarrow> string \<Rightarrow> string" where
  "Slug p sep = base p @ sep @ quote p"

definition Pair_String :: "CurrencyPair \<Rightarrow> string" where
  "Pair_String p = Slug p ''/''"

definition NewCurrencyPair :: "CurrencyCode \<Rightarrow> CurrencyCode \<Rightarrow> CurrencyPair go" where
  "NewCurrencyPair b q =
     (if \<not> Code_Valid b then Err (ErrPairNotAllowed (InvalidBaseCode b))
      else if \<not> Code_Valid q then Err (ErrPairNotAllowed (InvalidQuoteCode q))
      else if b = q then Err (ErrPairNotAllowed (EqualCodes b))
      else Ok \<lparr>base = b, quote = q\<rparr>)"

definition ParseCurrencyPair :: "unicode \<Rightarrow> string \<Rightarrow> string \<Rightarrow> CurrencyPair go" where
  "ParseCurrencyPair U s0 sep =
     (let s = strings_ToUpper U (strings_TrimSpace U s0);
          codes = strings_Split U s sep
      in if length codes \<noteq> 2 \<or> codes ! 0 = [] \<or> codes ! 1 = []
         then Err (ErrMalformedPair s sep)
         else case NewCurrencyCode (codes ! 0) of
                Err e \<Rightarrow> Err (ErrPairNotAllowed (WrappedBaseCode (codes ! 0)))
              | Panic \<Rightarrow> Panic
              | Ok b \<Rightarrow>
                  (case NewCurrencyCode (codes ! 1) of
                     Err e \<Rightarrow> Err (ErrPairNotAllowed (WrappedQuoteCode (codes ! 1)))
                   | Panic \<Rightarrow> Panic
                   | Ok q \<Rightarrow> NewCurrencyPair b q))"

definition pair_ok :: "CurrencyPair \<Rightarrow> bool" where
  "pair_ok p \<longleftrightarrow> Code_Valid (base p) \<and> Code_Valid (quote p) \<and> base p \<noteq> quote p"

section \<open>Rates\<close>

text \<open>
  \<open>shopspring/decimal\<close> is not part of the repository: a decimal is a value of the type
  variable \<open>'d\<close> (its zero value is the \<open>0\<close> of the class \<open>zero\<close>), and \<open>Sign\<close>
  is an argument of the constructor that checks it.
\<close>

record 'd CurrencyRate =
  Value :: 'd
  Derived :: bool
  Quality :: string
  QuotedAt :: gotime
  Provider :: string
  Indicative :: bool
  FetchedAt :: gotime
  StaleAfter :: gotime

definition maxQuotedAtSkew :: duration where "maxQuotedAtSkew = 5 * Minute"

definition NewCurrencyRate ::
  "('d \<Rightarrow> int) \<Rightarrow> 'd \<Rightarrow> bool \<Rightarrow> string \<Rightarrow> string \<Rightarrow> bool \<Rightarrow> gotime \<Rightarrow> gotime \<Rightarrow> gotime
     \<Rightarrow> 'd CurrencyRate go" where
  "NewCurrencyRate Sign value derived quality provider indicative quotedAt fetchedAt staleAfter =
     (if Sign value \<le> 0 then Err ErrRateNotPositive
      else if time_IsZero quotedAt then Err ErrQuotedAtZero
      else if time_After quotedAt (time_Add fetchedAt maxQuotedAtSkew)
      then Err (ErrQuotedAtAhead quotedAt fetchedAt)
      else Ok \<lparr>Value = value, Derived = derived, Quality = quality, QuotedAt = quotedAt,
               Provider = provider, Indicative = indicative, FetchedAt = fetchedAt,
               StaleAfter = staleAfter\<rparr>)"

text \<open>The zero \<open>CurrencyRate{}\<close> a missing map entry reads as.\<close>

definition zeroRate :: "'d::zero CurrencyRate" where
  "zeroRate = \<lparr>Value = 0, Derived = False, Quality = [], QuotedAt = 0, Provider = [],
               Indicative = False, FetchedAt = 0, StaleAfter = 0\<rparr>"

section \<open>Update requests\<close>

record CurrencyRateUpdateRequest =
  ID :: uuid
  Pair :: CurrencyPair
  Status :: CurrencyRateUpdateStatus
  CreatedAt :: gotime
  UpdatedAt :: gotime
  Attempts :: int
  ErrorCode :: string
  ErrorMessage :: string
  Reused :: bool

fun validNextStatuses :: "CurrencyRateUpdateStatus \<Rightarrow> CurrencyRateUpdateStatus list" where
  "validNextStatuses StatusPending = [StatusInProgress]"
| "validNextStatuses StatusInProgress = [StatusSucceeded, StatusFailed, StatusPending]"
| "validNextStatuses s = []"

definition Status_Valid :: "CurrencyRateUpdateStatus \<Rightarrow> bool" where
  "Status_Valid s \<longleftrightarrow> s \<in> set [StatusPending, StatusInProgress, StatusSucceeded, StatusFailed]"

definition CanTransitionTo :: "CurrencyRateUpdateStatus \<Rightarrow> CurrencyRateUpdateStatus \<Rightarrow> bool" where
  "CanTransitionTo s next \<longleftrightarrow> next \<in> set (validNextStatuses s)"

fun status_string :: "CurrencyRateUpdateStatus \<Rightarrow> string" where
  "status_string StatusPending = ''pending''"
| "status_string StatusInProgress = ''in_progress''"
| "status_string StatusSucceeded = ''succeeded''"
| "status_string StatusFailed = ''failed''"
| "status_string (StatusOther s) = s"

text \<open>\<open>uuid.NewV7()\<close> draws a fresh identifier; the draw is the argument \<open>new\<close>.\<close>

definition NewCurrencyRateUpdateRequest ::
  "uuid \<Rightarrow> CurrencyPair \<Rightarrow> gotime \<Rightarrow> CurrencyRateUpdateRequest" where
  "NewCurrencyRateUpdateRequest new pair now =
     \<lparr>ID = new, Pair = pair, Status = StatusPending, CreatedAt = now, UpdatedAt = now,
      Attempts = 0, ErrorCode = [], ErrorMessage = [], Reused = False\<rparr>"

definition TransitionTo ::
  "CurrencyRateUpdateRequest \<Rightarrow> CurrencyRateUpdateStatus \<Rightarrow> gotime \<Rightarrow> CurrencyRateUpdateRequest go" where
  "TransitionTo req next now =
     (if \<not> CanTransitionTo (Status req) next then Err (ErrInvalidTransition (Status req) next)
      else Ok (req\<lparr>Status := next, UpdatedAt := now\<rparr>))"

section \<open>Classified provider errors\<close>

fun error_code_string :: "CurrencyRateErrorCode \<Rightarrow> string" where
  "error_code_string InvalidRequestError = ''invalid_request''"
| "error_code_string UnsupportedPairError = ''unsupported_pair''"
| "error_code_string AuthError = ''auth_error''"
| "error_code_string QuotaExceededError = ''quota_exceeded''"
| "error_code_string RateLimitedError = ''rate_limited''"
| "error_code_string ProviderUnavailableError = ''provider_unavailable''"
| "error_code_string UnclassifiedProviderError = ''unclassified_provider''"
| "error_code_string MalformedResponseError = ''malformed_response''"
| "error_code_string InternalError = ''internal_error''"
| "error_code_string (OtherErrorCode s) = s"

definition ErrorCode_Valid :: "CurrencyRateErrorCode \<Rightarrow> bool" where
  "ErrorCode_Valid c \<longleftrightarrow>
     c \<in> set [InvalidRequestError, UnsupportedPairError, AuthError, QuotaExceededError,
              RateLimitedError, ProviderUnavailableError, UnclassifiedProviderError,
              MalformedResponseError, InternalError]"

definition NewCurrencyRateError ::
  "CurrencyRateErrorCode \<Rightarrow> string \<Rightarrow> bool \<Rightarrow> duration \<Rightarrow> string \<Rightarrow> (go_error, CurrencyRateError) gores" where
  "NewCurrencyRateError c message retryable retryAfter providerCode =
     (if \<not> ErrorCode_Valid c then Panic
      else Ok \<lparr>err_code = c, err_message = message, err_retryable = retryable,
               err_retryAfter = retryAfter, err_providerCode = providerCode\<rparr>)"

text \<open>A call site that returns the new error as its own: the panic goes up.\<close>

definition failRate ::
  "CurrencyRateErrorCode \<Rightarrow> string \<Rightarrow> bool \<Rightarrow> duration \<Rightarrow> string \<Rightarrow> 'a go" where
  "failRate c message retryable retryAfter providerCode =
     (case NewCurrencyRateError c message retryable retryAfter providerCode of
        Ok r \<Rightarrow> Err (RateError r) | Err e \<Rightarrow> Err e | Panic \<Rightarrow> Panic)"

definition RateError_Error :: "CurrencyRateError \<Rightarrow> string" where
  "RateError_Error c =
     (if err_providerCode c \<noteq> []
      then error_code_string (err_code c) @ '' error: '' @ err_message c
             @ '' (upstream code: '' @ err_providerCode c @ '')''
      else error_code_string (err_code c) @ '' error: '' @ err_message c)"

section \<open>The text of an error\<close>

text \<open>
  \<open>err.Error()\<close>. How \<open>%q\<close> quotes a string, how an instant is printed and the text
  of the decimal that was refused come from the libraries: the fields of \<open>fmt\<close>.
\<close>

record fmt =
  fmt_q :: "string \<Rightarrow> string"
  fmt_time :: "gotime \<Rightarrow> string"
  fmt_value :: string

fun refusal_text :: "pair_refusal \<Rightarrow> string" where
  "refusal_text (WrappedBaseCode s) = ''invalid base code: unsupported currency code: '' @ s"
| "refusal_text (WrappedQuoteCode s) = ''invalid quote code: unsupported currency code: '' @ s"
| "refusal_text (InvalidBaseCode s) = ''invalid base code: '' @ s"
| "refusal_text (InvalidQuoteCode s) = ''invalid quote code: '' @ s"
| "refusal_text (EqualCodes s) = ''base code ('' @ s @ '') equals quote code ('' @ s @ '')''"

fun error_text :: "fmt \<Rightarrow> go_error \<Rightarrow> string" where
  "error_text F ErrNotFound = ''not found''"
| "error_text F ErrIdempotencyKeyExists = ''idempotency key already exists''"
| "error_text F ErrIdempotencyConflict = ''idempotency key used with a different pair''"
| "error_text F (ErrMalformedPair s sep) =
     ''pair is in wrong format: '' @ fmt_q F s @ '' doesn't match BASE'' @ sep @ ''QUOTE''"
| "error_text F (ErrPairNotAllowed d) = ''pair is outside the allow-list: '' @ refusal_text d"
| "error_text F (ErrUnsupportedCode s) = ''unsupported currency code: '' @ s"
| "error_text F ErrRateNotPositive = ''rate must be positive, got '' @ fmt_value F"
| "error_text F ErrQuotedAtZero = ''quoted_at must not be zero''"
| "error_text F (ErrQuotedAtAhead q f) =
     ''quoted_at '' @ fmt_time F q @ '' is more than 5m0s ahead of fetched_at '' @ fmt_time F f"
| "error_text F (RateError r) = RateError_Error r"
| "error_text F (ErrInvalidTransition a b) =
     ''invalid status transition: '' @ status_string a @ '' -> '' @ status_string b"
| "error_text F (ErrConcurrentChange i) = uuid_String i @ '' changed status concurrently''"
| "error_text F ErrContext = ''context deadline exceeded''"
| "error_text F (ErrOther m) = m"
| "error_text F (ErrWrap s e) = s @ '': '' @ error_text F e"
| "error_text F (ErrJoin e e') = error_text F e @ CHR 0x0A # error_text F e'"

section \<open>Properties\<close>

lemmas code_defs = CodeUSD_def CodeMXN_def CodeEUR_def

lemma Code_Valid_iff: "Code_Valid c \<longleftrightarrow> c = ''USD'' \<or> c = ''MXN'' \<or> c = ''EUR''"
  by (simp add: Code_Valid_def code_defs)

lemma Code_Valid_facts:
  assumes "Code_Valid c"
  shows "c \<noteq> []" "CHR ''/'' \<notin> set c" "is_ascii c" "map upper_char c = c"
    "list_all (\<lambda>x. \<not> ascii_space x) c"
proof -
  consider "c = ''USD''" | "c = ''MXN''" | "c = ''EUR''" using assms by (auto simp: Code_Valid_iff)
  then have "c \<noteq> [] \<and> CHR ''/'' \<notin> set c \<and> is_ascii c \<and> map upper_char c = c
    \<and> list_all (\<lambda>x. \<not> ascii_space x) c"
    by cases (simp_all add: byte_def upper_char_def ascii_space_def)
  then show "c \<noteq> []" "CHR ''/'' \<notin> set c" "is_ascii c" "map upper_char c = c"
    "list_all (\<lambda>x. \<not> ascii_space x) c" by blast+
qed

lemma NewCurrencyPair_Ok_iff [simp]:
  "NewCurrencyPair b q = Ok p \<longleftrightarrow> p = \<lparr>base = b, quote = q\<rparr> \<and> pair_ok p"
  by (auto simp: NewCurrencyPair_def pair_ok_def)

lemma NewCurrencyPair_cases:
  "(\<exists>p. NewCurrencyPair b q = Ok p) \<or> (\<exists>d. NewCurrencyPair b q = Err (ErrPairNotAllowed d))"
  by (auto simp: NewCurrencyPair_def)

definition well_shaped :: "unicode \<Rightarrow> string \<Rightarrow> bool" where
  "well_shaped U s \<longleftrightarrow> (\<exists>x y. x \<noteq> [] \<and> y \<noteq> [] \<and> CHR ''/'' \<notin> set x \<and> CHR ''/'' \<notin> set y
     \<and> strings_ToUpper U (strings_TrimSpace U s) = x @ CHR ''/'' # y)"

text \<open>The parser, once its split at the slash is known.\<close>

lemma ParseCurrencyPair_malformed:
  "\<not> well_shaped U s \<Longrightarrow>
   ParseCurrencyPair U s ''/'' = Err (ErrMalformedPair (strings_ToUpper U (strings_TrimSpace U s)) ''/'')"
proof -
  assume *: "\<not> well_shaped U s"
  let ?s = "strings_ToUpper U (strings_TrimSpace U s)"
  let ?codes = "strings_Split U ?s ''/''"
  have "length ?codes \<noteq> 2 \<or> ?codes ! 0 = [] \<or> ?codes ! 1 = []"
  proof (rule ccontr)
    assume "\<not> ?thesis"
    then obtain x y where "?codes = [x, y]" "x \<noteq> []" "y \<noteq> []"
      by (auto simp: length_Suc_conv numeral_2_eq_2)
    with * show False by (auto simp: well_shaped_def strings_Split_def genSplit_two)
  qed
  then show ?thesis by (simp add: ParseCurrencyPair_def Let_def)
qed

lemma ParseCurrencyPair_shaped:
  assumes "strings_ToUpper U (strings_TrimSpace U s) = x @ CHR ''/'' # y"
    and "x \<noteq> []" "y \<noteq> []" "CHR ''/'' \<notin> set x" "CHR ''/'' \<notin> set y"
  shows "ParseCurrencyPair U s ''/'' =
    (if \<not> Code_Valid x then Err (ErrPairNotAllowed (WrappedBaseCode x))
     else if \<not> Code_Valid y then Err (ErrPairNotAllowed (WrappedQuoteCode y))
     else NewCurrencyPair x y)"
proof -
  have "genSplit (x @ CHR ''/'' # y) ''/'' = [x, y]" using assms by (simp add: genSplit_two)
  with assms show ?thesis
    by (simp add: ParseCurrencyPair_def Let_def strings_Split_def NewCurrencyCode_def)
qed

lemma Pair_String_shape: "Pair_String p = base p @ CHR ''/'' # quote p"
  by (simp add: Pair_String_def Slug_def)

lemma pair_ok_shape:
  assumes "pair_ok p"
  shows "base p \<noteq> []" "quote p \<noteq> []" "CHR ''/'' \<notin> set (base p)" "CHR ''/'' \<notin> set (quote p)"
    "is_ascii (Pair_String p)" "map upper_char (Pair_String p) = Pair_String p"
    "list_all (\<lambda>x. \<not> ascii_space x) (Pair_String p)"
  using assms Code_Valid_facts [of "base p"] Code_Valid_facts [of "quote p"]
  by (simp_all add: pair_ok_def Pair_String_shape byte_def upper_char_def ascii_space_def)

lemma ParseCurrencyPair_Ok_iff:
  "ParseCurrencyPair U s ''/'' = Ok p \<longleftrightarrow>
   pair_ok p \<and> strings_ToUpper U (strings_TrimSpace U s) = Pair_String p"
proof
  assume ok: "ParseCurrencyPair U s ''/'' = Ok p"
  then have "well_shaped U s" using ParseCurrencyPair_malformed [of U s] by force
  then obtain x y where xy: "strings_ToUpper U (strings_TrimSpace U s) = x @ CHR ''/'' # y"
    "x \<noteq> []" "y \<noteq> []" "CHR ''/'' \<notin> set x" "CHR ''/'' \<notin> set y"
    by (auto simp: well_shaped_def)
  from ok show "pair_ok p \<and> strings_ToUpper U (strings_TrimSpace U s) = Pair_String p"
    unfolding ParseCurrencyPair_shaped [OF xy] using xy(1)
    by (auto simp: Pair_String_shape split: if_splits)
next
  assume *: "pair_ok p \<and> strings_ToUpper U (strings_TrimSpace U s) = Pair_String p"
  then have "ParseCurrencyPair U s ''/'' =
    (if \<not> Code_Valid (base p) then Err (ErrPairNotAllowed (WrappedBaseCode (base p)))
     else if \<not> Code_Valid (quote p) then Err (ErrPairNotAllowed (WrappedQuoteCode (quote p)))
     else NewCurrencyPair (base p) (quote p))"
    by (intro ParseCurrencyPair_shaped) (simp_all add: pair_ok_shape Pair_String_shape)
  with * show "ParseCurrencyPair U s ''/'' = Ok p" by (simp add: pair_ok_def)
qed

lemma ParseCurrencyPair_outcome:
  "(\<exists>p. ParseCurrencyPair U s ''/'' = Ok p)
   \<or> (\<exists>d. well_shaped U s \<and> ParseCurrencyPair U s ''/'' = Err (ErrPairNotAllowed d))
   \<or> (\<exists>m. \<not> well_shaped U s \<and> ParseCurrencyPair U s ''/'' = Err (ErrMalformedPair m ''/''))"
proof (cases "well_shaped U s")
  case True
  then obtain x y where xy: "strings_ToUpper U (strings_TrimSpace U s) = x @ CHR ''/'' # y"
    "x \<noteq> []" "y \<noteq> []" "CHR ''/'' \<notin> set x" "CHR ''/'' \<notin> set y"
    by (auto simp: well_shaped_def)
  show ?thesis
    unfolding ParseCurrencyPair_shaped [OF xy] using True NewCurrencyPair_cases [of x y] by auto
qed (simp add: ParseCurrencyPair_malformed)

lemma ParseCurrencyPair_not_Panic [simp]: "ParseCurrencyPair U s ''/'' \<noteq> Panic"
  using ParseCurrencyPair_outcome [of U s] by auto

lemma pair_ok_cases:
  assumes "pair_ok p"
  shows "p \<in> set [\<lparr>base = ''USD'', quote = ''EUR''\<rparr>, \<lparr>base = ''USD'', quote = ''MXN''\<rparr>,
    \<lparr>base = ''EUR'', quote = ''USD''\<rparr>, \<lparr>base = ''EUR'', quote = ''MXN''\<rparr>,
    \<lparr>base = ''MXN'', quote = ''USD''\<rparr>, \<lparr>base = ''MXN'', quote = ''EUR''\<rparr>]"
  using assms by (cases p) (auto simp: pair_ok_def Code_Valid_iff)

lemma Pair_String_inject:
  assumes "pair_ok p" "pair_ok q" "Pair_String p = Pair_String q"
  shows "p = q"
  using pair_ok_cases [OF assms(1)] pair_ok_cases [OF assms(2)] assms(3)
  by (auto simp: Pair_String_shape)

lemma CanTransitionTo_simps [simp]:
  "CanTransitionTo StatusPending s \<longleftrightarrow> s = StatusInProgress"
  "CanTransitionTo StatusInProgress s \<longleftrightarrow> s \<in> {StatusSucceeded, StatusFailed, StatusPending}"
  "\<not> CanTransitionTo StatusSucceeded s" "\<not> CanTransitionTo StatusFailed s"
  "\<not> CanTransitionTo (StatusOther x) s"
  by (auto simp: CanTransitionTo_def)

lemma TransitionTo_Ok_iff:
  "TransitionTo req next now = Ok r \<longleftrightarrow>
   CanTransitionTo (Status req) next \<and> r = req\<lparr>Status := next, UpdatedAt := now\<rparr>"
  by (auto simp: TransitionTo_def)

lemma NewCurrencyRate_Ok_iff:
  "NewCurrencyRate Sign v d q prov ind qa fa sa = Ok r \<longleftrightarrow>
   0 < Sign v \<and> qa \<noteq> 0 \<and> qa \<le> fa + maxQuotedAtSkew
   \<and> r = \<lparr>Value = v, Derived = d, Quality = q, QuotedAt = qa, Provider = prov,
           Indicative = ind, FetchedAt = fa, StaleAfter = sa\<rparr>"
  by (auto simp: NewCurrencyRate_def go_defs)

lemma NewCurrencyRate_not_Panic [simp]:
  "NewCurrencyRate Sign v d q prov ind qa fa sa \<noteq> Panic"
  by (auto simp: NewCurrencyRate_def)

lemma ErrorCode_Valid_simps [simp]:
  "ErrorCode_Valid InvalidRequestError" "ErrorCode_Valid UnsupportedPairError"
  "ErrorCode_Valid AuthError" "ErrorCode_Valid QuotaExceededError" "ErrorCode_Valid RateLimitedError"
  "ErrorCode_Valid ProviderUnavailableError" "ErrorCode_Valid UnclassifiedProviderError"
  "ErrorCode_Valid MalformedResponseError" "ErrorCode_Valid InternalError"
  "\<not> ErrorCode_Valid (OtherErrorCode s)"
  by (simp_all add: ErrorCode_Valid_def)

lemma NewCurrencyRateError_Ok [simp]:
  "ErrorCode_Valid c \<Longrightarrow> NewCurrencyRateError c m b d p =
     Ok \<lparr>err_code = c, err_message = m, err_retryable = b, err_retryAfter = d, err_providerCode = p\<rparr>"
  by (simp add: NewCurrencyRateError_def)

lemma failRate_Err [simp]:
  "ErrorCode_Valid c \<Longrightarrow> failRate c m b d p =
     Err (RateError \<lparr>err_code = c, err_message = m, err_retryable = b, err_retryAfter = d,
                     err_providerCode = p\<rparr>)"
  by (simp add: failRate_def)

end
