(* ===== verification/Repository.thy ===== *)
theory Repository
  imports Domain
begin

text \<open>
  The port \<open>internal/usecase/quotes/repository.go\<close>: the operations as a record of
  functions (a Go interface value), an abstract store (the queue of update requests and the
  journal of quotes) and, for every operation, the effect it promises on that store. The
  locale \<open>repository\<close> says that an implementation keeps those promises; its lemmas are
  proved from the promises alone, and the use cases rest on them whatever the storage.
\<close>

section \<open>The interface\<close>

record queue_row =
  q_req :: CurrencyRateUpdateRequest
  q_key :: string
  q_next :: gotime
  q_locked :: gotime
  q_quoteID :: int

type_synonym 'd quote_row = "CurrencyPair \<times> 'd CurrencyRate"

record ('r, 'd) Repository_ops =
  CreateUpdateRequest :: "'r \<Rightarrow> CurrencyRateUpdateRequest \<Rightarrow> string \<Rightarrow> unit go \<times> 'r"
  GetByIdempotencyKey :: "'r \<Rightarrow> string \<Rightarrow> CurrencyRateUpdateRequest go \<times> 'r"
  ClaimBatch :: "'r \<Rightarrow> int \<Rightarrow> gotime \<Rightarrow> gotime \<Rightarrow> CurrencyRateUpdateRequest list go \<times> 'r"
  CompleteSuccess :: "'r \<Rightarrow> uuid \<Rightarrow> CurrencyPair \<Rightarrow> 'd CurrencyRate \<Rightarrow> gotime \<Rightarrow> unit go \<times> 'r"
  CompleteSuccessReuse :: "'r \<Rightarrow> uuid \<Rightarrow> int \<Rightarrow> gotime \<Rightarrow> unit go \<times> 'r"
  CompleteFailure ::
    "'r \<Rightarrow> uuid \<Rightarrow> string \<Rightarrow> string \<Rightarrow> bool \<Rightarrow> gotime \<Rightarrow> gotime \<Rightarrow> unit go \<times> 'r"
  GetUpdateByID :: "'r \<Rightarrow> uuid \<Rightarrow> (CurrencyRateUpdateRequest \<times> 'd CurrencyRate option) go \<times> 'r"
  GetLatestQuote :: "'r \<Rightarrow> CurrencyPair \<Rightarrow> ('d CurrencyRate \<times> int) go \<times> 'r"

section \<open>The abstract store\<close>

record 'd store =
  st_rows :: "uuid \<Rightarrow> queue_row option"
  st_quotes :: "int \<Rightarrow> 'd quote_row option"

text \<open>
  A storage may keep less precision than Go: \<open>ct\<close> is what it keeps of an instant and
  \<open>cr\<close> what it keeps of a rate (both the identity for the in-memory one).
\<close>

definition new_row :: "(gotime \<Rightarrow> gotime) \<Rightarrow> CurrencyRateUpdateRequest \<Rightarrow> string \<Rightarrow> queue_row" where
  "new_row ct req key =
     \<lparr>q_req = req\<lparr>CreatedAt := ct (CreatedAt req), UpdatedAt := ct (UpdatedAt req)\<rparr>, q_key = key,
      q_next = ct (CreatedAt req), q_locked = 0, q_quoteID = 0\<rparr>"

definition key_used :: "'d store \<Rightarrow> string \<Rightarrow> bool" where
  "key_used S k \<longleftrightarrow> k \<noteq> [] \<and> (\<exists>i q. st_rows S i = Some q \<and> q_key q = k)"

definition claimable :: "gotime \<Rightarrow> gotime \<Rightarrow> queue_row \<Rightarrow> bool" where
  "claimable now visibleSince q \<longleftrightarrow>
     (Status (q_req q) = StatusPending \<and> q_next q \<le> now)
     \<or> (Status (q_req q) = StatusInProgress \<and> q_locked q < visibleSince)"

definition claimed_row :: "gotime \<Rightarrow> queue_row \<Rightarrow> queue_row" where
  "claimed_row now q = q\<lparr>q_req := (q_req q)\<lparr>Status := StatusInProgress, UpdatedAt := now,
       Attempts := Attempts (q_req q) + (if Status (q_req q) = StatusPending then 1 else 0)\<rparr>,
     q_locked := now\<rparr>"

definition succeeded_row :: "gotime \<Rightarrow> int \<Rightarrow> bool \<Rightarrow> queue_row \<Rightarrow> queue_row" where
  "succeeded_row now qid reused q = q\<lparr>q_req := (q_req q)\<lparr>Status := StatusSucceeded, UpdatedAt := now,
       ErrorCode := [], ErrorMessage := [], Reused := reused\<rparr>, q_quoteID := qid\<rparr>"

definition failed_row :: "gotime \<Rightarrow> string \<Rightarrow> string \<Rightarrow> bool \<Rightarrow> gotime \<Rightarrow> queue_row \<Rightarrow> queue_row" where
  "failed_row now code msg retryable next q =
     q\<lparr>q_req := (q_req q)\<lparr>Status := (if retryable then StatusPending else StatusFailed),
         UpdatedAt := now, ErrorCode := code, ErrorMessage := msg\<rparr>,
       q_next := (if retryable then next else q_next q)\<rparr>"

definition same_quote :: "CurrencyPair \<Rightarrow> 'd CurrencyRate \<Rightarrow> 'd quote_row \<Rightarrow> bool" where
  "same_quote p r q \<longleftrightarrow> fst q = p \<and> Provider (snd q) = Provider r \<and> QuotedAt (snd q) = QuotedAt r"

section \<open>What each operation promises\<close>

text \<open>A failed transition leaves the store alone and says why.\<close>

definition transition_refused :: "'d store \<Rightarrow> uuid \<Rightarrow> unit go \<Rightarrow> 'd store \<Rightarrow> bool" where
  "transition_refused S i res S' \<longleftrightarrow> S' = S \<and>
     (case st_rows S i of
        None \<Rightarrow> \<exists>e. res = Err e \<and> errors_Is (\<lambda>x. x = ErrNotFound) e
      | Some q \<Rightarrow> Status (q_req q) \<noteq> StatusInProgress
          \<and> (\<exists>e next. res = Err e
                \<and> errors_Is (\<lambda>x. x = ErrInvalidTransition (Status (q_req q)) next) e))"

definition create_spec ::
  "(gotime \<Rightarrow> gotime) \<Rightarrow> 'd store \<Rightarrow> CurrencyRateUpdateRequest \<Rightarrow> string \<Rightarrow> unit go \<Rightarrow> 'd store \<Rightarrow> bool" where
  "create_spec ct S req key res S' \<longleftrightarrow>
     (if key_used S key then res = Err ErrIdempotencyKeyExists \<and> S' = S
      else res = Ok () \<and> S' = S\<lparr>st_rows := (st_rows S)(ID req \<mapsto> new_row ct req key)\<rparr>)"

definition by_key_spec ::
  "'d store \<Rightarrow> string \<Rightarrow> CurrencyRateUpdateRequest go \<Rightarrow> 'd store \<Rightarrow> bool" where
  "by_key_spec S key res S' \<longleftrightarrow> S' = S \<and>
     (if key_used S key
      then \<exists>i q b. st_rows S i = Some q \<and> q_key q = key \<and> res = Ok ((q_req q)\<lparr>Reused := b\<rparr>)
      else res = Err ErrNotFound)"

definition claim_spec ::
  "(gotime \<Rightarrow> gotime) \<Rightarrow> 'd store \<Rightarrow> int \<Rightarrow> gotime \<Rightarrow> gotime
     \<Rightarrow> CurrencyRateUpdateRequest list go \<Rightarrow> 'd store \<Rightarrow> bool" where
  "claim_spec ct S limit now visibleSince res S' \<longleftrightarrow>
     (\<exists>claimed. res = Ok claimed
       \<and> (let due = {i. \<exists>q. st_rows S i = Some q \<and> claimable (ct now) (ct visibleSince) q};
              taken = ID ` set claimed
          in distinct (map ID claimed) \<and> taken \<subseteq> due
             \<and> length claimed = min (nat limit) (card due)
             \<and> st_rows S' = (\<lambda>i. if i \<in> taken then map_option (claimed_row (ct now)) (st_rows S i)
                                 else st_rows S i)
             \<and> st_quotes S' = st_quotes S
             \<and> (\<forall>req \<in> set claimed. \<exists>q. st_rows S' (ID req) = Some q
                    \<and> req\<lparr>Reused := Reused (q_req q)\<rparr> = q_req q)
             \<and> (\<forall>i \<in> taken. \<forall>j \<in> due - taken. \<forall>q q'.
                    st_rows S i = Some q \<longrightarrow> st_rows S j = Some q'
                    \<longrightarrow> Status (q_req q) = StatusPending \<longrightarrow> Status (q_req q') = StatusPending
                    \<longrightarrow> q_next q \<le> q_next q')))"

lemma claim_specI:
  assumes "res = Ok claimed"
    and "{i. \<exists>q. st_rows S i = Some q \<and> claimable (ct now) (ct visibleSince) q} = due"
    and "ID ` set claimed = taken" "distinct (map ID claimed)" "taken \<subseteq> due"
    and "length claimed = min (nat limit) (card due)"
    and "st_rows S' = (\<lambda>i. if i \<in> taken then map_option (claimed_row (ct now)) (st_rows S i)
                           else st_rows S i)"
    and "st_quotes S' = st_quotes S"
    and "\<And>req. req \<in> set claimed \<Longrightarrow> \<exists>q. st_rows S' (ID req) = Some q
           \<and> req\<lparr>Reused := Reused (q_req q)\<rparr> = q_req q"
    and "\<And>i j q q'. i \<in> taken \<Longrightarrow> j \<in> due - taken \<Longrightarrow> st_rows S i = Some q \<Longrightarrow> st_rows S j = Some q'
           \<Longrightarrow> Status (q_req q) = StatusPending \<Longrightarrow> Status (q_req q') = StatusPending
           \<Longrightarrow> q_next q \<le> q_next q'"
  shows "claim_spec ct S limit now visibleSince res S'"
  unfolding claim_spec_def Let_def assms(2)
  by (rule exI [of _ claimed], unfold assms(3)) (intro conjI ballI allI impI assms)

definition success_spec ::
  "(gotime \<Rightarrow> gotime) \<Rightarrow> ('d CurrencyRate \<Rightarrow> 'd CurrencyRate) \<Rightarrow> 'd store \<Rightarrow> uuid \<Rightarrow> CurrencyPair
     \<Rightarrow> 'd CurrencyRate \<Rightarrow> gotime \<Rightarrow> unit go \<Rightarrow> 'd store \<Rightarrow> bool" where
  "success_spec ct cr S i p rate now res S' \<longleftrightarrow>
     transition_refused S i res S'
     \<or> (\<exists>q qid. st_rows S i = Some q \<and> Status (q_req q) = StatusInProgress \<and> res = Ok ()
          \<and> qid > 0
          \<and> st_rows S' = (st_rows S)(i \<mapsto> succeeded_row (ct now) qid False q)
          \<and> (if \<exists>k x. st_quotes S k = Some x \<and> same_quote p (cr rate) x
             then st_quotes S' = st_quotes S
                  \<and> (\<exists>x. st_quotes S qid = Some x \<and> same_quote p (cr rate) x)
             else st_quotes S qid = None \<and> st_quotes S' = (st_quotes S)(qid \<mapsto> (p, cr rate))))"

definition reuse_spec ::
  "(gotime \<Rightarrow> gotime) \<Rightarrow> 'd store \<Rightarrow> uuid \<Rightarrow> int \<Rightarrow> gotime \<Rightarrow> unit go \<Rightarrow> 'd store \<Rightarrow> bool" where
  "reuse_spec ct S i qid now res S' \<longleftrightarrow>
     transition_refused S i res S'
     \<or> (\<exists>q. st_rows S i = Some q \<and> Status (q_req q) = StatusInProgress \<and> res = Ok ()
          \<and> S' = S\<lparr>st_rows := (st_rows S)(i \<mapsto> succeeded_row (ct now) qid True q)\<rparr>)"

definition failure_spec ::
  "(gotime \<Rightarrow> gotime) \<Rightarrow> 'd store \<Rightarrow> uuid \<Rightarrow> string \<Rightarrow> string \<Rightarrow> bool \<Rightarrow> gotime \<Rightarrow> gotime
     \<Rightarrow> unit go \<Rightarrow> 'd store \<Rightarrow> bool" where
  "failure_spec ct S i code msg retryable next now res S' \<longleftrightarrow>
     transition_refused S i res S'
     \<or> (\<exists>q. st_rows S i = Some q \<and> Status (q_req q) = StatusInProgress \<and> res = Ok ()
          \<and> S' = S\<lparr>st_rows := (st_rows S)(i \<mapsto> failed_row (ct now) code msg retryable (ct next) q)\<rparr>)"

definition by_id_spec ::
  "'d store \<Rightarrow> uuid \<Rightarrow> (CurrencyRateUpdateRequest \<times> 'd CurrencyRate option) go \<Rightarrow> 'd store \<Rightarrow> bool" where
  "by_id_spec S i res S' \<longleftrightarrow> S' = S \<and>
     (case st_rows S i of
        None \<Rightarrow> res = Err ErrNotFound
      | Some q \<Rightarrow> res = Ok (q_req q, if q_quoteID q = 0 then None
                                     else map_option snd (st_quotes S (q_quoteID q))))"

definition latest_spec ::
  "'d store \<Rightarrow> CurrencyPair \<Rightarrow> ('d CurrencyRate \<times> int) go \<Rightarrow> 'd store \<Rightarrow> bool" where
  "latest_spec S p res S' \<longleftrightarrow> S' = S \<and>
     ((res = Err ErrNotFound \<and> (\<forall>k r. st_quotes S k \<noteq> Some (p, r)))
      \<or> (\<exists>rate k. res = Ok (rate, k) \<and> st_quotes S k = Some (p, rate)
           \<and> (\<forall>k' r'. st_quotes S k' = Some (p, r') \<longrightarrow> (QuotedAt r', k') \<le> (QuotedAt rate, k))))"

section \<open>The invariant of the store\<close>

definition row_ok :: "'d store \<Rightarrow> uuid \<Rightarrow> queue_row \<Rightarrow> bool" where
  "row_ok S i q \<longleftrightarrow>
     ID (q_req q) = i \<and> pair_ok (Pair (q_req q)) \<and> Status_Valid (Status (q_req q))
     \<and> 0 \<le> Attempts (q_req q)
     \<and> (q_quoteID q \<noteq> 0 \<longleftrightarrow> Status (q_req q) = StatusSucceeded)
     \<and> (q_quoteID q \<noteq> 0 \<longrightarrow> (\<exists>r. st_quotes S (q_quoteID q) = Some (Pair (q_req q), r)))
     \<and> (Reused (q_req q) \<longrightarrow> Status (q_req q) = StatusSucceeded)
     \<and> (Status (q_req q) = StatusSucceeded \<longrightarrow> ErrorCode (q_req q) = [] \<and> ErrorMessage (q_req q) = [])
     \<and> (Status (q_req q) \<noteq> StatusPending \<longrightarrow> 0 < Attempts (q_req q))"

definition store_ok :: "'d store \<Rightarrow> bool" where
  "store_ok S \<longleftrightarrow>
     finite (dom (st_rows S))
     \<and> (\<forall>i q. st_rows S i = Some q \<longrightarrow> row_ok S i q)
     \<and> (\<forall>i j q q'. st_rows S i = Some q \<longrightarrow> st_rows S j = Some q' \<longrightarrow> q_key q \<noteq> []
          \<longrightarrow> q_key q = q_key q' \<longrightarrow> i = j)
     \<and> (\<forall>k x. st_quotes S k = Some x \<longrightarrow> 0 < k)
     \<and> (\<forall>k l x y. st_quotes S k = Some x \<longrightarrow> st_quotes S l = Some y
          \<longrightarrow> same_quote (fst x) (snd x) y \<longrightarrow> k = l)"

definition empty_store :: "'d store" where
  "empty_store = \<lparr>st_rows = Map.empty, st_quotes = Map.empty\<rparr>"

lemma store_ok_empty: "store_ok empty_store"
  by (simp add: store_ok_def empty_store_def)

lemma store_ok_rowD: "store_ok S \<Longrightarrow> st_rows S i = Some q \<Longrightarrow> row_ok S i q"
  by (simp add: store_ok_def)

section \<open>The promises keep the invariant\<close>

lemma row_ok_rows_update [simp]: "row_ok (S\<lparr>st_rows := R\<rparr>) = row_ok S"
  by (simp add: row_ok_def fun_eq_iff)

lemma row_ok_mono:
  assumes "st_quotes S \<subseteq>\<^sub>m st_quotes S'" "row_ok S i q"
  shows "row_ok S' i q"
  using assms by (auto simp: row_ok_def map_le_def dom_def)

lemma store_ok_rows:
  assumes ok: "store_ok S" and quotes: "st_quotes S' = st_quotes S"
    and dom: "dom (st_rows S') = dom (st_rows S)"
    and rows: "\<And>i q'. st_rows S' i = Some q' \<Longrightarrow>
      \<exists>q. st_rows S i = Some q \<and> q_key q' = q_key q \<and> row_ok S i q'"
  shows "store_ok S'"
proof -
  have "row_ok S' i q'" if "st_rows S' i = Some q'" for i q'
    using rows [OF that] row_ok_mono [of S S'] quotes by auto
  moreover have "i = j" if "st_rows S' i = Some q" "st_rows S' j = Some q'" "q_key q \<noteq> []"
      "q_key q = q_key q'" for i j q q'
    using rows [OF that(1)] rows [OF that(2)] that(3,4) ok unfolding store_ok_def by metis
  ultimately show ?thesis using ok unfolding store_ok_def quotes dom by blast
qed

lemma store_ok_update_row:
  assumes "store_ok S" "st_rows S i = Some q" "q_key q' = q_key q" "row_ok S i q'"
  shows "store_ok (S\<lparr>st_rows := (st_rows S)(i \<mapsto> q')\<rparr>)"
  using assms store_ok_rowD [OF assms(1)]
  by (intro store_ok_rows [OF assms(1)]) (auto split: if_splits)

lemma store_ok_add_row:
  assumes ok: "store_ok S" and fresh: "st_rows S i = None" "\<not> key_used S (q_key q)"
    and row: "row_ok S i q"
  shows "store_ok (S\<lparr>st_rows := (st_rows S)(i \<mapsto> q)\<rparr>)"
proof -
  have unused: "q_key q \<noteq> [] \<Longrightarrow> st_rows S j = Some q' \<Longrightarrow> q_key q' \<noteq> q_key q" for j q'
    using fresh(2) by (auto simp: key_used_def)
  have unique: "i' = j'" if "st_rows S i' = Some r" "st_rows S j' = Some r'" "q_key r \<noteq> []"
      "q_key r = q_key r'" for i' j' r r'
    using ok that unfolding store_ok_def by blast
  show ?thesis
    unfolding store_ok_def
  proof (intro conjI allI impI, goal_cases)
    case (3 i' j' r r')
    then show ?case using unused unique by (auto split: if_splits)
  qed (use ok row in \<open>auto simp: store_ok_def split: if_splits\<close>)
qed

lemma store_ok_add_quote:
  assumes ok: "store_ok S" and fresh: "st_quotes S k = None" "0 < k"
    and new: "\<not> (\<exists>l x. st_quotes S l = Some x \<and> same_quote p r x)"
  shows "store_ok (S\<lparr>st_quotes := (st_quotes S)(k \<mapsto> (p, r))\<rparr>)"
proof -
  let ?S = "S\<lparr>st_quotes := (st_quotes S)(k \<mapsto> (p, r))\<rparr>"
  have le: "st_quotes S \<subseteq>\<^sub>m st_quotes ?S" using fresh(1) by (auto simp: map_le_def dom_def)
  have new': "\<not> same_quote (fst x) (snd x) (p, r)" if "st_quotes S l = Some x" for l x
  proof
    assume "same_quote (fst x) (snd x) (p, r)"
    then have "same_quote p r x" by (simp add: same_quote_def)
    with new that show False by blast
  qed
  have uniq: "l = m" if "st_quotes S l = Some x" "st_quotes S m = Some y"
      "same_quote (fst x) (snd x) y" for l m x y
    using ok that unfolding store_ok_def by blast
  show ?thesis
    unfolding store_ok_def
  proof (intro conjI allI impI, goal_cases)
    case (2 i q)
    then show ?case using store_ok_rowD [OF ok] row_ok_mono [OF le] by simp
  next
    case (5 l m x y)
    then show ?case using new new' uniq by (cases y) (auto split: if_splits)
  qed (use ok fresh in \<open>auto simp: store_ok_def split: if_splits\<close>)
qed

lemma store_ok_create:
  assumes "store_ok S" "create_spec ct S req key res S'" "st_rows S (ID req) = None"
    and "req = NewCurrencyRateUpdateRequest i p t" "pair_ok p"
  shows "store_ok S'"
proof (cases "key_used S key")
  case True
  with assms show ?thesis by (simp add: create_spec_def)
next
  case False
  have "row_ok S (ID req) (new_row ct req key)" "q_key (new_row ct req key) = key"
    using assms(4,5) by (simp_all add: row_ok_def new_row_def NewCurrencyRateUpdateRequest_def
        Status_Valid_def)
  with False assms(1-3) store_ok_add_row [of S "ID req" "new_row ct req key"] show ?thesis
    by (simp add: create_spec_def)
qed

lemma q_key_steps [simp]:
  "q_key (claimed_row now q) = q_key q" "q_key (succeeded_row now qid reused q) = q_key q"
  "q_key (failed_row now code msg retryable next q) = q_key q"
  by (simp_all add: claimed_row_def succeeded_row_def failed_row_def)

lemma row_ok_claimed:
  "row_ok S i q \<Longrightarrow> claimable n v q \<Longrightarrow> row_ok S i (claimed_row now q)"
  by (auto simp: row_ok_def claimed_row_def claimable_def Status_Valid_def)

text \<open>Claiming any set of claimable rows keeps the invariant.\<close>

lemma store_ok_claimed:
  assumes ok: "store_ok S"
    and taken: "taken \<subseteq> {i. \<exists>q. st_rows S i = Some q \<and> claimable n v q}"
    and rows: "st_rows S' = (\<lambda>i. if i \<in> taken then map_option (claimed_row now) (st_rows S i)
                              else st_rows S i)"
    and quotes: "st_quotes S' = st_quotes S"
  shows "store_ok S'"
proof (rule store_ok_rows [OF ok quotes])
  show "dom (st_rows S') = dom (st_rows S)" by (auto simp: rows dom_def split: if_splits)
next
  fix i q' assume q': "st_rows S' i = Some q'"
  show "\<exists>q. st_rows S i = Some q \<and> q_key q' = q_key q \<and> row_ok S i q'"
  proof (cases "i \<in> taken")
    case True
    with taken obtain q where q: "st_rows S i = Some q" "claimable n v q" by auto
    with q' rows True have "q' = claimed_row now q" by simp
    with q row_ok_claimed [OF store_ok_rowD [OF ok q(1)] q(2)] show ?thesis by simp
  next
    case False
    with q' rows store_ok_rowD [OF ok] show ?thesis by auto
  qed
qed

lemma claim_specD:
  assumes "claim_spec ct S limit now visibleSince res S'"
  obtains taken where
    "taken \<subseteq> {i. \<exists>q. st_rows S i = Some q \<and> claimable (ct now) (ct visibleSince) q}"
    "st_rows S' = (\<lambda>i. if i \<in> taken then map_option (claimed_row (ct now)) (st_rows S i)
                    else st_rows S i)"
    "st_quotes S' = st_quotes S"
  using assms unfolding claim_spec_def Let_def by blast

lemma store_ok_claim:
  assumes "store_ok S" "claim_spec ct S limit now visibleSince res S'"
  shows "store_ok S'"
  using assms(2) by (rule claim_specD) (rule store_ok_claimed [OF assms(1)])

lemma row_ok_succeeded:
  assumes "row_ok S i q" "Status (q_req q) = StatusInProgress" "0 < qid"
    and "st_quotes S qid = Some (Pair (q_req q), r)"
  shows "row_ok S i (succeeded_row now qid reused q)"
  using assms by (auto simp: row_ok_def succeeded_row_def Status_Valid_def)

lemma row_ok_failed:
  assumes "row_ok S i q" "Status (q_req q) = StatusInProgress"
  shows "row_ok S i (failed_row now code msg retryable next q)"
  using assms by (auto simp: row_ok_def failed_row_def Status_Valid_def)

lemma store_ok_success:
  assumes ok: "store_ok S" and spec: "success_spec ct cr S i p rate now res S'"
    and pair: "\<And>q. st_rows S i = Some q \<Longrightarrow> Pair (q_req q) = p"
  shows "store_ok S'"
proof (cases "transition_refused S i res S'")
  case True
  with ok show ?thesis by (simp add: transition_refused_def)
next
  case False
  with spec obtain q qid where q: "st_rows S i = Some q" "Status (q_req q) = StatusInProgress"
    and qid: "0 < qid" and rows: "st_rows S' = (st_rows S)(i \<mapsto> succeeded_row (ct now) qid False q)"
    and quotes: "if \<exists>k x. st_quotes S k = Some x \<and> same_quote p (cr rate) x
             then st_quotes S' = st_quotes S
                  \<and> (\<exists>x. st_quotes S qid = Some x \<and> same_quote p (cr rate) x)
             else st_quotes S qid = None \<and> st_quotes S' = (st_quotes S)(qid \<mapsto> (p, cr rate))"
    unfolding success_spec_def by blast
  let ?Q = "S\<lparr>st_quotes := st_quotes S'\<rparr>"
  have Q: "store_ok ?Q \<and> (\<exists>r. st_quotes ?Q qid = Some (p, r))"
  proof (cases "\<exists>k x. st_quotes S k = Some x \<and> same_quote p (cr rate) x")
    case True
    with quotes obtain x where "st_quotes S' = st_quotes S" "st_quotes S qid = Some x"
      "same_quote p (cr rate) x" by auto
    with ok show ?thesis by (cases x) (simp add: same_quote_def)
  next
    case False
    with quotes store_ok_add_quote [OF ok, of qid p "cr rate"] qid show ?thesis by auto
  qed
  then obtain r where "store_ok ?Q" "st_quotes ?Q qid = Some (Pair (q_req q), r)"
    using pair [OF q(1)] by auto
  with store_ok_rowD [of ?Q i q] q qid
  have "row_ok ?Q i (succeeded_row (ct now) qid False q)"
    by (intro row_ok_succeeded) simp_all
  moreover have "S' = ?Q\<lparr>st_rows := (st_rows ?Q)(i \<mapsto> succeeded_row (ct now) qid False q)\<rparr>"
    using rows by simp
  ultimately show ?thesis
    using store_ok_update_row [OF \<open>store_ok ?Q\<close>, of i q "succeeded_row (ct now) qid False q"] q
    by (simp add: succeeded_row_def)
qed

lemma store_ok_reuse:
  assumes ok: "store_ok S" and spec: "reuse_spec ct S i qid now res S'"
    and quote: "\<And>q. st_rows S i = Some q \<Longrightarrow> \<exists>r. st_quotes S qid = Some (Pair (q_req q), r)"
  shows "store_ok S'"
proof (cases "transition_refused S i res S'")
  case True
  with ok show ?thesis by (simp add: transition_refused_def)
next
  case False
  with spec obtain q where q: "st_rows S i = Some q" "Status (q_req q) = StatusInProgress"
    and S': "S' = S\<lparr>st_rows := (st_rows S)(i \<mapsto> succeeded_row (ct now) qid True q)\<rparr>"
    unfolding reuse_spec_def by blast
  from quote [OF q(1)] obtain r where r: "st_quotes S qid = Some (Pair (q_req q), r)" by blast
  with ok have "0 < qid" by (auto simp: store_ok_def)
  with r q have "row_ok S i (succeeded_row (ct now) qid True q)"
    using store_ok_rowD [OF ok q(1)] by (intro row_ok_succeeded)
  with q ok show ?thesis unfolding S'
    by (intro store_ok_update_row) simp_all
qed

lemma store_ok_failure:
  assumes ok: "store_ok S" and spec: "failure_spec ct S i code msg retryable next now res S'"
  shows "store_ok S'"
proof (cases "transition_refused S i res S'")
  case True
  with ok show ?thesis by (simp add: transition_refused_def)
next
  case False
  with spec obtain q where q: "st_rows S i = Some q" "Status (q_req q) = StatusInProgress"
    and S': "S' = S\<lparr>st_rows := (st_rows S)(i \<mapsto> failed_row (ct now) code msg retryable (ct next) q)\<rparr>"
    unfolding failure_spec_def by blast
  with store_ok_rowD [OF ok q(1)] ok show ?thesis unfolding S'
    by (intro store_ok_update_row) (simp_all add: row_ok_failed)
qed

section \<open>How a store evolves\<close>

text \<open>
  What no operation ever undoes: a row keeps its identity, pair, key and creation time, never
  loses attempts, and is frozen once it has succeeded or failed; the journal of quotes only
  grows and never rewrites an entry.
\<close>

definition row_evolves :: "queue_row \<Rightarrow> queue_row \<Rightarrow> bool" where
  "row_evolves q q' \<longleftrightarrow>
     q_key q' = q_key q \<and> ID (q_req q') = ID (q_req q) \<and> Pair (q_req q') = Pair (q_req q)
     \<and> CreatedAt (q_req q') = CreatedAt (q_req q) \<and> Attempts (q_req q) \<le> Attempts (q_req q')
     \<and> (Status (q_req q) \<in> {StatusSucceeded, StatusFailed} \<longrightarrow> q' = q)"

definition evolves :: "'d store \<Rightarrow> 'd store \<Rightarrow> bool" where
  "evolves S S' \<longleftrightarrow>
     (\<forall>i q. st_rows S i = Some q \<longrightarrow> (\<exists>q'. st_rows S' i = Some q' \<and> row_evolves q q'))
     \<and> st_quotes S \<subseteq>\<^sub>m st_quotes S'"

lemma row_evolves_refl [simp]: "row_evolves q q"
  by (simp add: row_evolves_def)

lemma row_evolves_trans: "row_evolves q q' \<Longrightarrow> row_evolves q' q'' \<Longrightarrow> row_evolves q q''"
  by (auto simp: row_evolves_def)

lemma evolves_refl [simp]: "evolves S S"
  by (simp add: evolves_def)

lemma evolves_trans: "evolves S S' \<Longrightarrow> evolves S' S'' \<Longrightarrow> evolves S S''"
  unfolding evolves_def by (metis map_le_trans row_evolves_trans)

lemma row_evolves_steps:
  "claimable n v q \<Longrightarrow> row_evolves q (claimed_row now q)"
  "Status (q_req q) = StatusInProgress \<Longrightarrow> row_evolves q (succeeded_row now qid reused q)"
  "Status (q_req q) = StatusInProgress \<Longrightarrow> row_evolves q (failed_row now code msg retryable next q)"
  by (auto simp: row_evolves_def claimed_row_def succeeded_row_def failed_row_def claimable_def)

lemma evolves_update_row:
  "st_rows S i = Some q \<Longrightarrow> row_evolves q q' \<Longrightarrow> evolves S (S\<lparr>st_rows := (st_rows S)(i \<mapsto> q')\<rparr>)"
  by (auto simp: evolves_def)

lemma evolves_create:
  "create_spec ct S req key res S' \<Longrightarrow> st_rows S (ID req) = None \<Longrightarrow> evolves S S'"
  by (auto simp: create_spec_def evolves_def split: if_splits)

lemma evolves_claimed:
  assumes taken: "taken \<subseteq> {i. \<exists>q. st_rows S i = Some q \<and> claimable n v q}"
    and rows: "st_rows S' = (\<lambda>i. if i \<in> taken then map_option (claimed_row now) (st_rows S i)
                              else st_rows S i)"
    and quotes: "st_quotes S' = st_quotes S"
  shows "evolves S S'"
proof -
  have "row_evolves q (claimed_row now q)" if "i \<in> taken" "st_rows S i = Some q" for i q
  proof -
    from taken that have "claimable n v q" by auto
    then show ?thesis by (rule row_evolves_steps(1))
  qed
  then show ?thesis by (simp add: evolves_def rows quotes)
qed

lemma evolves_claim:
  assumes "claim_spec ct S limit now visibleSince res S'"
  shows "evolves S S'"
  using assms by (rule claim_specD) (rule evolves_claimed)

lemma evolves_success: "success_spec ct cr S i p rate now res S' \<Longrightarrow> evolves S S'"
  by (auto simp: success_spec_def transition_refused_def evolves_def map_le_def
      row_evolves_steps(2) split: if_splits)

lemma evolves_reuse: "reuse_spec ct S i qid now res S' \<Longrightarrow> evolves S S'"
  by (auto simp: reuse_spec_def transition_refused_def intro: evolves_update_row row_evolves_steps(2))

lemma evolves_failure: "failure_spec ct S i code msg retryable next now res S' \<Longrightarrow> evolves S S'"
  by (auto simp: failure_spec_def transition_refused_def intro: evolves_update_row row_evolves_steps(3))

section \<open>The contract\<close>

text \<open>
  Storage may fail (a lost connection, an expired context): such an error is none of the
  errors the port names and is not a classified provider error, and the store is unchanged.
\<close>

fun sentinel :: "go_error \<Rightarrow> bool" where
  "sentinel ErrNotFound = True"
| "sentinel ErrIdempotencyKeyExists = True"
| "sentinel ErrIdempotencyConflict = True"
| "sentinel (ErrMalformedPair s sep) = True"
| "sentinel (ErrPairNotAllowed d) = True"
| "sentinel (ErrInvalidTransition a b) = True"
| "sentinel e = False"

definition infra :: "go_error \<Rightarrow> bool" where
  "infra e \<longleftrightarrow> \<not> errors_Is sentinel e \<and> errors_As_rate e = None"

definition fault :: "'d store \<Rightarrow> 'a go \<Rightarrow> 'd store \<Rightarrow> bool" where
  "fault S res S' \<longleftrightarrow> S' = S \<and> (\<exists>e. res = Err e \<and> infra e)"

definition fresh_request :: "'d store \<Rightarrow> CurrencyRateUpdateRequest \<Rightarrow> bool" where
  "fresh_request S req \<longleftrightarrow> st_rows S (ID req) = None
     \<and> (\<exists>i p t. req = NewCurrencyRateUpdateRequest i p t \<and> pair_ok p)"

locale repository =
  fixes R :: "('r, 'd) Repository_ops"
    and abs :: "'r \<Rightarrow> 'd store"
    and inv :: "'r \<Rightarrow> bool"
    and ct :: "gotime \<Rightarrow> gotime"
    and cr :: "'d CurrencyRate \<Rightarrow> 'd CurrencyRate"
  assumes create_law:
    "inv s \<Longrightarrow> store_ok (abs s) \<Longrightarrow> fresh_request (abs s) req
      \<Longrightarrow> CreateUpdateRequest R s req key = (res, s')
      \<Longrightarrow> inv s' \<and> (create_spec ct (abs s) req key res (abs s') \<or> fault (abs s) res (abs s'))"
    and by_key_law:
    "inv s \<Longrightarrow> store_ok (abs s) \<Longrightarrow> GetByIdempotencyKey R s key = (res', s')
      \<Longrightarrow> inv s' \<and> (by_key_spec (abs s) key res' (abs s') \<or> fault (abs s) res' (abs s'))"
    and claim_law:
    "inv s \<Longrightarrow> store_ok (abs s) \<Longrightarrow> 0 \<le> limit \<Longrightarrow> ClaimBatch R s limit now vis = (res'', s')
      \<Longrightarrow> inv s' \<and> (claim_spec ct (abs s) limit now vis res'' (abs s') \<or> fault (abs s) res'' (abs s'))"
    and success_law:
    "inv s \<Longrightarrow> store_ok (abs s) \<Longrightarrow> pair_ok p \<Longrightarrow> CompleteSuccess R s i p rate now = (res, s')
      \<Longrightarrow> inv s' \<and> (success_spec ct cr (abs s) i p rate now res (abs s') \<or> fault (abs s) res (abs s'))"
    and reuse_law:
    "inv s \<Longrightarrow> store_ok (abs s) \<Longrightarrow> st_quotes (abs s) qid \<noteq> None
      \<Longrightarrow> CompleteSuccessReuse R s i qid now = (res, s')
      \<Longrightarrow> inv s' \<and> (reuse_spec ct (abs s) i qid now res (abs s') \<or> fault (abs s) res (abs s'))"
    and failure_law:
    "inv s \<Longrightarrow> store_ok (abs s) \<Longrightarrow> CompleteFailure R s i code msg retryable next now = (res, s')
      \<Longrightarrow> inv s' \<and> (failure_spec ct (abs s) i code msg retryable next now res (abs s')
            \<or> fault (abs s) res (abs s'))"
    and by_id_law:
    "inv s \<Longrightarrow> store_ok (abs s) \<Longrightarrow> GetUpdateByID R s i = (resi, s')
      \<Longrightarrow> inv s' \<and> (by_id_spec (abs s) i resi (abs s') \<or> fault (abs s) resi (abs s'))"
    and latest_law:
    "inv s \<Longrightarrow> store_ok (abs s) \<Longrightarrow> pair_ok p \<Longrightarrow> GetLatestQuote R s p = (resl, s')
      \<Longrightarrow> inv s' \<and> (latest_spec (abs s) p resl (abs s') \<or> fault (abs s) resl (abs s'))"
begin

lemma create_keeps:
  assumes "inv s" "store_ok (abs s)" "fresh_request (abs s) req"
    and "CreateUpdateRequest R s req key = (res, s')"
  shows "inv s'" "store_ok (abs s')" "evolves (abs s) (abs s')"
proof -
  note law = create_law [OF assms]
  then show "inv s'" by blast
  show "store_ok (abs s')"
    using law assms(2,3) store_ok_create by (fastforce simp: fault_def fresh_request_def)
  show "evolves (abs s) (abs s')"
    using law assms(3) evolves_create by (fastforce simp: fault_def fresh_request_def)
qed

lemma claim_keeps:
  assumes "inv s" "store_ok (abs s)" "0 \<le> limit" "ClaimBatch R s limit now vis = (res, s')"
  shows "inv s'" "store_ok (abs s')" "evolves (abs s) (abs s')"
  using claim_law [OF assms] assms(2) store_ok_claim evolves_claim
  by (metis fault_def evolves_refl)+

lemma success_keeps:
  assumes "inv s" "store_ok (abs s)" "pair_ok p" "CompleteSuccess R s i p rate now = (res, s')"
    and "\<And>q. st_rows (abs s) i = Some q \<Longrightarrow> Pair (q_req q) = p"
  shows "inv s'" "store_ok (abs s')" "evolves (abs s) (abs s')"
proof -
  note law = success_law [OF assms(1-4)]
  then show "inv s'" by blast
  show "store_ok (abs s')"
    using law assms(2,5) store_ok_success by (metis fault_def)
  show "evolves (abs s) (abs s')"
    using law evolves_success by (metis fault_def evolves_refl)
qed

lemma reuse_keeps:
  assumes "inv s" "store_ok (abs s)" "CompleteSuccessReuse R s i qid now = (res, s')"
    and "st_quotes (abs s) qid = Some (p, r)"
    and "\<And>q. st_rows (abs s) i = Some q \<Longrightarrow> Pair (q_req q) = p"
  shows "inv s'" "store_ok (abs s')" "evolves (abs s) (abs s')"
proof -
  have law: "inv s' \<and> (reuse_spec ct (abs s) i qid now res (abs s') \<or> fault (abs s) res (abs s'))"
    using reuse_law [OF assms(1,2) _ assms(3)] assms(4) by simp
  then show "inv s'" by blast
  show "store_ok (abs s')"
    using law assms(2,4,5) store_ok_reuse by (metis fault_def)
  show "evolves (abs s) (abs s')"
    using law evolves_reuse by (metis fault_def evolves_refl)
qed

lemma failure_keeps:
  assumes "inv s" "store_ok (abs s)"
    and "CompleteFailure R s i code msg retryable next now = (res, s')"
  shows "inv s'" "store_ok (abs s')" "evolves (abs s) (abs s')"
  using failure_law [OF assms] assms(2) store_ok_failure evolves_failure
  by (metis fault_def evolves_refl)+

lemma reads_keep:
  assumes "inv s" "store_ok (abs s)"
  shows "GetByIdempotencyKey R s key = (res', s') \<Longrightarrow> inv s' \<and> abs s' = abs s"
    and "GetUpdateByID R s i = (resi, s') \<Longrightarrow> inv s' \<and> abs s' = abs s"
    and "pair_ok p \<Longrightarrow> GetLatestQuote R s p = (resl, s') \<Longrightarrow> inv s' \<and> abs s' = abs s"
proof -
  show "inv s' \<and> abs s' = abs s" if "GetByIdempotencyKey R s key = (res', s')"
    using by_key_law [OF assms that] unfolding fault_def by_key_spec_def by blast
  show "inv s' \<and> abs s' = abs s" if "GetUpdateByID R s i = (resi, s')"
    using by_id_law [OF assms that] unfolding fault_def by_id_spec_def by blast
  show "inv s' \<and> abs s' = abs s" if "pair_ok p" "GetLatestQuote R s p = (resl, s')"
    using latest_law [OF assms that] unfolding fault_def latest_spec_def by blast
qed

end

end
