(* ===== verification/RateProvider.thy ===== *)
theory RateProvider
  imports Domain
begin

text \<open>
  The \<open>RateProvider\<close> port (\<open>internal/usecase/quotes/provider.go\<close>): what an adapter
  fetches, and the interface value an adapter is. The locale states what the worker relies on:
  a classified error carries one of the declared codes, and how long a quote stays fresh depends
  on its quality only, not on when it was quoted.
\<close>

record 'd ProviderQuote =
  pq_Value :: 'd
  pq_Derived :: bool
  pq_Quality :: string
  pq_QuotedAt :: gotime

record ('p, 'd) RateProvider_ops =
  rp_GetCurrencyRate :: "'p \<Rightarrow> CurrencyPair \<Rightarrow> 'd ProviderQuote go \<times> 'p"
  rp_Provider :: string
  rp_Indicative :: bool
  rp_StaleAfter :: "string \<Rightarrow> gotime \<Rightarrow> gotime"

locale rate_provider =
  fixes P :: "('p, 'd) RateProvider_ops"
  assumes classified:
      "rp_GetCurrencyRate P p pair = (Err e, p') \<Longrightarrow> errors_As_rate e = Some r
        \<Longrightarrow> ErrorCode_Valid (err_code r)"
    and stale_shift: "rp_StaleAfter P quality (t + d) = rp_StaleAfter P quality t + d"
begin

text \<open>A later quote of the same quality is fresh for longer.\<close>

lemma stale_mono: "t \<le> u \<Longrightarrow> rp_StaleAfter P quality t \<le> rp_StaleAfter P quality u"
  using stale_shift [of quality t "u - t"] by simp

end

end
