(* ===== verification/RateLimiter.thy ===== *)
theory RateLimiter
  imports Prelude
begin

text \<open>
  \<open>internal/usecase/quotes/ratelimiter.go\<close>: the self-counted budget of outbound
  provider calls, two sliding windows and a cooldown. \<open>Allow\<close> is the code's single pass
  over the call history; \<open>Allow_spec\<close> is the declarative reading of its comment, and the
  two are proved equal. The window bounds are proved for whole runs of \<open>Allow\<close> and
  \<open>CoolDown\<close> under a clock that does not run backwards.
\<close>

record RateLimiter =
  perMinute :: int
  perHour :: int
  calls :: "gotime list"
  blockedUntil :: gotime

definition NewRateLimiter :: "int \<Rightarrow> int \<Rightarrow> RateLimiter" where
  "NewRateLimiter pm ph = \<lparr>perMinute = pm, perHour = ph, calls = [], blockedUntil = 0\<rparr>"

definition CoolDown :: "RateLimiter \<Rightarrow> gotime \<Rightarrow> RateLimiter" where
  "CoolDown r until =
     (if time_After until (blockedUntil r) then r\<lparr>blockedUntil := until\<rparr> else r)"

text \<open>The loop of \<open>Allow\<close>: its variables are \<open>kept\<close>, \<open>inMinute\<close> and
  \<open>oldestInMinute\<close>.\<close>

fun allow_loop ::
  "gotime \<Rightarrow> gotime \<Rightarrow> gotime list \<Rightarrow> gotime list \<times> nat \<times> gotime \<Rightarrow> gotime list \<times> nat \<times> gotime" where
  "allow_loop hourCutoff minuteCutoff [] acc = acc"
| "allow_loop hourCutoff minuteCutoff (t # ts) (kept, inMinute, oldest) =
     (if \<not> time_After t hourCutoff
      then allow_loop hourCutoff minuteCutoff ts (kept, inMinute, oldest)
      else if time_After t minuteCutoff
      then allow_loop hourCutoff minuteCutoff ts
             (kept @ [t], inMinute + 1, if inMinute = 0 then t else oldest)
      else allow_loop hourCutoff minuteCutoff ts (kept @ [t], inMinute, oldest))"

definition Allow :: "RateLimiter \<Rightarrow> gotime \<Rightarrow> (bool \<times> duration) \<times> RateLimiter" where
  "Allow r now =
     (if time_Before now (blockedUntil r) then ((False, time_Sub (blockedUntil r) now), r)
      else
        let hourCutoff = time_Add now (- Hour);
            minuteCutoff = time_Add now (- Minute);
            (kept, inMinute, oldestInMinute) = allow_loop hourCutoff minuteCutoff (calls r) ([], 0, 0);
            r1 = r\<lparr>calls := kept\<rparr>
        in if 0 < perHour r \<and> perHour r \<le> int (length kept)
           then ((False, time_Sub (time_Add (kept ! 0) Hour) now), r1)
           else if 0 < perMinute r \<and> perMinute r \<le> int inMinute
           then ((False, time_Sub (time_Add oldestInMinute Minute) now), r1)
           else ((True, 0), r1\<lparr>calls := kept @ [now]\<rparr>))"

section \<open>The one-pass loop against its specification\<close>

definition window :: "gotime list \<Rightarrow> gotime \<Rightarrow> duration \<Rightarrow> gotime list" where
  "window ts now d = filter (\<lambda>t. now - d < t) ts"

definition Allow_spec :: "RateLimiter \<Rightarrow> gotime \<Rightarrow> (bool \<times> duration) \<times> RateLimiter" where
  "Allow_spec r now =
     (let hour = window (calls r) now Hour; minute = window (calls r) now Minute
      in if now < blockedUntil r then ((False, time_Sub (blockedUntil r) now), r)
         else if 0 < perHour r \<and> perHour r \<le> int (length hour)
         then ((False, time_Sub (hd hour + Hour) now), r\<lparr>calls := hour\<rparr>)
         else if 0 < perMinute r \<and> perMinute r \<le> int (length minute)
         then ((False, time_Sub (hd minute + Minute) now), r\<lparr>calls := hour\<rparr>)
         else ((True, 0), r\<lparr>calls := hour @ [now]\<rparr>))"

lemma allow_loop_eq:
  assumes "hc \<le> mc"
  shows "allow_loop hc mc ts (kept, n, old) =
    (kept @ filter (\<lambda>t. hc < t) ts, n + length (filter (\<lambda>t. mc < t) ts),
     if n = 0 \<and> filter (\<lambda>t. mc < t) ts \<noteq> [] then hd (filter (\<lambda>t. mc < t) ts) else old)"
  using assms
proof (induction ts arbitrary: kept n old)
  case Nil
  then show ?case by simp
next
  case (Cons t ts)
  then show ?case by (cases "mc < t"; cases "hc < t") (auto simp: go_defs)
qed

lemma allow_loop_window:
  "allow_loop (now - Hour) (now - Minute) ts ([], 0, 0) =
    (window ts now Hour, length (window ts now Minute),
     if window ts now Minute \<noteq> [] then hd (window ts now Minute) else 0)"
  by (subst allow_loop_eq) (simp_all add: window_def)

lemma Allow_eq_spec: "Allow r now = Allow_spec r now"
proof -
  have hd: "0 < n \<Longrightarrow> n \<le> int (length ts) \<Longrightarrow> ts ! 0 = hd ts \<and> ts \<noteq> []" for n and ts :: "gotime list"
    by (cases ts) auto
  show ?thesis
    using hd [of "perHour r" "window (calls r) now Hour"]
      hd [of "perMinute r" "window (calls r) now Minute"]
    by (simp add: Allow_def Allow_spec_def Let_def allow_loop_window go_defs)
qed

lemma window_mem: "t \<in> set (window ts now d) \<longleftrightarrow> t \<in> set ts \<and> now - d < t"
  by (simp add: window_def)

lemma Allow_admits_iff:
  "fst (fst (Allow r now)) \<longleftrightarrow>
     blockedUntil r \<le> now
     \<and> (0 < perHour r \<longrightarrow> int (length (window (calls r) now Hour)) < perHour r)
     \<and> (0 < perMinute r \<longrightarrow> int (length (window (calls r) now Minute)) < perMinute r)"
  by (auto simp: Allow_eq_spec Allow_spec_def Let_def)

lemma Allow_frame [simp]:
  "perMinute (snd (Allow r now)) = perMinute r" "perHour (snd (Allow r now)) = perHour r"
  "blockedUntil (snd (Allow r now)) = blockedUntil r"
  by (auto simp: Allow_eq_spec Allow_spec_def Let_def)

lemma CoolDown_frame [simp]:
  "perMinute (CoolDown r u) = perMinute r" "perHour (CoolDown r u) = perHour r"
  "calls (CoolDown r u) = calls r" "blockedUntil (CoolDown r u) = max (blockedUntil r) u"
  by (auto simp: CoolDown_def go_defs max_def)

lemma Allow_calls:
  "calls (snd (Allow r now)) =
     (if now < blockedUntil r then calls r
      else if fst (fst (Allow r now)) then window (calls r) now Hour @ [now]
      else window (calls r) now Hour)"
  by (auto simp: Allow_eq_spec Allow_spec_def Let_def)

section \<open>Runs\<close>

text \<open>A run of the limiter as its callers drive it, and the instants it admitted.\<close>

datatype limiter_event = EvAllow gotime | EvCoolDown gotime

fun limiter_run :: "RateLimiter \<Rightarrow> limiter_event list \<Rightarrow> gotime list \<times> RateLimiter" where
  "limiter_run r [] = ([], r)"
| "limiter_run r (EvCoolDown u # es) = limiter_run (CoolDown r u) es"
| "limiter_run r (EvAllow now # es) =
     (let ((ok, _), r') = Allow r now; (admitted, r'') = limiter_run r' es
      in (if ok then now # admitted else admitted, r''))"

fun event_times :: "limiter_event list \<Rightarrow> gotime list" where
  "event_times [] = []"
| "event_times (EvCoolDown u # es) = event_times es"
| "event_times (EvAllow now # es) = now # event_times es"

definition in_window :: "gotime list \<Rightarrow> gotime \<Rightarrow> duration \<Rightarrow> nat" where
  "in_window ts x d = length (filter (\<lambda>t. x - d < t \<and> t \<le> x) ts)"

text \<open>
  \<open>limiter_inv A latest r\<close>: \<open>A\<close> are the instants admitted so far, none after \<open>latest\<close>;
  the limiter still remembers those newer than some cutoff an hour or more before \<open>latest\<close>;
  and every window of \<open>A\<close> is within the budgets.
\<close>

definition limiter_inv :: "gotime list \<Rightarrow> gotime \<Rightarrow> RateLimiter \<Rightarrow> bool" where
  "limiter_inv A latest r \<longleftrightarrow>
     (\<forall>t \<in> set A. t \<le> latest)
     \<and> (\<exists>c. c \<le> latest - Hour \<and> calls r = filter (\<lambda>t. c < t) A)
     \<and> (0 < perHour r \<longrightarrow> (\<forall>x. int (in_window A x Hour) \<le> perHour r))
     \<and> (0 < perMinute r \<longrightarrow> (\<forall>x. int (in_window A x Minute) \<le> perMinute r))"

lemma limiter_inv_New:
  assumes "0 \<le> pm" "0 \<le> ph"
  shows "limiter_inv [] latest (NewRateLimiter pm ph)"
  using assms
  by (auto simp: limiter_inv_def NewRateLimiter_def in_window_def intro: exI [of _ "latest - Hour"])

lemma limiter_inv_later: "limiter_inv A latest r \<Longrightarrow> latest \<le> latest' \<Longrightarrow> limiter_inv A latest' r"
  unfolding limiter_inv_def
  by (elim conjE exE, intro conjI ballI exI) (auto dest: bspec)

lemma limiter_inv_CoolDown: "limiter_inv A latest r \<Longrightarrow> limiter_inv A latest (CoolDown r u)"
  by (simp add: limiter_inv_def)

lemma window_calls:
  assumes "limiter_inv A latest r" "latest \<le> now" "d \<le> Hour"
  shows "window (calls r) now d = window A now d"
proof -
  from assms obtain c where "c \<le> latest - Hour" "calls r = filter (\<lambda>t. c < t) A"
    by (auto simp: limiter_inv_def)
  with assms(2,3) show ?thesis by (auto simp: window_def intro!: filter_cong)
qed

lemma in_window_snoc:
  assumes "\<forall>t \<in> set A. t \<le> now"
    and "\<forall>x. int (in_window A x d) \<le> m" and "int (length (window A now d)) < m"
  shows "int (in_window (A @ [now]) x d) \<le> m"
proof (cases "x < now")
  case True
  then have "in_window (A @ [now]) x d = in_window A x d" by (simp add: in_window_def)
  with assms(2) show ?thesis by simp
next
  case False
  then have "in_window A x d \<le> length (window A now d)"
    unfolding in_window_def window_def by (intro length_filter_mono) auto
  moreover have "in_window (A @ [now]) x d \<le> in_window A x d + 1" by (simp add: in_window_def)
  ultimately show ?thesis using assms(3) by linarith
qed

lemma limiter_inv_Allow:
  assumes inv: "limiter_inv A latest r" and le: "latest \<le> now"
  shows "limiter_inv (if fst (fst (Allow r now)) then A @ [now] else A) now (snd (Allow r now))"
proof (cases "now < blockedUntil r")
  case True
  then have "\<not> fst (fst (Allow r now))" "snd (Allow r now) = r"
    by (simp_all add: Allow_eq_spec Allow_spec_def Let_def)
  with limiter_inv_later [OF inv le] show ?thesis by simp
next
  case False
  have A: "\<forall>t \<in> set A. t \<le> now" using inv le by (auto simp: limiter_inv_def)
  have hour: "window (calls r) now Hour = window A now Hour"
    and minute: "window (calls r) now Minute = window A now Minute"
    using window_calls [OF inv le] by simp_all
  have calls: "\<exists>c. c \<le> now - Hour \<and> calls (snd (Allow r now)) =
      filter (\<lambda>t. c < t) (if fst (fst (Allow r now)) then A @ [now] else A)"
    using False hour
    by (intro exI [of _ "now - Hour"]) (auto simp: Allow_calls window_def)
  show ?thesis
  proof (cases "fst (fst (Allow r now))")
    case True
    from Allow_admits_iff [THEN iffD1, OF True] have room:
      "0 < perHour r \<longrightarrow> int (length (window A now Hour)) < perHour r"
      "0 < perMinute r \<longrightarrow> int (length (window A now Minute)) < perMinute r"
      by (simp_all add: hour minute)
    have "0 < perHour r \<longrightarrow> (\<forall>x. int (in_window (A @ [now]) x Hour) \<le> perHour r)"
      "0 < perMinute r \<longrightarrow> (\<forall>x. int (in_window (A @ [now]) x Minute) \<le> perMinute r)"
      using inv room A by (auto simp: limiter_inv_def intro!: in_window_snoc)
    with A calls True show ?thesis by (simp add: limiter_inv_def)
  next
    case False
    with A calls inv show ?thesis by (simp add: limiter_inv_def)
  qed
qed

lemma limiter_run_frame:
  "perMinute (snd (limiter_run r es)) = perMinute r \<and> perHour (snd (limiter_run r es)) = perHour r"
  by (induction es arbitrary: r rule: event_times.induct) (auto simp: Let_def split: prod.splits
      dest!: arg_cong [where f = snd])

lemma limiter_run_inv:
  assumes "limiter_inv A latest r" "sorted (latest # event_times es)"
  shows "limiter_inv (A @ fst (limiter_run r es)) (last (latest # event_times es))
           (snd (limiter_run r es))"
  using assms
proof (induction es arbitrary: r A latest rule: event_times.induct)
  case 1
  then show ?case by auto
next
  case (2 u es)
  then show ?case using limiter_inv_CoolDown [of A latest r u] by simp
next
  case (3 now es)
  let ?A = "if fst (fst (Allow r now)) then A @ [now] else A"
  from "3.prems" have "limiter_inv ?A now (snd (Allow r now))" "sorted (now # event_times es)"
    by (simp_all add: limiter_inv_Allow)
  from "3.IH" [OF this] show ?case by (auto simp: Let_def split: prod.splits if_splits)
qed

text \<open>While blocked nothing is admitted, and a cooldown is only ever extended.\<close>

lemma limiter_run_blocked:
  "\<forall>t \<in> set (fst (limiter_run r es)). blockedUntil r \<le> t"
proof (induction es arbitrary: r rule: event_times.induct)
  case 1
  then show ?case by simp
next
  case (2 u es)
  then show ?case using "2.IH" [of "CoolDown r u"] by auto
next
  case (3 now es)
  have "fst (fst (Allow r now)) \<Longrightarrow> blockedUntil r \<le> now" by (simp add: Allow_admits_iff)
  with "3.IH" [of "snd (Allow r now)"] show ?case by (auto simp: Let_def split: prod.splits)
qed

text \<open>What a refusal promises.\<close>

lemma window_later_tl:
  assumes "window ts now d \<noteq> []"
  shows "length (window ts (hd (window ts now d) + d) d) < length (window ts now d)"
proof -
  let ?w = "window ts now d"
  let ?h = "hd ?w"
  have h: "?h \<in> set ?w" using assms by simp
  then have "now - d < ?h" by (simp add: window_mem)
  then have "window ts (?h + d) d = filter (\<lambda>t. ?h < t) ?w"
    by (auto simp: window_def intro: filter_cong)
  moreover have "length (filter (\<lambda>t. ?h < t) ?w) < length ?w"
    using h by (intro length_filter_less [of ?h]) auto
  ultimately show ?thesis by simp
qed

lemma Allow_refused_cases:
  assumes "\<not> fst (fst (Allow r now))"
  shows "(now < blockedUntil r \<and> snd (fst (Allow r now)) = time_Sub (blockedUntil r) now)
    \<or> (blockedUntil r \<le> now \<and> 0 < perHour r \<and> perHour r \<le> int (length (window (calls r) now Hour))
        \<and> snd (fst (Allow r now)) = time_Sub (hd (window (calls r) now Hour) + Hour) now)
    \<or> (blockedUntil r \<le> now \<and> 0 < perMinute r
        \<and> perMinute r \<le> int (length (window (calls r) now Minute))
        \<and> snd (fst (Allow r now)) = time_Sub (hd (window (calls r) now Minute) + Minute) now)"
  using assms by (auto simp: Allow_eq_spec Allow_spec_def Let_def split: if_splits)

lemma window_hd_Sub:
  assumes "window ts now d \<noteq> []" "\<forall>t \<in> set ts. t \<le> now" "d \<le> maxInt64" "0 < d"
  shows "0 < time_Sub (hd (window ts now d) + d) now" "time_Sub (hd (window ts now d) + d) now \<le> d"
    "now + time_Sub (hd (window ts now d) + d) now = hd (window ts now d) + d"
proof -
  have "hd (window ts now d) \<in> set (window ts now d)" using assms(1) by simp
  then have "now - d < hd (window ts now d)" "hd (window ts now d) \<le> now"
    using assms(2) by (auto simp: window_mem)
  with assms(3,4) show "0 < time_Sub (hd (window ts now d) + d) now"
    "time_Sub (hd (window ts now d) + d) now \<le> d"
    "now + time_Sub (hd (window ts now d) + d) now = hd (window ts now d) + d"
    by (auto simp: time_Sub_def minInt64_def maxInt64_def max_def min_def)
qed

lemma limiter_full_clears:
  assumes inv: "limiter_inv A now r"
    and d: "0 < d" "d \<le> Hour"
    and m: "0 < m" "\<forall>x. int (in_window A x d) \<le> m" "m \<le> int (length (window (calls r) now d))"
    and wait: "wait = time_Sub (hd (window (calls r) now d) + d) now"
  shows "0 < wait \<and> wait \<le> d \<and> int (length (window (calls r) (now + wait) d)) < m"
proof -
  let ?w = "window (calls r) now d"
  have ne: "?w \<noteq> []" using m by auto
  have A: "\<forall>t \<in> set A. t \<le> now" and calls: "\<forall>t \<in> set (calls r). t \<le> now"
    using inv by (auto simp: limiter_inv_def)
  have "d \<le> maxInt64" using d Hour_small by linarith
  note sub = window_hd_Sub [OF ne calls this d(1)]
  have "in_window A now d = length (window A now d)"
    using A unfolding in_window_def window_def by (metis (mono_tags, lifting) filter_cong)
  with window_calls [OF inv order_refl d(2)] m(2) have "int (length ?w) \<le> m" by metis
  with window_later_tl [OF ne] sub wait show ?thesis by simp
qed

lemma limiter_run_from_New:
  assumes "0 \<le> pm" "0 \<le> ph" "sorted (event_times es @ [now])"
  shows "\<exists>A. limiter_inv A now (snd (limiter_run (NewRateLimiter pm ph) es))"
proof -
  obtain t0 where t0: "sorted (t0 # event_times es @ [now])"
    using assms(3) by (cases "event_times es") auto
  then have "sorted (t0 # event_times es)" by (auto simp: sorted_append)
  from limiter_run_inv [OF limiter_inv_New [OF assms(1,2)] this]
  have "limiter_inv (fst (limiter_run (NewRateLimiter pm ph) es)) (last (t0 # event_times es))
    (snd (limiter_run (NewRateLimiter pm ph) es))" by simp
  moreover have "last (t0 # event_times es) \<le> now"
    using t0 last_in_set [of "t0 # event_times es"] by (auto simp: sorted_append)
  ultimately show ?thesis using limiter_inv_later by blast
qed

section \<open>Properties\<close>

text \<open>C21. The single pass of \<open>Allow\<close> over the call history (prune, count, remember the oldest
  call of the last minute) computes exactly its declarative specification: refuse while
  cooling down, then by the hour window, then by the minute window, else admit and record.\<close>

theorem Allow_is_sliding_window: "Allow r now = Allow_spec r now"
  by (rule Allow_eq_spec)

text \<open>C20. Under a clock that does not run backwards, whatever the interleaving of \<open>Allow\<close> and
  \<open>CoolDown\<close>, no window of one hour holds more than \<open>perHour\<close> admitted calls and no
  window of one minute more than \<open>perMinute\<close>, wherever the window is placed.\<close>

theorem limiter_run_within_budget:
  assumes "0 \<le> pm" "0 \<le> ph" "sorted (event_times es)"
    and "admitted = fst (limiter_run (NewRateLimiter pm ph) es)"
  shows "(0 < ph \<longrightarrow> int (in_window admitted x Hour) \<le> ph)
    \<and> (0 < pm \<longrightarrow> int (in_window admitted x Minute) \<le> pm)"
proof -
  let ?r = "NewRateLimiter pm ph"
  obtain t0 where "sorted (t0 # event_times es)"
    using assms(3) by (cases "event_times es") auto
  from limiter_run_inv [OF limiter_inv_New [OF assms(1,2)] this]
  have "limiter_inv admitted (last (t0 # event_times es)) (snd (limiter_run ?r es))"
    using assms(4) by simp
  then show ?thesis
    using limiter_run_frame [of ?r es] by (simp add: limiter_inv_def NewRateLimiter_def)
qed

theorem limiter_run_within_budget_witness:
  "in_window [0, 70000000000] 70000000000 Hour \<le> 2
   \<and> fst (limiter_run (NewRateLimiter 1 2) [EvAllow 0, EvAllow 1, EvAllow 70000000000, EvAllow 140000000000])
     = [0, 70000000000]"
proof -
  let ?es = "[EvAllow 0, EvAllow 1, EvAllow 70000000000, EvAllow 140000000000]"
  have run: "fst (limiter_run (NewRateLimiter 1 2) ?es) = [0, 70000000000]"
    by (simp add: NewRateLimiter_def Allow_eq_spec Allow_spec_def window_def Hour_def Minute_def
        Second_def Let_def)
  have "sorted (event_times ?es)" by simp
  from limiter_run_within_budget [OF _ _ this run [symmetric], of 70000000000] run show ?thesis
    by simp
qed

text \<open>C30. A refusal names a positive wait. If a cooldown is active it is the rest of the cooldown;
  otherwise it is at most the length of the window that is full, and once it has passed that
  window has room again (no further call having been recorded).\<close>

theorem Allow_refusal_wait:
  assumes "0 \<le> pm" "0 \<le> ph" "sorted (event_times es @ [now])"
    and "r = snd (limiter_run (NewRateLimiter pm ph) es)"
    and "Allow r now = ((False, wait), r')"
  shows "0 < wait \<and>
    (if now < blockedUntil r then wait = time_Sub (blockedUntil r) now
     else if 0 < ph \<and> ph \<le> int (length (window (calls r) now Hour))
     then wait \<le> Hour \<and> int (length (window (calls r) (now + wait) Hour)) < ph
     else wait \<le> Minute \<and> int (length (window (calls r) (now + wait) Minute)) < pm)"
proof -
  from limiter_run_from_New [OF assms(1-3)] obtain A where inv: "limiter_inv A now r"
    using assms(4) by auto
  have limits: "perHour r = ph" "perMinute r = pm"
    using limiter_run_frame [of "NewRateLimiter pm ph" es] assms(4)
    by (simp_all add: NewRateLimiter_def)
  from inv limits have budget: "0 < ph \<longrightarrow> (\<forall>x. int (in_window A x Hour) \<le> ph)"
    "0 < pm \<longrightarrow> (\<forall>x. int (in_window A x Minute) \<le> pm)" by (simp_all add: limiter_inv_def)
  have refused: "\<not> fst (fst (Allow r now))" "snd (fst (Allow r now)) = wait" using assms(5) by simp_all
  show ?thesis
  proof (cases "now < blockedUntil r")
    case True
    with refused show ?thesis
      using Allow_refused_cases [of r now] by (auto simp: time_Sub_pos_iff)
  next
    case False
    show ?thesis
    proof (cases "0 < ph \<and> ph \<le> int (length (window (calls r) now Hour))")
      case hour: True
      with False assms(5) limits have "wait = time_Sub (hd (window (calls r) now Hour) + Hour) now"
        by (simp add: Allow_eq_spec Allow_spec_def Let_def)
      from limiter_full_clears [OF inv _ _ _ _ _ this, of ph] hour budget False show ?thesis by simp
    next
      case minute: False
      with False assms(5) limits have "wait = time_Sub (hd (window (calls r) now Minute) + Minute) now"
        "0 < pm" "pm \<le> int (length (window (calls r) now Minute))"
        by (auto simp: Allow_eq_spec Allow_spec_def Let_def split: if_splits)
      from limiter_full_clears [OF inv _ _ _ _ this(3,1)] this(2) minute budget False show ?thesis
        by auto
    qed
  qed
qed

theorem Allow_refusal_wait_witness:
  "Allow (snd (limiter_run (NewRateLimiter 1 0) [EvAllow 5])) 7
     = ((False, 59999999998), snd (limiter_run (NewRateLimiter 1 0) [EvAllow 5]))
   \<and> (0::int) < 59999999998"
proof -
  let ?r = "snd (limiter_run (NewRateLimiter 1 0) [EvAllow 5])"
  have run: "Allow ?r 7 = ((False, 59999999998), ?r)"
    by (simp add: NewRateLimiter_def Allow_eq_spec Allow_spec_def window_def Hour_def Minute_def
        Second_def Let_def time_Sub_def minInt64_def maxInt64_def)
  have "sorted (event_times [EvAllow 5] @ [7])" by simp
  from Allow_refusal_wait [OF _ _ this refl run] run show ?thesis by simp
qed

end
