(* ===== verification/Clock.thy ===== *)
theory Clock
  imports Prelude
begin

text \<open>
  The \<open>Clock\<close> port (\<open>internal/usecase/quotes/clock.go\<close>) and its two
  implementations in \<open>pkg/clock\<close>. A clock is a state and a reading function, so that
  code that reads the clock several times can see it move in between.
\<close>

record 'c Clock_ops =
  Now :: "'c \<Rightarrow> gotime \<times> 'c"

section \<open>The test clock\<close>

record FakeClock =
  currentTime :: gotime

definition NewFakeClock :: "gotime \<Rightarrow> FakeClock" where
  "NewFakeClock t = \<lparr>currentTime = t\<rparr>"

definition FakeClock_Now :: "FakeClock \<Rightarrow> gotime \<times> FakeClock" where
  "FakeClock_Now c = (currentTime c, c)"

definition FakeClock_Set :: "gotime \<Rightarrow> FakeClock \<Rightarrow> FakeClock" where
  "FakeClock_Set t c = c\<lparr>currentTime := t\<rparr>"

definition FakeClock_Advance :: "duration \<Rightarrow> FakeClock \<Rightarrow> FakeClock" where
  "FakeClock_Advance d c = c\<lparr>currentTime := time_Add (currentTime c) d\<rparr>"

definition fake_clock :: "FakeClock Clock_ops" where
  "fake_clock = \<lparr>Now = FakeClock_Now\<rparr>"

section \<open>The system clock\<close>

text \<open>
  \<open>time.Now()\<close> carries a monotonic reading, so consecutive readings do not decrease. The
  state is the time of the last reading and how much passes before each of the next ones; once
  the list is used up the clock stands still.
\<close>

record SystemClock =
  wall :: gotime
  elapses :: "nat list"

definition NewSystemClock :: "gotime \<Rightarrow> nat list \<Rightarrow> SystemClock" where
  "NewSystemClock t ds = \<lparr>wall = t, elapses = ds\<rparr>"

definition SystemClock_Now :: "SystemClock \<Rightarrow> gotime \<times> SystemClock" where
  "SystemClock_Now c =
     (case elapses c of
        [] \<Rightarrow> (wall c, c)
      | d # ds \<Rightarrow> (wall c + int d, \<lparr>wall = wall c + int d, elapses = ds\<rparr>))"

definition system_clock :: "SystemClock Clock_ops" where
  "system_clock = \<lparr>Now = SystemClock_Now\<rparr>"

section \<open>The contract\<close>

fun readings :: "'c Clock_ops \<Rightarrow> nat \<Rightarrow> 'c \<Rightarrow> gotime list \<times> 'c" where
  "readings C 0 c = ([], c)"
| "readings C (Suc n) c =
     (let (t, c') = Now C c; (ts, c'') = readings C n c' in (t # ts, c''))"

text \<open>\<open>at_least c t\<close>: no reading of the clock in state \<open>c\<close> will be before \<open>t\<close>.\<close>

locale monotonic_clock =
  fixes C :: "'c Clock_ops" and at_least :: "'c \<Rightarrow> gotime \<Rightarrow> bool"
  assumes now_after: "at_least c t \<Longrightarrow> Now C c = (u, c') \<Longrightarrow> t \<le> u \<and> at_least c' u"
begin

lemma readings_sorted: "at_least c t \<Longrightarrow> sorted (t # fst (readings C n c))"
proof (induction n arbitrary: c t)
  case 0
  then show ?case by simp
next
  case (Suc n)
  obtain u c' where u: "Now C c = (u, c')" by fastforce
  with Suc.prems now_after have "t \<le> u" "at_least c' u" by blast+
  moreover from Suc.IH [OF this(2)] have "sorted (u # fst (readings C n c'))" .
  ultimately have "sorted (t # u # fst (readings C n c'))" by (simp only: sorted2)
  with u show ?case by (cases "readings C n c'") simp
qed

end

interpretation fake_clk: monotonic_clock fake_clock "\<lambda>c t. t \<le> currentTime c"
  by unfold_locales (auto simp: fake_clock_def FakeClock_Now_def)

interpretation sys_clk: monotonic_clock system_clock "\<lambda>c t. t \<le> wall c"
  by unfold_locales (auto simp: system_clock_def SystemClock_Now_def split: list.splits)

end
