(* ===== verification/Float64.thy ===== *)
theory Float64
  imports Prelude
begin

text \<open>
  The little floating point the program does: products and sums of a few \<open>float64\<close> values
  around 1. A finite value is a dyadic rational \<open>m / 2 ^ e\<close>; an operation computes the
  exact result and rounds it to 53 significant bits, ties to even. Rounding does not depend
  on the scale (no value the program forms is near the subnormal or the overflow range), so it
  is a function on the numerator.
\<close>

text \<open>A \<open>float64\<close> value: numerator and exponent of the denominator.\<close>

type_synonym float64 = "int \<times> nat"

fun bit_length :: "nat \<Rightarrow> nat" where
  "bit_length n = (if n = 0 then 0 else Suc (bit_length (n div 2)))"

declare bit_length.simps [simp del]

definition round53 :: "nat \<Rightarrow> nat" where
  "round53 m =
     (if m < 2 ^ 53 then m
      else
        let s = bit_length m - 53; q = m div 2 ^ s; r = m mod 2 ^ s; half = 2 ^ (s - 1)
        in (if half < r \<or> (r = half \<and> odd q) then q + 1 else q) * 2 ^ s)"

text \<open>The numbers that rounding leaves alone.\<close>

definition representable :: "nat \<Rightarrow> bool" where
  "representable a \<longleftrightarrow> (\<exists>x e. x < 2 ^ 53 \<and> a = x * 2 ^ e)"

lemma bit_length_bounds: "0 < n \<Longrightarrow> 2 ^ (bit_length n - 1) \<le> n \<and> n < 2 ^ bit_length n \<and> 0 < bit_length n"
proof (induction n rule: bit_length.induct)
  case (1 n)
  show ?case
  proof (cases "n div 2 = 0")
    case True
    then have "n = 1" using 1 by linarith
    then show ?thesis by (simp add: bit_length.simps)
  next
    case False
    with 1 have IH: "2 ^ (bit_length (n div 2) - 1) \<le> n div 2" "n div 2 < 2 ^ bit_length (n div 2)"
      "0 < bit_length (n div 2)" by simp_all
    then obtain b where "bit_length (n div 2) = Suc b" by (cases "bit_length (n div 2)") auto
    with IH 1(2) show ?thesis by (subst (1 2 3) bit_length.simps) auto
  qed
qed

lemma round53_small [simp]: "m < 2 ^ 53 \<Longrightarrow> round53 m = m"
  by (simp add: round53_def)

text \<open>Above \<open>2 ^ 53\<close> the result is one of the two multiples of \<open>2 ^ s\<close> around \<open>m\<close>.\<close>

lemma round53_large:
  assumes "2 ^ 53 \<le> m"
  obtains s q r where "m = q * 2 ^ s + r" "r < 2 ^ s" "2 ^ 52 \<le> q" "q < 2 ^ 53"
    "round53 m = q * 2 ^ s \<or> (r \<noteq> 0 \<and> round53 m = (q + 1) * 2 ^ s)"
proof -
  let ?b = "bit_length m" and ?s = "bit_length m - 53"
  have b: "2 ^ (?b - 1) \<le> m" "m < 2 ^ ?b" "0 < ?b"
    using bit_length_bounds [of m] assms by auto
  have "53 < ?b"
  proof (rule ccontr)
    assume "\<not> 53 < ?b"
    then have "(2::nat) ^ ?b \<le> 2 ^ 53" by (intro power_increasing) auto
    with b assms show False by linarith
  qed
  then have split: "?b = 53 + ?s" "?b - 1 = 52 + ?s" "0 < ?s" by simp_all
  have lower: "2 ^ 52 * 2 ^ ?s \<le> m" using b(1) split(2) by (metis power_add)
  have upper: "m < 2 ^ 53 * 2 ^ ?s" using b(2) split(1) by (metis power_add)
  have half: "(0::nat) < 2 ^ (?s - 1)" by simp
  show ?thesis
  proof (rule that [of "m div 2 ^ ?s" ?s "m mod 2 ^ ?s"])
    show "m = m div 2 ^ ?s * 2 ^ ?s + m mod 2 ^ ?s" by (rule div_mult_mod_eq [symmetric])
    show "m mod 2 ^ ?s < 2 ^ ?s" by simp
    show "2 ^ 52 \<le> m div 2 ^ ?s" using lower by (simp add: less_eq_div_iff_mult_less_eq)
    show "m div 2 ^ ?s < 2 ^ 53" using upper by (simp add: div_less_iff_less_mult)
    show "round53 m = m div 2 ^ ?s * 2 ^ ?s
        \<or> m mod 2 ^ ?s \<noteq> 0 \<and> round53 m = (m div 2 ^ ?s + 1) * 2 ^ ?s"
      using assms half by (simp add: round53_def Let_def)
  qed
qed

lemma multiple_gap: "q * k < x * k \<Longrightarrow> (q + 1) * k \<le> x * (k::nat)"
  by (metis Suc_eq_plus1 Suc_leI mult_le_mono1 mult_less_cancel2)

lemma round53_ge:
  assumes "representable a" "a \<le> m"
  shows "a \<le> round53 m"
proof (cases "m < 2 ^ 53")
  case True
  with assms show ?thesis by simp
next
  case False
  then obtain s q r where *: "m = q * 2 ^ s + r" "r < 2 ^ s" "2 ^ 52 \<le> q" "q < 2 ^ 53"
    and res: "round53 m = q * 2 ^ s \<or> (r \<noteq> 0 \<and> round53 m = (q + 1) * 2 ^ s)"
    by (metis round53_large not_less)
  obtain x e where a: "x < 2 ^ 53" "a = x * 2 ^ e" using assms(1) by (auto simp: representable_def)
  have "a \<le> q * 2 ^ s"
  proof (cases "s \<le> e")
    case True
    then have a': "a = (x * 2 ^ (e - s)) * 2 ^ s" using a(2) by (simp flip: power_add)
    show ?thesis
    proof (rule ccontr)
      assume "\<not> ?thesis"
      then have "(q + 1) * 2 ^ s \<le> a" unfolding a' by (intro multiple_gap) simp
      with * assms(2) show False by simp
    qed
  next
    case False
    then obtain d where "s = Suc (e + d)" using less_imp_Suc_add by (metis not_le)
    moreover have "x * 2 ^ e \<le> 2 ^ 53 * (2 ^ e * 2 ^ d)"
      using a(1) by (intro mult_le_mono) auto
    ultimately have "a \<le> 2 ^ 52 * 2 ^ s" using a(2) by (simp add: power_add algebra_simps)
    also have "\<dots> \<le> q * 2 ^ s" using *(3) by (rule mult_le_mono1)
    finally show ?thesis .
  qed
  with res show ?thesis by auto
qed

lemma round53_le:
  assumes "representable a" "m \<le> a"
  shows "round53 m \<le> a"
proof (cases "m < 2 ^ 53")
  case True
  with assms show ?thesis by simp
next
  case False
  then obtain s q r where *: "m = q * 2 ^ s + r" "r < 2 ^ s" "2 ^ 52 \<le> q" "q < 2 ^ 53"
    and res: "round53 m = q * 2 ^ s \<or> (r \<noteq> 0 \<and> round53 m = (q + 1) * 2 ^ s)"
    by (metis round53_large not_less)
  obtain x e where a: "x < 2 ^ 53" "a = x * 2 ^ e" using assms(1) by (auto simp: representable_def)
  have "s \<le> e"
  proof (rule ccontr)
    assume "\<not> s \<le> e"
    then obtain d where s: "s = Suc (e + d)" using less_imp_Suc_add by (metis not_le)
    have "x * 2 ^ e < 2 ^ 53 * 2 ^ e" using a(1) by simp
    also have "\<dots> \<le> 2 ^ 52 * 2 ^ s" by (simp add: s power_add)
    also have "\<dots> \<le> q * 2 ^ s" using *(3) by (rule mult_le_mono1)
    finally show False using a(2) *(1) assms(2) by simp
  qed
  then have a': "a = (x * 2 ^ (e - s)) * 2 ^ s" using a(2) by (simp flip: power_add)
  from res show ?thesis
  proof
    assume "round53 m = q * 2 ^ s"
    with * assms(2) show ?thesis by simp
  next
    assume r: "r \<noteq> 0 \<and> round53 m = (q + 1) * 2 ^ s"
    with * assms(2) have "q * 2 ^ s < (x * 2 ^ (e - s)) * 2 ^ s" unfolding a' by linarith
    from multiple_gap [OF this] r show ?thesis unfolding a' by simp
  qed
qed

lemma representableI: "x < 2 ^ 53 \<Longrightarrow> representable (x * 2 ^ e)"
  by (auto simp: representable_def)

end
