(* ===== verification/Backoff.thy ===== *)
theory Backoff
  imports Float64 Domain
begin

text \<open>
  The retry delay of \<open>Worker.backoff\<close> (\<open>internal/usecase/quotes/worker.go\<close>):
  the exponential growth in \<open>int64\<close> arithmetic with its overflow test, the upstream's
  \<open>Retry-After\<close>, and the jitter in \<open>float64\<close> arithmetic.
\<close>

section \<open>Definitions\<close>

text \<open>\<open>1 << n\<close> at type \<open>time.Duration\<close>.\<close>

definition shl64 :: "nat \<Rightarrow> int" where
  "shl64 n = (if 64 \<le> n then 0 else wrap64 (2 ^ n))"

definition backoff_shift :: "int \<Rightarrow> nat" where
  "backoff_shift attempts = nat (max (attempts - 1) 0)"

definition backoff_delay :: "duration \<Rightarrow> duration \<Rightarrow> duration \<Rightarrow> int \<Rightarrow> duration" where
  "backoff_delay baseB maxB retryAfter attempts =
     (let delay0 = wrap64 (baseB * shl64 (backoff_shift attempts));
          delay1 = (if delay0 \<le> 0 \<or> maxB < delay0 then maxB else delay0)
      in if delay1 < retryAfter then retryAfter else delay1)"

text \<open>
  \<open>0.75 + rand.Float64()*0.5\<close> for the draw \<open>k / 2 ^ 53\<close>, as a numerator over \<open>2 ^ 54\<close>
  (the product is exact), and \<open>time.Duration(float64(delay) * jitter)\<close>, which truncates.
  A product outside \<open>int64\<close> converts to an implementation-specific value, \<open>cvt\<close>.
\<close>

definition jitter :: "nat \<Rightarrow> nat" where
  "jitter k = round53 (3 * 2 ^ 52 + k)"

definition jittered :: "duration \<Rightarrow> duration \<Rightarrow> nat \<Rightarrow> duration" where
  "jittered cvt delay k =
     (let v = sgn delay * int (round53 (round53 (nat \<bar>delay\<bar>) * jitter k) div 2 ^ 54)
      in if minInt64 \<le> v \<and> v \<le> maxInt64 then v else cvt)"

section \<open>Lemmas\<close>

lemma wrap64_add: "wrap64 (x + k * 2 ^ 64) = wrap64 x"
proof -
  have "(x + k * 2 ^ 64 + 2 ^ 63) mod 2 ^ 64 = (x + 2 ^ 63 + k * 2 ^ 64) mod 2 ^ 64"
    by (simp add: algebra_simps)
  then show ?thesis by (simp add: wrap64_def)
qed

lemma wrap64_mult: "wrap64 (x * wrap64 y) = wrap64 (x * y)"
proof -
  obtain k where "wrap64 y = y + k * 2 ^ 64" using wrap64_cong by blast
  then have "x * wrap64 y = x * y + (x * k) * 2 ^ 64" by (simp add: algebra_simps)
  then show ?thesis by (simp only: wrap64_add)
qed

lemma shl64_pow: "n < 64 \<Longrightarrow> wrap64 (b * shl64 n) = wrap64 (b * 2 ^ n)"
  by (simp add: shl64_def wrap64_mult)

text \<open>
  The test \<open>delay <= 0\<close> catches every overflow when the base is \<open>b * 2 ^ v\<close> and the odd part is
  small enough: the product is then a multiple of a power of two too large for a positive
  remainder below \<open>maxB\<close>.
\<close>

lemma wrap64_multiple:
  assumes "0 < wrap64 (b * 2 ^ e)" "e < 64"
  shows "2 ^ e \<le> wrap64 (b * 2 ^ e)"
proof -
  obtain k where k: "wrap64 (b * 2 ^ e) = b * 2 ^ e + k * 2 ^ 64" using wrap64_cong by blast
  obtain d where d: "64 = e + d" using assms(2) by (metis less_imp_add_positive)
  have "wrap64 (b * 2 ^ e) = (b + k * 2 ^ d) * 2 ^ e"
    unfolding k d by (simp add: power_add algebra_simps)
  moreover from this assms(1) have "0 < b + k * 2 ^ d" by (simp add: zero_less_mult_iff)
  then have "1 * 2 ^ e \<le> (b + k * 2 ^ d) * 2 ^ e" by (intro mult_right_mono) simp_all
  ultimately show ?thesis by simp
qed

text \<open>The delay the code means: \<open>baseB\<close> doubled per attempt, capped, then raised.\<close>

definition ideal_delay :: "duration \<Rightarrow> duration \<Rightarrow> duration \<Rightarrow> int \<Rightarrow> duration" where
  "ideal_delay baseB maxB retryAfter attempts =
     max (min (baseB * 2 ^ backoff_shift attempts) maxB) retryAfter"

lemma cap_min: "0 < (x::int) \<Longrightarrow> (if x \<le> 0 \<or> m < x then m else x) = min x m"
  by auto

lemma backoff_delay_ideal:
  assumes "0 < b" "0 < maxB" "maxB \<le> maxInt64" "b * maxB < 2 ^ 63"
  shows "backoff_delay (b * 2 ^ v) maxB ra attempts = ideal_delay (b * 2 ^ v) maxB ra attempts"
proof -
  let ?n = "backoff_shift attempts"
  let ?d = "wrap64 (b * 2 ^ v * shl64 ?n)"
  have capped: "(if ?d \<le> 0 \<or> maxB < ?d then maxB else ?d) = min (b * 2 ^ v * 2 ^ ?n) maxB"
  proof (cases "b * 2 ^ (v + ?n) \<le> maxInt64")
    case True
    have "1 * 2 ^ ?n \<le> b * (2::int) ^ (v + ?n)"
      using assms(1) by (intro mult_mono power_increasing) simp_all
    then have "(2::int) ^ ?n < 2 ^ 63" using True by (simp add: maxInt64_def)
    then have n: "?n < 63" by (metis power_less_imp_less_exp one_less_numeral_iff semiring_norm(76))
    have pos: "0 < b * 2 ^ (v + ?n)" using assms(1) by simp
    have eq: "b * 2 ^ v * 2 ^ ?n = b * 2 ^ (v + ?n)" by (simp add: power_add)
    have "?d = wrap64 (b * 2 ^ v * 2 ^ ?n)" using n by (intro shl64_pow) simp
    also have "\<dots> = b * 2 ^ v * 2 ^ ?n"
      unfolding eq using True pos by (intro wrap64_id) (simp_all add: minInt64_def)
    finally have "?d = b * 2 ^ v * 2 ^ ?n" .
    moreover from pos have "0 < b * 2 ^ v * 2 ^ ?n" unfolding eq .
    ultimately show ?thesis by (simp only: cap_min)
  next
    case False
    then have big: "2 ^ 63 \<le> b * 2 ^ (v + ?n)" by (simp add: maxInt64_def)
    have "maxB < 2 ^ (v + ?n)"
    proof (rule ccontr)
      assume "\<not> ?thesis"
      then have "b * 2 ^ (v + ?n) \<le> b * maxB" using assms(1) by simp
      with big assms(4) show False by simp
    qed
    have "?d \<le> 0 \<or> maxB < ?d"
    proof (cases "?n < 64 \<and> v + ?n < 64")
      case True
      then have "?d = wrap64 (b * 2 ^ v * 2 ^ ?n)" by (intro shl64_pow) simp
      then have "?d = wrap64 (b * 2 ^ (v + ?n))" by (simp add: power_add mult.assoc)
      with wrap64_multiple [of b "v + ?n"] True \<open>maxB < 2 ^ (v + ?n)\<close> show ?thesis by fastforce
    next
      case False
      have "?d = 0"
      proof (cases "?n < 64")
        case True
        with False obtain d where d: "v + ?n = d + 64" by (metis le_add_diff_inverse2 not_less)
        have "b * 2 ^ v * 2 ^ ?n = b * 2 ^ (v + ?n)" by (simp add: power_add)
        also have "\<dots> = 0 + (b * 2 ^ d) * 2 ^ 64" unfolding d by (simp add: power_add)
        finally have "wrap64 (b * 2 ^ v * 2 ^ ?n) = wrap64 0" by (simp only: wrap64_add)
        with True show ?thesis by (simp only: shl64_pow) (simp add: wrap64_def)
      qed (simp add: shl64_def wrap64_def)
      then show ?thesis by simp
    qed
    moreover have "maxB < b * 2 ^ v * 2 ^ ?n" using big assms(3) by (simp add: maxInt64_def power_add mult.assoc)
    ultimately show ?thesis by (simp add: min_def)
  qed
  show ?thesis
    unfolding backoff_delay_def Let_def capped ideal_delay_def by (simp add: max_def)
qed

lemma jitter_bounds:
  assumes "k < 2 ^ 53"
  shows "3 * 2 ^ 52 \<le> jitter k" "jitter k \<le> 5 * 2 ^ 52"
proof -
  have r: "representable (3 * 2 ^ 52)" "representable (5 * 2 ^ 52)" by (rule representableI, simp)+
  show "3 * 2 ^ 52 \<le> jitter k" unfolding jitter_def by (rule round53_ge [OF r(1)]) simp
  show "jitter k \<le> 5 * 2 ^ 52" unfolding jitter_def using assms by (intro round53_le [OF r(2)]) simp
qed

lemma jittered_bounds:
  assumes "0 < delay" "delay < 2 ^ 50" "k < 2 ^ 53"
  shows "3 * delay div 4 \<le> jittered cvt delay k" "jittered cvt delay k \<le> 5 * delay div 4"
proof -
  define D where "D = nat delay"
  have D: "D < 2 ^ 50" "int D = delay" "nat \<bar>delay\<bar> = D" using assms(1,2) by (simp_all add: D_def)
  let ?p = "round53 (D * jitter k)"
  have "representable (3 * D * 2 ^ 52)" "representable (5 * D * 2 ^ 52)"
    by (rule representableI, use D(1) in simp)+
  then have p: "3 * D * 2 ^ 52 \<le> ?p" "?p \<le> 5 * D * 2 ^ 52"
    using jitter_bounds [OF assms(3)] by (auto intro!: round53_ge round53_le simp: algebra_simps)
  have "3 * D * 2 ^ 52 div 2 ^ 54 \<le> ?p div 2 ^ 54" "?p div 2 ^ 54 \<le> 5 * D * 2 ^ 52 div 2 ^ 54"
    by (rule div_le_mono [OF p(1)], rule div_le_mono [OF p(2)])
  moreover have "x * 2 ^ 52 div 2 ^ 54 = x div (4::nat)" for x
    using div_mult_mult2 [of "2 ^ 52" x 4] by simp
  ultimately have q: "3 * D div 4 \<le> ?p div 2 ^ 54" "?p div 2 ^ 54 \<le> 5 * D div 4"
    by simp_all
  have v: "jittered cvt delay k = int (?p div 2 ^ 54)"
  proof -
    have "?p div 2 ^ 54 < 2 ^ 63" using q(2) D(1) by simp
    then have "int (?p div 2 ^ 54) \<le> maxInt64" by (simp add: maxInt64_def)
    moreover have "round53 D = D" using D(1) by simp
    ultimately show ?thesis using assms(1) D(3) by (simp add: jittered_def minInt64_def)
  qed
  have "int (3 * D div 4) = 3 * delay div 4" "int (5 * D div 4) = 5 * delay div 4"
    using D(2) by (simp_all add: zdiv_int)
  with q show "3 * delay div 4 \<le> jittered cvt delay k" "jittered cvt delay k \<le> 5 * delay div 4"
    unfolding v by (simp_all only: of_nat_le_iff flip: of_nat_le_iff)
qed

end
