(* ===== verification/Worker.thy ===== *)
theory Worker
  imports Repository RateProvider RateLimiter Clock Backoff
begin

text \<open>
  \<open>internal/usecase/quotes/worker.go\<close>: resolving one claimed update request. The worker
  reads and writes shared state (storage, provider, clock, limiter, random source), which is
  passed explicitly as a \<open>world\<close>; its interfaces are records of functions. Inside the locale
  \<open>worker\<close> the contracts of storage and provider give what \<open>Process\<close> does to the store.
\<close>

section \<open>State\<close>

record ('r, 'p, 'c) world =
  w_repo :: 'r
  w_prov :: 'p
  w_clock :: 'c
  w_limiter :: RateLimiter
  w_rand :: "nat \<Rightarrow> nat"
  w_turn :: nat

text \<open>
  The fields of \<open>Worker\<close>. \<open>wk_Sign\<close> is \<open>decimal.Sign\<close>, \<open>wk_fmt\<close> what the
  libraries print, \<open>wk_cvt\<close> the platform's result of an out-of-range float conversion.
\<close>

record ('r, 'p, 'c, 'd) Worker =
  wk_repo :: "('r, 'd) Repository_ops"
  wk_provider :: "('p, 'd) RateProvider_ops"
  wk_clock :: "'c Clock_ops"
  baseBackoff :: duration
  maxBackoff :: duration
  maxAttempts :: int
  maxLifetime :: duration
  wk_Sign :: "'d \<Rightarrow> int"
  wk_fmt :: fmt
  wk_cvt :: duration

definition AttemptsExhaustedCode :: string where
  "AttemptsExhaustedCode = ''attempts_exhausted''"

definition read_clock ::
  "('r, 'p, 'c, 'd) Worker \<Rightarrow> ('r, 'p, 'c) world \<Rightarrow> gotime \<times> ('r, 'p, 'c) world" where
  "read_clock W w = (let (t, c) = Now (wk_clock W) (w_clock w) in (t, w\<lparr>w_clock := c\<rparr>))"

definition draw_rand :: "('r, 'p, 'c) world \<Rightarrow> nat \<times> ('r, 'p, 'c) world" where
  "draw_rand w = (w_rand w (w_turn w) mod 2 ^ 53, w\<lparr>w_turn := w_turn w + 1\<rparr>)"

definition NewWorker ::
  "('r, 'd) Repository_ops \<Rightarrow> ('p, 'd) RateProvider_ops \<Rightarrow> 'c Clock_ops \<Rightarrow> duration \<Rightarrow> duration
     \<Rightarrow> int \<Rightarrow> duration \<Rightarrow> ('d \<Rightarrow> int) \<Rightarrow> fmt \<Rightarrow> duration \<Rightarrow> ('r, 'p, 'c, 'd) Worker" where
  "NewWorker repo provider clock baseB maxB attempts lifetime Sign F cvt =
     \<lparr>wk_repo = repo, wk_provider = provider, wk_clock = clock, baseBackoff = baseB,
      maxBackoff = maxB, maxAttempts = attempts, maxLifetime = lifetime, wk_Sign = Sign,
      wk_fmt = F, wk_cvt = cvt\<rparr>"

section \<open>Operations\<close>

text \<open>The second half of \<open>fetch\<close>: no fresh quote is known, so ask the provider.\<close>

text \<open>The rate and its quote identifier, 0 while it is fetched and not in the journal yet.\<close>

type_synonym 'd resolvedQuote = "'d CurrencyRate \<times> int"

definition fetch_fresh ::
  "('r, 'p, 'c, 'd) Worker \<Rightarrow> ('r, 'p, 'c) world \<Rightarrow> CurrencyPair
     \<Rightarrow> 'd resolvedQuote go \<times> ('r, 'p, 'c) world" where
  "fetch_fresh W w pair =
     (let (t, w1) = read_clock W w;
          ((ok, retryAfter), l) = Allow (w_limiter w1) t;
          w2 = w1\<lparr>w_limiter := l\<rparr>
      in if \<not> ok
         then (failRate RateLimitedError ''outbound rate budget exhausted'' True retryAfter [], w2)
         else
           let (res, p) = rp_GetCurrencyRate (wk_provider W) (w_prov w2) pair;
               w3 = w2\<lparr>w_prov := p\<rparr>
           in case res of
                Panic \<Rightarrow> (Panic, w3)
              | Err e \<Rightarrow>
                  (case errors_As_rate e of
                     Some r \<Rightarrow>
                       if 0 < err_retryAfter r
                       then let (t', w4) = read_clock W w3
                            in (Err e, w4\<lparr>w_limiter := CoolDown (w_limiter w4)
                                                          (time_Add t' (err_retryAfter r))\<rparr>)
                       else (Err e, w3)
                   | None \<Rightarrow> (Err e, w3))
              | Ok raw \<Rightarrow>
                  let (t', w4) = read_clock W w3
                  in case NewCurrencyRate (wk_Sign W) (pq_Value raw) (pq_Derived raw) (pq_Quality raw)
                            (rp_Provider (wk_provider W)) (rp_Indicative (wk_provider W))
                            (pq_QuotedAt raw) t'
                            (rp_StaleAfter (wk_provider W) (pq_Quality raw) (pq_QuotedAt raw)) of
                       Panic \<Rightarrow> (Panic, w4)
                     | Err e \<Rightarrow> (failRate MalformedResponseError (error_text (wk_fmt W) e) False 0 [], w4)
                     | Ok rate \<Rightarrow> (Ok (rate, 0), w4))"

definition fetch ::
  "('r, 'p, 'c, 'd) Worker \<Rightarrow> ('r, 'p, 'c) world \<Rightarrow> CurrencyPair
     \<Rightarrow> 'd resolvedQuote go \<times> ('r, 'p, 'c) world" where
  "fetch W w pair =
     (let (res, r) = GetLatestQuote (wk_repo W) (w_repo w) pair;
          w1 = w\<lparr>w_repo := r\<rparr>
      in case res of
           Panic \<Rightarrow> (Panic, w1)
         | Ok (latest, quoteID) \<Rightarrow>
             (let (t, w2) = read_clock W w1
              in if time_Before t (StaleAfter latest) then (Ok (latest, quoteID), w2)
                 else fetch_fresh W w2 pair)
         | Err e \<Rightarrow>
             if \<not> errors_Is (\<lambda>x. x = ErrNotFound) e then (Err e, w1)
             else fetch_fresh W w1 pair)"

definition backoff ::
  "('r, 'p, 'c, 'd) Worker \<Rightarrow> ('r, 'p, 'c) world \<Rightarrow> CurrencyRateError \<Rightarrow> int \<Rightarrow> gotime
     \<Rightarrow> gotime \<times> ('r, 'p, 'c) world" where
  "backoff W w rateErr attempts now =
     (let delay = backoff_delay (baseBackoff W) (maxBackoff W) (err_retryAfter rateErr) attempts;
          (k, w1) = draw_rand w
      in (time_Add now (jittered (wk_cvt W) delay k), w1))"

definition out_of_budget ::
  "('r, 'p, 'c, 'd) Worker \<Rightarrow> CurrencyRateUpdateRequest \<Rightarrow> gotime \<Rightarrow> bool" where
  "out_of_budget W req now \<longleftrightarrow>
     maxAttempts W \<le> Attempts req \<or> maxLifetime W \<le> time_Sub now (CreatedAt req)"

text \<open>The second half of \<open>fail\<close>: a classified error is recorded.\<close>

definition record_failure ::
  "('r, 'p, 'c, 'd) Worker \<Rightarrow> ('r, 'p, 'c) world \<Rightarrow> CurrencyRateUpdateRequest \<Rightarrow> CurrencyRateError
     \<Rightarrow> gotime \<Rightarrow> unit go \<times> ('r, 'p, 'c) world" where
  "record_failure W w req rateErr now =
     (let exhausted = err_retryable rateErr \<and> out_of_budget W req now;
          retryable = (if exhausted then False else err_retryable rateErr);
          errCode = (if exhausted then AttemptsExhaustedCode else error_code_string (err_code rateErr));
          errMessage = (if exhausted
                        then ''giving up after '' @ itoa (Attempts req) @ '' attempts: ''
                               @ RateError_Error rateErr
                        else RateError_Error rateErr);
          (nextAttemptAt, w1) = backoff W w rateErr (Attempts req) now;
          (res, r) = CompleteFailure (wk_repo W) (w_repo w1) (ID req) errCode errMessage retryable
                       nextAttemptAt now
      in (res, w1\<lparr>w_repo := r\<rparr>))"

definition fail ::
  "('r, 'p, 'c, 'd) Worker \<Rightarrow> ('r, 'p, 'c) world \<Rightarrow> CurrencyRateUpdateRequest \<Rightarrow> go_error
     \<Rightarrow> gotime \<Rightarrow> unit go \<times> ('r, 'p, 'c) world" where
  "fail W w req err now =
     (case errors_As_rate err of
        Some rateErr \<Rightarrow> record_failure W w req rateErr now
      | None \<Rightarrow>
          if Attempts req < maxAttempts W \<and> time_Sub now (CreatedAt req) < maxLifetime W
          then (Err err, w)
          else case NewCurrencyRateError InternalError (error_text (wk_fmt W) err) False 0 [] of
                 Ok rateErr \<Rightarrow> record_failure W w req rateErr now
               | Err e \<Rightarrow> (Err e, w)
               | Panic \<Rightarrow> (Panic, w))"

text \<open>
  \<open>resolve\<close> single-flights \<open>fetch\<close> per pair; a call that is not concurrent with another
  one for its pair is \<open>fetch\<close> itself.
\<close>

definition Process ::
  "('r, 'p, 'c, 'd) Worker \<Rightarrow> ('r, 'p, 'c) world \<Rightarrow> CurrencyRateUpdateRequest
     \<Rightarrow> unit go \<times> ('r, 'p, 'c) world" where
  "Process W w req =
     (let (resolved, w1) = fetch W w (Pair req)
      in case resolved of
           Panic \<Rightarrow> (Panic, w1)
         | Err e \<Rightarrow> (let (now, w2) = read_clock W w1 in fail W w2 req e now)
         | Ok (rate, quoteID) \<Rightarrow>
             (let (now, w2) = read_clock W w1;
                  (res, r) = (if quoteID \<noteq> 0
                              then CompleteSuccessReuse (wk_repo W) (w_repo w2) (ID req) quoteID now
                              else CompleteSuccess (wk_repo W) (w_repo w2) (ID req) (Pair req) rate now)
              in (res, w2\<lparr>w_repo := r\<rparr>)))"

section \<open>Frames\<close>

lemma read_clock_frame:
  "read_clock W w = (t, w') \<Longrightarrow> w_repo w' = w_repo w \<and> w_prov w' = w_prov w
    \<and> w_limiter w' = w_limiter w \<and> w_rand w' = w_rand w"
  by (auto simp: read_clock_def Let_def split: prod.splits)

lemma backoff_frame: "backoff W w e n now = (t, w') \<Longrightarrow> w_repo w' = w_repo w \<and> w_prov w' = w_prov w"
  by (auto simp: backoff_def draw_rand_def Let_def)

lemma fetch_fresh_repo: "fetch_fresh W w pair = (res, w') \<Longrightarrow> w_repo w' = w_repo w"
  by (auto simp: fetch_fresh_def Let_def read_clock_def split: prod.splits if_splits gores.splits option.splits)

text \<open>What a freshly fetched rate satisfies.\<close>

definition rate_ok :: "('d \<Rightarrow> int) \<Rightarrow> 'd CurrencyRate \<Rightarrow> bool" where
  "rate_ok Sign rate \<longleftrightarrow> 0 < Sign (Value rate) \<and> QuotedAt rate \<noteq> 0
     \<and> QuotedAt rate \<le> FetchedAt rate + maxQuotedAtSkew"

lemma fetch_fresh_Ok:
  "fetch_fresh W w pair = (Ok (rate, qid), w') \<Longrightarrow> qid = 0 \<and> rate_ok (wk_Sign W) rate
    \<and> Provider rate = rp_Provider (wk_provider W)"
  by (auto simp: fetch_fresh_def Let_def NewCurrencyRate_Ok_iff rate_ok_def
      split: prod.splits if_splits gores.splits option.splits)

section \<open>The contract of \<open>Process\<close>\<close>

text \<open>The codes a failed update can carry: the declared ones and \<open>attempts_exhausted\<close>.\<close>

definition stored_codes :: "string set" where
  "stored_codes = insert AttemptsExhaustedCode (error_code_string ` {c. ErrorCode_Valid c})"

text \<open>The row of \<open>req\<close> before and after it was resolved.\<close>

definition resolved ::
  "'d store \<Rightarrow> 'd store \<Rightarrow> CurrencyPair \<Rightarrow> queue_row \<Rightarrow> queue_row \<Rightarrow> bool" where
  "resolved S S' pair q q' \<longleftrightarrow>
     (\<exists>now qid reused rate. q' = succeeded_row now qid reused q
        \<and> st_quotes S' qid = Some (pair, rate) \<and> (reused \<longrightarrow> st_quotes S qid = Some (pair, rate)))
     \<or> (\<exists>now code msg retryable next. q' = failed_row now code msg retryable next q
          \<and> code \<in> stored_codes \<and> st_quotes S' = st_quotes S)"

definition process_spec ::
  "'d store \<Rightarrow> CurrencyRateUpdateRequest \<Rightarrow> unit go \<Rightarrow> 'd store \<Rightarrow> bool" where
  "process_spec S req res S' \<longleftrightarrow>
     (if is_ok res
      then \<exists>q q'. st_rows S (ID req) = Some q \<and> Status (q_req q) = StatusInProgress
             \<and> st_rows S' = (st_rows S)(ID req \<mapsto> q') \<and> resolved S S' (Pair req) q q'
      else S' = S)"

definition held :: "'d store \<Rightarrow> CurrencyRateUpdateRequest \<Rightarrow> bool" where
  "held S req \<longleftrightarrow> (\<exists>q. st_rows S (ID req) = Some q \<and> Pair (q_req q) = Pair req)"

lemma held_pair_ok: "store_ok S \<Longrightarrow> held S req \<Longrightarrow> pair_ok (Pair req)"
  using store_ok_rowD by (fastforce simp: held_def row_ok_def)

lemma transition_refused_post: "transition_refused S i res S' \<Longrightarrow> \<not> is_ok res \<and> S' = S"
  by (auto simp: transition_refused_def split: option.splits)

lemma fault_post: "fault S res S' \<Longrightarrow> \<not> is_ok res \<and> S' = S"
  by (auto simp: fault_def)

lemma store_ok_quote_pos: "store_ok S \<Longrightarrow> st_quotes S k = Some x \<Longrightarrow> 0 < k"
  by (simp add: store_ok_def)

lemma process_spec_OkI:
  assumes "st_rows S (ID req) = Some q" "Status (q_req q) = StatusInProgress" "res = Ok ()"
    and "st_rows S' = (st_rows S)(ID req \<mapsto> q')" "resolved S S' (Pair req) q q'"
  shows "process_spec S req res S'"
  using assms unfolding process_spec_def by auto

lemma process_spec_same: "\<not> is_ok res \<Longrightarrow> S' = S \<Longrightarrow> process_spec S req res S'"
  by (simp add: process_spec_def)

lemma resolved_success:
  "st_quotes S' qid = Some (pair, rate) \<Longrightarrow> reused \<longrightarrow> st_quotes S qid = Some (pair, rate)
    \<Longrightarrow> resolved S S' pair q (succeeded_row now qid reused q)"
  unfolding resolved_def by blast

lemma resolved_failure:
  "code \<in> stored_codes \<Longrightarrow> st_quotes S' = st_quotes S
    \<Longrightarrow> resolved S S' pair q (failed_row now code msg retryable next q)"
  unfolding resolved_def by blast

lemma failure_process_spec:
  assumes "failure_spec ct S (ID req) code msg retryable next now res S' \<or> fault S res S'"
    and "code \<in> stored_codes"
  shows "process_spec S req res S'"
proof (cases "transition_refused S (ID req) res S' \<or> fault S res S'")
  case True
  then show ?thesis using transition_refused_post fault_post process_spec_same by metis
next
  case False
  with assms(1) obtain q where q: "st_rows S (ID req) = Some q"
    "Status (q_req q) = StatusInProgress" "res = Ok ()" and S': "S' = S\<lparr>st_rows :=
       (st_rows S)(ID req \<mapsto> failed_row (ct now) code msg retryable (ct next) q)\<rparr>"
    unfolding failure_spec_def by blast
  show ?thesis
    by (rule process_spec_OkI [OF q _ resolved_failure [OF assms(2)]]) (simp_all add: S')
qed

lemma success_process_spec:
  assumes "success_spec ct cr S (ID req) (Pair req) rate now res S' \<or> fault S res S'"
  shows "process_spec S req res S'"
proof (cases "transition_refused S (ID req) res S' \<or> fault S res S'")
  case True
  then show ?thesis using transition_refused_post fault_post process_spec_same by metis
next
  case False
  with assms obtain q qid where q: "st_rows S (ID req) = Some q"
    "Status (q_req q) = StatusInProgress" "res = Ok ()"
    "st_rows S' = (st_rows S)(ID req \<mapsto> succeeded_row (ct now) qid False q)"
    and quotes: "if \<exists>k x. st_quotes S k = Some x \<and> same_quote (Pair req) (cr rate) x
             then st_quotes S' = st_quotes S
                  \<and> (\<exists>x. st_quotes S qid = Some x \<and> same_quote (Pair req) (cr rate) x)
             else st_quotes S qid = None \<and> st_quotes S' = (st_quotes S)(qid \<mapsto> (Pair req, cr rate))"
    unfolding success_spec_def by blast
  obtain r where "st_quotes S' qid = Some (Pair req, r)"
    using quotes by (auto simp: same_quote_def split: if_splits)
  from process_spec_OkI [OF q resolved_success [OF this]] show ?thesis by simp
qed

lemma reuse_process_spec:
  assumes "reuse_spec ct S (ID req) qid now res S' \<or> fault S res S'"
    and "st_quotes S qid = Some (Pair req, rate)"
  shows "process_spec S req res S'"
proof (cases "transition_refused S (ID req) res S' \<or> fault S res S'")
  case True
  then show ?thesis using transition_refused_post fault_post process_spec_same by metis
next
  case False
  with assms(1) obtain q where q: "st_rows S (ID req) = Some q"
    "Status (q_req q) = StatusInProgress" "res = Ok ()" and S': "S' = S\<lparr>st_rows :=
       (st_rows S)(ID req \<mapsto> succeeded_row (ct now) qid True q)\<rparr>"
    unfolding reuse_spec_def by blast
  have "resolved S S' (Pair req) q (succeeded_row (ct now) qid True q)"
    using assms(2) by (intro resolved_success) (simp_all add: S')
  from process_spec_OkI [OF q _ this] show ?thesis by (simp add: S')
qed

locale worker =
  repo: repository "wk_repo W" abs inv ct cr + prov: rate_provider "wk_provider W"
  for W :: "('r, 'p, 'c, 'd) Worker" and abs :: "'r \<Rightarrow> 'd store" and inv :: "'r \<Rightarrow> bool"
    and ct :: "gotime \<Rightarrow> gotime" and cr :: "'d CurrencyRate \<Rightarrow> 'd CurrencyRate"
begin

text \<open>What \<open>fetch\<close> returns, the store being left alone.\<close>

lemma fetch_fresh_Err:
  "fetch_fresh W w pair = (Err e, w') \<Longrightarrow> errors_As_rate e = Some r \<Longrightarrow> ErrorCode_Valid (err_code r)"
  using prov.classified
  by (fastforce simp: fetch_fresh_def Let_def split: prod.splits if_splits gores.splits option.splits)

lemma fetch_keeps:
  assumes "inv (w_repo w)" "store_ok (abs (w_repo w))" "pair_ok pair" "fetch W w pair = (res, w')"
  shows "inv (w_repo w') \<and> abs (w_repo w') = abs (w_repo w)"
proof -
  obtain resl r where g: "GetLatestQuote (wk_repo W) (w_repo w) pair = (resl, r)" by fastforce
  have "w_repo w' = r"
    using assms(4) g fetch_fresh_repo read_clock_frame
    by (fastforce simp: fetch_def Let_def split: gores.splits prod.splits if_splits)
  with repo.reads_keep(3) [OF assms(1-3) g] show ?thesis by simp
qed

lemma fetch_Err_classified:
  assumes "inv (w_repo w)" "store_ok (abs (w_repo w))" "pair_ok pair" "fetch W w pair = (Err e, w')"
    and "errors_As_rate e = Some r"
  shows "ErrorCode_Valid (err_code r)"
proof -
  obtain resl s where g: "GetLatestQuote (wk_repo W) (w_repo w) pair = (resl, s)" by fastforce
  note law = repo.latest_law [OF assms(1-3) g]
  have "errors_As_rate e' = None" if "resl = Err e'" for e'
    using law that by (auto simp: latest_spec_def fault_def infra_def)
  then show ?thesis
    using assms(4,5) g fetch_fresh_Err
    by (fastforce simp: fetch_def Let_def split: gores.splits prod.splits if_splits)
qed

text \<open>A reused quote is in the journal, for this pair, and was fresh when it was chosen.\<close>

lemma fetch_Ok:
  assumes "inv (w_repo w)" "store_ok (abs (w_repo w))" "pair_ok pair"
    and "fetch W w pair = (Ok (rate, qid), w')"
  shows "(qid = 0 \<and> rate_ok (wk_Sign W) rate \<and> Provider rate = rp_Provider (wk_provider W))
    \<or> (qid \<noteq> 0 \<and> st_quotes (abs (w_repo w)) qid = Some (pair, rate) \<and> w_prov w' = w_prov w
        \<and> w_limiter w' = w_limiter w
        \<and> fst (Now (wk_clock W) (w_clock w)) < StaleAfter rate)"
proof -
  obtain resl s where g: "GetLatestQuote (wk_repo W) (w_repo w) pair = (resl, s)" by fastforce
  note law = repo.latest_law [OF assms(1-3) g]
  consider "fetch_fresh W (w\<lparr>w_repo := s\<rparr>) pair = (Ok (rate, qid), w')"
    | t w2 where "fetch_fresh W w2 pair = (Ok (rate, qid), w')"
    | t w2 where "resl = Ok (rate, qid)" "read_clock W (w\<lparr>w_repo := s\<rparr>) = (t, w2)"
        "time_Before t (StaleAfter rate)" "w' = w2"
    using assms(4) g by (fastforce simp: fetch_def Let_def split: gores.splits prod.splits if_splits)
  then show ?thesis
  proof cases
    case 3
    then have "st_quotes (abs (w_repo w)) qid = Some (pair, rate)"
      using law by (auto simp: latest_spec_def fault_def)
    moreover from store_ok_quote_pos [OF assms(2) this] have "qid \<noteq> 0" by simp
    ultimately show ?thesis
      using 3 by (auto simp: read_clock_def Let_def go_defs split: prod.splits)
  qed (use fetch_fresh_Ok in blast)+
qed

lemma record_failure_effect:
  assumes "inv (w_repo w)" "store_ok (abs (w_repo w))" "ErrorCode_Valid (err_code e)"
    and "record_failure W w req e now = (res, w')"
  shows "inv (w_repo w') \<and> store_ok (abs (w_repo w')) \<and> evolves (abs (w_repo w)) (abs (w_repo w'))
    \<and> process_spec (abs (w_repo w)) req res (abs (w_repo w'))"
proof -
  obtain code msg b nxt where f: "CompleteFailure (wk_repo W) (w_repo w) (ID req) code msg b nxt now
      = (res, w_repo w')" and code: "code \<in> stored_codes"
    using assms(3,4) backoff_frame
    by (fastforce simp: record_failure_def Let_def stored_codes_def split: prod.splits if_splits)
  from repo.failure_keeps [OF assms(1,2) f] failure_process_spec [OF _ code]
    repo.failure_law [OF assms(1,2) f] show ?thesis by blast
qed

text \<open>The row after a recorded failure, with the retry decision and the time of the next attempt.\<close>

lemma record_failure_row:
  assumes "inv (w_repo w)" "store_ok (abs (w_repo w))"
    and "record_failure W w req e now = (Ok (), w')"
  shows "\<exists>q k msg. st_rows (abs (w_repo w)) (ID req) = Some q \<and> k < 2 ^ 53
    \<and> st_rows (abs (w_repo w')) (ID req) = Some (failed_row (ct now)
        (if err_retryable e \<and> out_of_budget W req now then AttemptsExhaustedCode
         else error_code_string (err_code e)) msg
        (err_retryable e \<and> \<not> out_of_budget W req now)
        (ct (now + jittered (wk_cvt W)
               (backoff_delay (baseBackoff W) (maxBackoff W) (err_retryAfter e) (Attempts req)) k)) q)"
proof -
  define k where "k = w_rand w (w_turn w) mod 2 ^ 53"
  have k: "k < 2 ^ 53" by (simp add: k_def)
  obtain msg where f: "CompleteFailure (wk_repo W) (w_repo w) (ID req)
      (if err_retryable e \<and> out_of_budget W req now then AttemptsExhaustedCode
       else error_code_string (err_code e)) msg
      (err_retryable e \<and> \<not> out_of_budget W req now)
      (now + jittered (wk_cvt W)
         (backoff_delay (baseBackoff W) (maxBackoff W) (err_retryAfter e) (Attempts req)) k) now
      = (Ok (), w_repo w')"
    using assms(3) unfolding k_def
    by (auto simp: record_failure_def backoff_def draw_rand_def Let_def go_defs split: prod.splits if_splits)
  have "\<not> transition_refused S (ID req) (Ok ()) S'" "\<not> fault S (Ok ()) S'" for S S' :: "'d store"
    using transition_refused_post fault_post by fastforce+
  with repo.failure_law [OF assms(1,2) f] k show ?thesis
    unfolding failure_spec_def by fastforce
qed

lemma fail_effect:
  assumes "inv (w_repo w)" "store_ok (abs (w_repo w))"
    and "\<And>r. errors_As_rate err = Some r \<Longrightarrow> ErrorCode_Valid (err_code r)"
    and "fail W w req err now = (res, w')"
  shows "inv (w_repo w') \<and> store_ok (abs (w_repo w')) \<and> evolves (abs (w_repo w)) (abs (w_repo w'))
    \<and> process_spec (abs (w_repo w)) req res (abs (w_repo w'))"
proof (cases "errors_As_rate err")
  case (Some r)
  with assms(4) have "record_failure W w req r now = (res, w')" by (simp add: fail_def)
  with record_failure_effect [OF assms(1,2) assms(3) [OF Some]] show ?thesis .
next
  case None
  show ?thesis
  proof (cases "out_of_budget W req now")
    case False
    with None assms(1,2,4) show ?thesis
      by (auto simp: fail_def out_of_budget_def process_spec_same)
  next
    case True
    with None assms(4) obtain r where r: "record_failure W w req r now = (res, w')"
      and "err_code r = InternalError"
      by (auto simp: fail_def out_of_budget_def split: if_splits)
    then have "ErrorCode_Valid (err_code r)" by simp
    from record_failure_effect [OF assms(1,2) this r] show ?thesis .
  qed
qed

lemma Process_effect:
  assumes "inv (w_repo w)" "store_ok (abs (w_repo w))" "held (abs (w_repo w)) req"
    and "Process W w req = (res, w')"
  shows "inv (w_repo w') \<and> store_ok (abs (w_repo w')) \<and> evolves (abs (w_repo w)) (abs (w_repo w'))
    \<and> process_spec (abs (w_repo w)) req res (abs (w_repo w'))"
proof -
  let ?S = "abs (w_repo w)"
  have pair: "pair_ok (Pair req)" using held_pair_ok assms(2,3) .
  obtain fres w1 where f: "fetch W w (Pair req) = (fres, w1)" by fastforce
  obtain now w2 where t: "read_clock W w1 = (now, w2)" by fastforce
  from fetch_keeps [OF assms(1,2) pair f] read_clock_frame [OF t]
  have w2: "inv (w_repo w2)" "store_ok (abs (w_repo w2))" "abs (w_repo w2) = ?S"
    "inv (w_repo w1)" "abs (w_repo w1) = ?S"
    using assms(2) by simp_all
  show ?thesis
  proof (cases fres)
    case Panic
    with assms(2,4) f w2 show ?thesis by (auto simp: Process_def Let_def process_spec_same)
  next
    case (Err e)
    with assms(4) f t have "fail W w2 req e now = (res, w')" by (simp add: Process_def Let_def)
    from fail_effect [OF w2(1,2) fetch_Err_classified [OF assms(1,2) pair f [unfolded Err]] this]
    show ?thesis unfolding w2(3) .
  next
    case (Ok rq)
    then obtain rate qid where rq: "fres = Ok (rate, qid)" by (cases rq) auto
    note q = fetch_Ok [OF assms(1,2) pair f [unfolded rq]]
    have same: "Pair (q_req x) = Pair req" if "st_rows (abs (w_repo w2)) (ID req) = Some x" for x
      using that assms(3) w2(3) by (auto simp: held_def)
    show ?thesis
    proof (cases "qid = 0")
      case True
      with assms(4) f t rq have c: "CompleteSuccess (wk_repo W) (w_repo w2) (ID req) (Pair req) rate now
        = (res, w_repo w')" by (auto simp: Process_def Let_def split: prod.splits)
      from repo.success_keeps [OF w2(1,2) pair c same] repo.success_law [OF w2(1,2) pair c] success_process_spec
      show ?thesis unfolding w2(3) by blast
    next
      case False
      with assms(4) f t rq have c: "CompleteSuccessReuse (wk_repo W) (w_repo w2) (ID req) qid now
        = (res, w_repo w')" by (auto simp: Process_def Let_def split: prod.splits)
      from q False w2(3) have j: "st_quotes (abs (w_repo w2)) qid = Some (Pair req, rate)" by simp
      then have "st_quotes (abs (w_repo w2)) qid \<noteq> None" by simp
      from repo.reuse_keeps [OF w2(1,2) c j same] repo.reuse_law [OF w2(1,2) this c] reuse_process_spec j
      show ?thesis unfolding w2(3) by blast
    qed
  qed
qed

text \<open>What the closing calls leave behind when they report success.\<close>

lemma success_closes:
  assumes "inv r" "store_ok (abs r)" "pair_ok p" "CompleteSuccess (wk_repo W) r i p rate now = (Ok (), r')"
  shows "\<exists>q. st_rows (abs r') i = Some q \<and> Status (q_req q) = StatusSucceeded"
  using repo.success_law [OF assms] transition_refused_post fault_post
  by (fastforce simp: success_spec_def succeeded_row_def)

lemma reuse_closes:
  assumes "inv r" "store_ok (abs r)" "st_quotes (abs r) k \<noteq> None"
    and "CompleteSuccessReuse (wk_repo W) r i k now = (Ok (), r')"
  shows "\<exists>q. st_rows (abs r') i = Some q \<and> Status (q_req q) = StatusSucceeded"
  using repo.reuse_law [OF assms] transition_refused_post fault_post
  by (fastforce simp: reuse_spec_def succeeded_row_def)

lemma fail_exhausted:
  assumes "inv (w_repo w)" "store_ok (abs (w_repo w))" "fail W w req e now = (Ok (), w')"
    and "maxAttempts W \<le> Attempts req"
  shows "\<exists>q. st_rows (abs (w_repo w')) (ID req) = Some q \<and> Status (q_req q) = StatusFailed"
proof -
  from assms(3,4) obtain r where "record_failure W w req r now = (Ok (), w')"
    by (auto simp: fail_def split: option.splits)
  from record_failure_row [OF assms(1,2) this] assms(4) show ?thesis
    by (auto simp: failed_row_def out_of_budget_def)
qed

text \<open>
  Out of attempts, a row that \<open>Process\<close> resolves does not become pending again: only a
  storage error can leave it in progress.
\<close>

lemma exhausted_closes:
  assumes "inv (w_repo w)" "store_ok (abs (w_repo w))" "held (abs (w_repo w)) req"
    and "Process W w req = (Ok (), w')" "maxAttempts W \<le> Attempts req"
  shows "\<exists>q. st_rows (abs (w_repo w')) (ID req) = Some q
    \<and> Status (q_req q) \<in> {StatusSucceeded, StatusFailed}"
proof -
  have pair: "pair_ok (Pair req)" using held_pair_ok assms(2,3) .
  obtain fres w1 where f: "fetch W w (Pair req) = (fres, w1)" by fastforce
  obtain now w2 where t: "read_clock W w1 = (now, w2)" by fastforce
  from fetch_keeps [OF assms(1,2) pair f] read_clock_frame [OF t]
  have w2: "inv (w_repo w2)" "store_ok (abs (w_repo w2))" using assms(2) by simp_all
  show ?thesis
  proof (cases fres)
    case Panic
    with assms(4) f show ?thesis by (simp add: Process_def Let_def)
  next
    case (Err e)
    with assms(4) f t have "fail W w2 req e now = (Ok (), w')" by (simp add: Process_def Let_def)
    with fail_exhausted [OF w2 _ assms(5)] show ?thesis by blast
  next
    case (Ok rq)
    then obtain rate qid where rq: "fres = Ok (rate, qid)" by (cases rq) auto
    show ?thesis
    proof (cases "qid = 0")
      case True
      with assms(4) f t rq have "CompleteSuccess (wk_repo W) (w_repo w2) (ID req) (Pair req) rate now
        = (Ok (), w_repo w')" by (auto simp: Process_def Let_def split: prod.splits)
      with success_closes [OF w2 pair] show ?thesis by blast
    next
      case False
      with assms(4) f t rq have c: "CompleteSuccessReuse (wk_repo W) (w_repo w2) (ID req) qid now
        = (Ok (), w_repo w')" by (auto simp: Process_def Let_def split: prod.splits)
      have "st_quotes (abs (w_repo w2)) qid \<noteq> None"
        using fetch_Ok [OF assms(1,2) pair f [unfolded rq]] False fetch_keeps [OF assms(1,2) pair f]
          read_clock_frame [OF t] by simp
      with reuse_closes [OF w2 _ c] show ?thesis by blast
    qed
  qed
qed

end

end
