(* ===== verification/Dispatcher.thy ===== *)
theory Dispatcher
  imports Worker
begin

text \<open>
  \<open>internal/usecase/quotes/dispatcher.go\<close>: one pass claims a batch and processes its rows;
  \<open>Run\<close> repeats passes while batches come back full. The order in which the pool gets to the
  rows of a batch is the argument \<open>order\<close>; a row is processed as one step.
\<close>

section \<open>Definitions\<close>

record ('r, 'p, 'c, 'd) Dispatcher =
  dp_repo :: "('r, 'd) Repository_ops"
  dp_clock :: "'c Clock_ops"
  dp_worker :: "('r, 'p, 'c, 'd) Worker"
  batchSize :: int
  poolSize :: int
  visibilityTimeout :: duration
  passTimeout :: duration

definition NewDispatcher ::
  "('r, 'd) Repository_ops \<Rightarrow> 'c Clock_ops \<Rightarrow> ('r, 'p, 'c, 'd) Worker \<Rightarrow> int \<Rightarrow> int
     \<Rightarrow> duration \<Rightarrow> duration \<Rightarrow> ('r, 'p, 'c, 'd) Dispatcher" where
  "NewDispatcher repo clock wk batch pool vis timeout =
     \<lparr>dp_repo = repo, dp_clock = clock, dp_worker = wk, batchSize = batch, poolSize = pool,
      visibilityTimeout = vis, passTimeout = timeout\<rparr>"

text \<open>
  The pool: an error or a panic of one row is logged and the row left as it is; the next row runs
  on whatever state the previous one left.
\<close>

fun process_rows ::
  "('r, 'p, 'c, 'd) Worker \<Rightarrow> ('r, 'p, 'c) world \<Rightarrow> CurrencyRateUpdateRequest list
     \<Rightarrow> ('r, 'p, 'c) world" where
  "process_rows W w [] = w"
| "process_rows W w (req # reqs) = process_rows W (snd (Process W w req)) reqs"

type_synonym schedule = "CurrencyRateUpdateRequest list \<Rightarrow> CurrencyRateUpdateRequest list"

definition ClaimAndDispatch ::
  "('r, 'p, 'c, 'd) Dispatcher \<Rightarrow> schedule \<Rightarrow> ('r, 'p, 'c) world \<Rightarrow> bool go \<times> ('r, 'p, 'c) world" where
  "ClaimAndDispatch D order w =
     (let (now, c) = Now (dp_clock D) (w_clock w);
          visibleSince = time_Add now (- visibilityTimeout D);
          (res, r) = ClaimBatch (dp_repo D) (w_repo w) (batchSize D) now visibleSince;
          w1 = w\<lparr>w_clock := c, w_repo := r\<rparr>
      in case res of
           Err e \<Rightarrow> (Err e, w1)
         | Panic \<Rightarrow> (Panic, w1)
         | Ok claimed \<Rightarrow>
             if claimed = [] then (Ok False, w1)
             else (Ok (int (length claimed) = batchSize D), process_rows (dp_worker D) w1 (order claimed)))"

definition runPassRecovered ::
  "('r, 'p, 'c, 'd) Dispatcher \<Rightarrow> schedule \<Rightarrow> ('r, 'p, 'c) world \<Rightarrow> bool go \<times> ('r, 'p, 'c) world" where
  "runPassRecovered D order w =
     (case ClaimAndDispatch D order w of
        (Panic, w') \<Rightarrow> (Err (ErrOther ''panic in claim and dispatch''), w')
      | (res, w') \<Rightarrow> (res, w'))"

text \<open>
  The inner loop of \<open>Run\<close>: pass after pass while they are full. \<open>cancelled n\<close> says whether
  the context is done after pass \<open>n\<close>; the result says whether that is what ended the loop.
  \<open>None\<close> is a loop that never ends.
\<close>

partial_function (option) drain ::
  "('r, 'p, 'c, 'd) Dispatcher \<Rightarrow> schedule \<Rightarrow> (nat \<Rightarrow> bool) \<Rightarrow> ('r, 'p, 'c) world
     \<Rightarrow> (bool \<times> ('r, 'p, 'c) world) option" where
  "drain D order cancelled w =
     (case runPassRecovered D order w of
        (Ok full, w') \<Rightarrow>
          if \<not> full then Some (False, w')
          else if cancelled 0 then Some (True, w')
          else drain D order (\<lambda>n. cancelled (Suc n)) w'
      | (_, w') \<Rightarrow> Some (False, w'))"

text \<open>What wakes \<open>Run\<close>, in the order the \<open>select\<close> picks it.\<close>

datatype wakeup = Done | Nudge "nat \<Rightarrow> bool" | Tick "nat \<Rightarrow> bool"

fun Run ::
  "('r, 'p, 'c, 'd) Dispatcher \<Rightarrow> schedule \<Rightarrow> wakeup list \<Rightarrow> ('r, 'p, 'c) world
     \<Rightarrow> ('r, 'p, 'c) world option" where
  "Run D order [] w = Some w"
| "Run D order (Done # evs) w = Some w"
| "Run D order (Nudge cancelled # evs) w =
     (case drain D order cancelled w of
        None \<Rightarrow> None
      | Some (stopped, w') \<Rightarrow> if stopped then Some w' else Run D order evs w')"
| "Run D order (Tick cancelled # evs) w =
     (case drain D order cancelled w of
        None \<Rightarrow> None
      | Some (stopped, w') \<Rightarrow> if stopped then Some w' else Run D order evs w')"

section \<open>A pass\<close>

definition due :: "gotime \<Rightarrow> gotime \<Rightarrow> 'd store \<Rightarrow> uuid set" where
  "due now visibleSince S = {i. \<exists>q. st_rows S i = Some q \<and> claimable now visibleSince q}"

text \<open>What the batch is to the store it was claimed from, and what stays true of it while the
  pool works through it.\<close>

definition batch_held :: "'d store \<Rightarrow> CurrencyRateUpdateRequest list \<Rightarrow> bool" where
  "batch_held S reqs \<longleftrightarrow> distinct (map ID reqs) \<and> (\<forall>req \<in> set reqs. held S req)"

lemma held_evolves: "held S req \<Longrightarrow> evolves S S' \<Longrightarrow> held S' req"
  unfolding held_def evolves_def row_evolves_def by metis

lemma batch_held_order: "batch_held S reqs \<Longrightarrow> mset reqs' = mset reqs \<Longrightarrow> batch_held S reqs'"
  unfolding batch_held_def by (metis mset_eq_imp_distinct_iff mset_eq_setD mset_map)

lemma claim_spec_held:
  assumes "claim_spec ct S limit now vis (Ok claimed) S'"
  shows "batch_held S' claimed" "ID ` set claimed \<subseteq> due (ct now) (ct vis) S"
    "length claimed = min (nat limit) (card (due (ct now) (ct vis) S))"
    "st_rows S' = (\<lambda>i. if i \<in> ID ` set claimed then map_option (claimed_row (ct now)) (st_rows S i)
                      else st_rows S i)"
    "st_quotes S' = st_quotes S"
proof -
  have c: "distinct (map ID claimed)" "ID ` set claimed \<subseteq> due (ct now) (ct vis) S"
    "length claimed = min (nat limit) (card (due (ct now) (ct vis) S))"
    "st_rows S' = (\<lambda>i. if i \<in> ID ` set claimed then map_option (claimed_row (ct now)) (st_rows S i)
                      else st_rows S i)"
    "st_quotes S' = st_quotes S"
    "\<forall>req \<in> set claimed. \<exists>q. st_rows S' (ID req) = Some q \<and> req\<lparr>Reused := Reused (q_req q)\<rparr> = q_req q"
    using assms unfolding claim_spec_def due_def Let_def by blast+
  have "held S' req" if "req \<in> set claimed" for req
  proof -
    from c(6) that obtain q where q: "st_rows S' (ID req) = Some q"
      "req\<lparr>Reused := Reused (q_req q)\<rparr> = q_req q" by blast
    from arg_cong [OF q(2), of Pair] q(1) show ?thesis by (simp add: held_def)
  qed
  with c(1) show "batch_held S' claimed" by (simp add: batch_held_def)
  show "ID ` set claimed \<subseteq> due (ct now) (ct vis) S"
    "length claimed = min (nat limit) (card (due (ct now) (ct vis) S))"
    "st_rows S' = (\<lambda>i. if i \<in> ID ` set claimed then map_option (claimed_row (ct now)) (st_rows S i)
                      else st_rows S i)"
    "st_quotes S' = st_quotes S" by (rule c)+
qed

lemma process_spec_other: "process_spec S req res S' \<Longrightarrow> i \<noteq> ID req \<Longrightarrow> st_rows S' i = st_rows S i"
  by (auto simp: process_spec_def split: if_splits)

locale dispatcher =
  worker "dp_worker D" abs inv ct cr
  for D :: "('r, 'p, 'c, 'd) Dispatcher" and abs :: "'r \<Rightarrow> 'd store" and inv :: "'r \<Rightarrow> bool"
    and ct :: "gotime \<Rightarrow> gotime" and cr :: "'d CurrencyRate \<Rightarrow> 'd CurrencyRate" +
  assumes same_repo: "dp_repo D = wk_repo (dp_worker D)"
    and batch_nonneg: "0 \<le> batchSize D"
begin

lemma process_rows_effect:
  assumes "inv (w_repo w)" "store_ok (abs (w_repo w))" "batch_held (abs (w_repo w)) reqs"
  shows "inv (w_repo (process_rows (dp_worker D) w reqs))
    \<and> store_ok (abs (w_repo (process_rows (dp_worker D) w reqs)))
    \<and> evolves (abs (w_repo w)) (abs (w_repo (process_rows (dp_worker D) w reqs)))
    \<and> (\<forall>i. i \<notin> ID ` set reqs \<longrightarrow>
          st_rows (abs (w_repo (process_rows (dp_worker D) w reqs))) i = st_rows (abs (w_repo w)) i)"
  using assms
proof (induction reqs arbitrary: w)
  case Nil
  then show ?case by simp
next
  case (Cons req reqs)
  obtain res w' where p: "Process (dp_worker D) w req = (res, w')" by fastforce
  have "held (abs (w_repo w)) req" using Cons.prems(3) by (simp add: batch_held_def)
  note e = Process_effect [OF Cons.prems(1,2) this p]
  have "batch_held (abs (w_repo w')) reqs"
    using Cons.prems(3) e held_evolves unfolding batch_held_def by fastforce
  with Cons.IH [of w'] e have ih: "inv (w_repo (process_rows (dp_worker D) w' reqs))"
    "store_ok (abs (w_repo (process_rows (dp_worker D) w' reqs)))"
    "evolves (abs (w_repo w')) (abs (w_repo (process_rows (dp_worker D) w' reqs)))"
    "\<forall>i. i \<notin> ID ` set reqs \<longrightarrow>
       st_rows (abs (w_repo (process_rows (dp_worker D) w' reqs))) i = st_rows (abs (w_repo w')) i"
    by simp_all
  have "st_rows (abs (w_repo w')) i = st_rows (abs (w_repo w)) i" if "i \<noteq> ID req" for i
    using e that process_spec_other by blast
  with ih e evolves_trans show ?case by (auto simp: p)
qed

lemma pass_effect:
  assumes "inv (w_repo w)" "store_ok (abs (w_repo w))" "\<And>xs. mset (order xs) = mset xs"
    and "ClaimAndDispatch D order w = (res, w')"
  shows "inv (w_repo w')" "store_ok (abs (w_repo w'))" "evolves (abs (w_repo w)) (abs (w_repo w'))"
    and "res \<noteq> Panic"
    and "\<And>now. now = fst (Now (dp_clock D) (w_clock w)) \<Longrightarrow>
      i \<notin> due (ct now) (ct (now - visibilityTimeout D)) (abs (w_repo w))
      \<Longrightarrow> st_rows (abs (w_repo w')) i = st_rows (abs (w_repo w)) i"
    and "\<And>now. now = fst (Now (dp_clock D) (w_clock w)) \<Longrightarrow> res = Ok full \<Longrightarrow>
      full \<longleftrightarrow> 0 < batchSize D
        \<and> batchSize D \<le> int (card (due (ct now) (ct (now - visibilityTimeout D)) (abs (w_repo w))))"
proof -
  obtain now c where t: "Now (dp_clock D) (w_clock w) = (now, c)" by fastforce
  let ?vis = "now - visibilityTimeout D"
  obtain cres r where c: "ClaimBatch (wk_repo (dp_worker D)) (w_repo w) (batchSize D) now ?vis = (cres, r)"
    by fastforce
  let ?w1 = "w\<lparr>w_clock := c, w_repo := r\<rparr>"
  note law = repo.claim_law [OF assms(1,2) batch_nonneg c]
  note keeps = repo.claim_keeps [OF assms(1,2) batch_nonneg c]
  have main: "inv (w_repo w') \<and> store_ok (abs (w_repo w')) \<and> evolves (abs (w_repo w)) (abs (w_repo w'))
    \<and> res \<noteq> Panic
    \<and> (\<forall>i. i \<notin> due (ct now) (ct ?vis) (abs (w_repo w))
          \<longrightarrow> st_rows (abs (w_repo w')) i = st_rows (abs (w_repo w)) i)
    \<and> (\<forall>full. res = Ok full \<longrightarrow> (full \<longleftrightarrow> 0 < batchSize D
        \<and> batchSize D \<le> int (card (due (ct now) (ct ?vis) (abs (w_repo w))))))"
  proof (cases "fault (abs (w_repo w)) cres (abs r)")
    case True
    then obtain e where "cres = Err e" "abs r = abs (w_repo w)" by (auto simp: fault_def)
    with assms(4) t c keeps show ?thesis
      by (auto simp: ClaimAndDispatch_def Let_def go_defs same_repo)
  next
    case False
    with law obtain claimed where ok: "cres = Ok claimed"
      and spec: "claim_spec ct (abs (w_repo w)) (batchSize D) now ?vis (Ok claimed) (abs r)"
      by (auto simp: claim_spec_def)
    note cl = claim_spec_held [OF spec]
    let ?w2 = "process_rows (dp_worker D) ?w1 (order claimed)"
    have w': "w' = (if claimed = [] then ?w1 else ?w2)"
      and res: "res = Ok (claimed \<noteq> [] \<and> int (length claimed) = batchSize D)"
      using assms(4) t c ok
      by (auto simp: ClaimAndDispatch_def Let_def go_defs same_repo split: if_splits)
    have "set (order claimed) = set claimed" using assms(3) by (rule mset_eq_setD)
    with process_rows_effect [of ?w1 "order claimed"] keeps batch_held_order [OF cl(1) assms(3)]
    have pr: "inv (w_repo ?w2)" "store_ok (abs (w_repo ?w2))" "evolves (abs r) (abs (w_repo ?w2))"
      "\<forall>i. i \<notin> ID ` set claimed \<longrightarrow> st_rows (abs (w_repo ?w2)) i = st_rows (abs r) i"
      by simp_all
    have rows: "st_rows (abs (w_repo w')) i = st_rows (abs (w_repo w)) i"
      if "i \<notin> due (ct now) (ct ?vis) (abs (w_repo w))" for i
      using that pr(4) cl(2,4) w' by auto
    have "(claimed \<noteq> [] \<and> int (length claimed) = batchSize D) \<longleftrightarrow> 0 < batchSize D
        \<and> batchSize D \<le> int (card (due (ct now) (ct ?vis) (abs (w_repo w))))"
      using cl(3) batch_nonneg by (cases claimed) auto
    with w' res pr keeps evolves_trans rows show ?thesis by auto
  qed
  with t show "inv (w_repo w')" "store_ok (abs (w_repo w'))" "evolves (abs (w_repo w)) (abs (w_repo w'))"
    "res \<noteq> Panic"
    "\<And>now. now = fst (Now (dp_clock D) (w_clock w)) \<Longrightarrow>
      i \<notin> due (ct now) (ct (now - visibilityTimeout D)) (abs (w_repo w))
      \<Longrightarrow> st_rows (abs (w_repo w')) i = st_rows (abs (w_repo w)) i"
    "\<And>now. now = fst (Now (dp_clock D) (w_clock w)) \<Longrightarrow> res = Ok full \<Longrightarrow>
      full \<longleftrightarrow> 0 < batchSize D
        \<and> batchSize D \<le> int (card (due (ct now) (ct (now - visibilityTimeout D)) (abs (w_repo w))))"
    by auto
qed

end

end
