(* ===== verification/DrainLoop.thy ===== *)
theory DrainLoop
  imports Dispatcher
begin

text \<open>
  The loop of \<open>Dispatcher.Run\<close> that claims again after a full batch
  (\<open>internal/usecase/quotes/dispatcher.go\<close>): it ends whenever the clock readings of the
  whole loop span at most the visibility timeout, because every claim then uses up one of the
  finitely many claims the attempts budget leaves each row.
\<close>

section \<open>How many claims a row has left\<close>

definition weight :: "int \<Rightarrow> gotime \<Rightarrow> queue_row \<Rightarrow> nat" where
  "weight maxA stale q =
     (case Status (q_req q) of
        StatusPending \<Rightarrow> 1 + nat (maxA - Attempts (q_req q))
      | StatusInProgress \<Rightarrow> if q_locked q < stale then 2 + nat (maxA - Attempts (q_req q)) else 0
      | _ \<Rightarrow> 0)"

definition total_weight :: "int \<Rightarrow> gotime \<Rightarrow> 'd store \<Rightarrow> nat" where
  "total_weight maxA stale S = (\<Sum>i \<in> dom (st_rows S). weight maxA stale (the (st_rows S i)))"

lemma total_weight_less:
  assumes fin: "finite (dom (st_rows S))" and dom: "dom (st_rows S') = dom (st_rows S)"
    and le: "\<And>i q q'. st_rows S i = Some q \<Longrightarrow> st_rows S' i = Some q' \<Longrightarrow> weight m t q' \<le> weight m t q"
    and less: "st_rows S k = Some p" "st_rows S' k = Some p'" "weight m t p' < weight m t p"
  shows "total_weight m t S' < total_weight m t S"
  unfolding total_weight_def dom
proof (rule sum_strict_mono_ex1 [OF fin])
  show "\<forall>i \<in> dom (st_rows S). weight m t (the (st_rows S' i)) \<le> weight m t (the (st_rows S i))"
  proof
    fix i assume "i \<in> dom (st_rows S)"
    moreover from this have "i \<in> dom (st_rows S')" unfolding dom .
    ultimately obtain q q' where "st_rows S i = Some q" "st_rows S' i = Some q'" by blast
    with le show "weight m t (the (st_rows S' i)) \<le> weight m t (the (st_rows S i))" by simp
  qed
  show "\<exists>i \<in> dom (st_rows S). weight m t (the (st_rows S' i)) < weight m t (the (st_rows S i))"
    using less by (intro bexI [of _ k]) (simp, blast)
qed

text \<open>The claimed copy of a row is the row, but for the \<open>Reused\<close> flag.\<close>

definition current :: "'d store \<Rightarrow> CurrencyRateUpdateRequest \<Rightarrow> bool" where
  "current S req \<longleftrightarrow> (\<exists>q. st_rows S (ID req) = Some q \<and> Pair (q_req q) = Pair req
     \<and> Attempts (q_req q) = Attempts req)"

lemma current_held: "current S req \<Longrightarrow> held S req"
  by (auto simp: current_def held_def)

lemma current_cong: "st_rows S' (ID req) = st_rows S (ID req) \<Longrightarrow> current S' req = current S req"
  by (simp add: current_def)

lemma claim_spec_current:
  assumes "claim_spec ct S limit now vis (Ok claimed) S'" "req \<in> set claimed"
  shows "current S' req"
proof -
  have "\<forall>req \<in> set claimed. \<exists>q. st_rows S' (ID req) = Some q
      \<and> req\<lparr>Reused := Reused (q_req q)\<rparr> = q_req q"
    using assms(1) unfolding claim_spec_def Let_def by blast
  with assms(2) obtain q where q: "st_rows S' (ID req) = Some q"
    "req\<lparr>Reused := Reused (q_req q)\<rparr> = q_req q" by blast
  from arg_cong [OF q(2), of Pair] arg_cong [OF q(2), of Attempts] q(1) show ?thesis
    by (simp add: current_def)
qed

lemma Process_clock:
  assumes "\<And>c t c'. P c \<Longrightarrow> Now (wk_clock W) c = (t, c') \<Longrightarrow> P c'"
    and "P (w_clock w)"
  shows "P (w_clock (snd (Process W w req)))"
proof -
  have n: "P c \<Longrightarrow> P (snd (Now (wk_clock W) c))" for c
    using assms(1) by (metis prod.collapse)
  have rc: "P (w_clock w') \<Longrightarrow> P (w_clock (snd (read_clock W w')))" for w'
    by (simp add: read_clock_def Let_def split_beta n)
  have ff: "P (w_clock w') \<Longrightarrow> P (w_clock (snd (fetch_fresh W w' pair)))" for w' pair
    by (auto simp: fetch_fresh_def Let_def read_clock_def split_beta n split: gores.splits option.splits)
  have fe: "P (w_clock w') \<Longrightarrow> P (w_clock (snd (fetch W w' pair)))" for w' pair
    by (auto simp: fetch_def Let_def split_beta rc ff split: gores.splits)
  have rf: "P (w_clock w') \<Longrightarrow> P (w_clock (snd (record_failure W w' req e now)))" for w' e now
    by (auto simp: record_failure_def backoff_def draw_rand_def Let_def split_beta)
  have fl: "P (w_clock w') \<Longrightarrow> P (w_clock (snd (fail W w' req e now)))" for w' e now
    by (auto simp: fail_def rf split: option.splits gores.splits)
  show ?thesis
    using assms(2)
    by (auto simp: Process_def Let_def split_beta fe rc fl split: gores.splits)
qed

lemma process_rows_clock:
  assumes "\<And>c t c'. P c \<Longrightarrow> Now (wk_clock W) c = (t, c') \<Longrightarrow> P c'"
  shows "P (w_clock w) \<Longrightarrow> P (w_clock (process_rows W w reqs))"
proof (induction reqs arbitrary: w)
  case (Cons req reqs)
  have "P (w_clock (snd (Process W w req)))" using Process_clock [where P = P, of W w req] assms Cons.prems by blast
  with Cons.IH show ?case by simp
qed simp

section \<open>The loop ends\<close>

locale drain_window =
  dispatcher D abs inv ct cr
  for D :: "('r, 'p, 'c, 'd) Dispatcher" and abs :: "'r \<Rightarrow> 'd store" and inv :: "'r \<Rightarrow> bool"
    and ct :: "gotime \<Rightarrow> gotime" and cr :: "'d CurrencyRate \<Rightarrow> 'd CurrencyRate" +
  fixes within :: "'c \<Rightarrow> bool" and t0 T :: gotime
  assumes same_clock: "dp_clock D = wk_clock (dp_worker D)"
    and within_now: "within c \<Longrightarrow> Now (dp_clock D) c = (t, c') \<Longrightarrow> t0 \<le> t \<and> t \<le> T \<and> within c'"
    and span: "T - t0 \<le> visibilityTimeout D"
    and ct_mono: "x \<le> y \<Longrightarrow> ct x \<le> ct y"
begin

abbreviation "stale \<equiv> ct (T - visibilityTimeout D)"
abbreviation "budget \<equiv> maxAttempts (dp_worker D)"

lemma weight_claimed:
  assumes "claimable (ct now) (ct (now - visibilityTimeout D)) q" "now \<le> T"
  shows "weight budget stale (claimed_row n q) \<le> 0 \<or> n < stale"
    and "0 < weight budget stale q"
    and "nat (budget - Attempts (q_req (claimed_row n q))) + 1 < weight budget stale q
      \<or> budget \<le> Attempts (q_req (claimed_row n q)) \<or> budget \<le> Attempts (q_req q)"
  using assms ct_mono [of "now - visibilityTimeout D" "T - visibilityTimeout D"]
  by (auto simp: weight_def claimed_row_def claimable_def)

text \<open>A row that was just claimed has used up a claim by the time its batch is done.\<close>

lemma Process_weight:
  assumes "inv (w_repo w)" "store_ok (abs (w_repo w))" "current (abs (w_repo w)) req"
    and "st_rows (abs (w_repo w)) (ID req) = Some q" "Process (dp_worker D) w req = (res, w')"
  shows "\<exists>q'. st_rows (abs (w_repo w')) (ID req) = Some q'
    \<and> (q' = q \<or> weight budget stale q' = 0
        \<or> (Status (q_req q') = StatusPending \<and> Attempts (q_req q') = Attempts (q_req q)
            \<and> Attempts (q_req q) < budget))"
proof -
  have q: "Attempts (q_req q) = Attempts req" using assms(3,4) by (simp add: current_def)
  note e = Process_effect [OF assms(1,2) current_held [OF assms(3)] assms(5)]
  show ?thesis
  proof (cases "is_ok res")
    case False
    with e assms(4) show ?thesis by (simp add: process_spec_def)
  next
    case True
    then have ok: "res = Ok ()" by (cases res) auto
    with e assms(4) obtain q' where q': "st_rows (abs (w_repo w')) (ID req) = Some q'"
      and r: "resolved (abs (w_repo w)) (abs (w_repo w')) (Pair req) q q'"
      by (auto simp: process_spec_def)
    have closed: "weight budget stale q' = 0" if "budget \<le> Attempts req"
      using exhausted_closes [OF assms(1,2) current_held [OF assms(3)]
          assms(5) [unfolded ok] that] q' by (auto simp: weight_def)
    show ?thesis
    proof (cases "budget \<le> Attempts req")
      case True
      with closed q' show ?thesis by simp
    next
      case False
      have "weight budget stale q' = 0 \<or> (Status (q_req q') = StatusPending
          \<and> Attempts (q_req q') = Attempts (q_req q))"
        using r unfolding resolved_def
      proof (elim disjE exE conjE)
        fix now code msg retryable nxt
        assume "q' = failed_row now code msg retryable nxt q"
        then show ?thesis by (cases retryable) (simp_all add: failed_row_def weight_def)
      qed (simp add: succeeded_row_def weight_def)
      with q' q False show ?thesis by auto
    qed
  qed
qed

lemma process_rows_weight:
  assumes "inv (w_repo w)" "store_ok (abs (w_repo w))" "distinct (map ID reqs)"
    and "\<And>req. req \<in> set reqs \<Longrightarrow> current (abs (w_repo w)) req"
    and "req \<in> set reqs" "st_rows (abs (w_repo w)) (ID req) = Some q"
  shows "\<exists>q'. st_rows (abs (w_repo (process_rows (dp_worker D) w reqs))) (ID req) = Some q'
    \<and> (q' = q \<or> weight budget stale q' = 0
        \<or> (Status (q_req q') = StatusPending \<and> Attempts (q_req q') = Attempts (q_req q)
            \<and> Attempts (q_req q) < budget))"
  using assms
proof (induction reqs arbitrary: w)
  case Nil
  then show ?case by simp
next
  case (Cons r reqs)
  obtain res w' where p: "Process (dp_worker D) w r = (res, w')" by fastforce
  have cur: "current (abs (w_repo w)) r" using Cons.prems(4) by simp
  note e = Process_effect [OF Cons.prems(1,2) current_held [OF cur] p]
  have other: "st_rows (abs (w_repo w')) i = st_rows (abs (w_repo w)) i" if "i \<noteq> ID r" for i
    using e that process_spec_other by blast
  have ids: "ID x \<noteq> ID r" if "x \<in> set reqs" for x
    using that Cons.prems(3) by (auto simp: image_iff)
  have cur': "current (abs (w_repo w')) x" if "x \<in> set reqs" for x
    using Cons.prems(4) [of x] that current_cong [OF other [OF ids [OF that]]] by simp
  have bh: "batch_held (abs (w_repo w')) reqs"
    using cur' Cons.prems(3) current_held by (auto simp: batch_held_def)
  show ?case
  proof (cases "req = r")
    case True
    from Process_weight [OF Cons.prems(1,2) cur _ p] Cons.prems(6) True
    obtain q' where q': "st_rows (abs (w_repo w')) (ID r) = Some q'"
      "q' = q \<or> weight budget stale q' = 0
        \<or> (Status (q_req q') = StatusPending \<and> Attempts (q_req q') = Attempts (q_req q)
            \<and> Attempts (q_req q) < budget)" by blast
    have "ID r \<notin> ID ` set reqs" using Cons.prems(3) by simp
    with process_rows_effect [of w' reqs] e bh q' show ?thesis by (auto simp: p True)
  next
    case False
    with Cons.prems(5) have mem: "req \<in> set reqs" by simp
    have "st_rows (abs (w_repo w')) (ID req) = Some q" using other ids mem Cons.prems(6) by simp
    with Cons.IH [of w'] e cur' Cons.prems(3) mem show ?thesis by (simp add: p)
  qed
qed

lemma full_pass_weight:
  assumes "inv (w_repo w)" "store_ok (abs (w_repo w))" "within (w_clock w)"
    and order: "\<And>xs. mset (order xs) = mset xs"
    and pass: "ClaimAndDispatch D order w = (Ok True, w')"
  shows "total_weight budget stale (abs (w_repo w')) < total_weight budget stale (abs (w_repo w))"
    and "within (w_clock w')"
proof -
  obtain now c where t: "Now (dp_clock D) (w_clock w) = (now, c)" by fastforce
  from within_now [OF assms(3) t] have now: "t0 \<le> now" "now \<le> T" "within c" by simp_all
  let ?vis = "now - visibilityTimeout D"
  obtain cres r where cb: "ClaimBatch (wk_repo (dp_worker D)) (w_repo w) (batchSize D) now ?vis = (cres, r)"
    by fastforce
  from pass t cb obtain claimed where ok: "cres = Ok claimed" and ne: "claimed \<noteq> []"
    and w': "w' = process_rows (dp_worker D) (w\<lparr>w_clock := c, w_repo := r\<rparr>) (order claimed)"
    by (auto simp: ClaimAndDispatch_def Let_def go_defs same_repo split: gores.splits if_splits)
  let ?w1 = "w\<lparr>w_clock := c, w_repo := r\<rparr>"
  let ?S = "abs (w_repo w)" and ?S1 = "abs r" and ?S2 = "abs (w_repo w')"
  note keeps = repo.claim_keeps [OF assms(1,2) batch_nonneg cb]
  from repo.claim_law [OF assms(1,2) batch_nonneg cb] ok
  have spec: "claim_spec ct ?S (batchSize D) now ?vis (Ok claimed) ?S1" by (auto simp: fault_def)
  note cl = claim_spec_held [OF spec]
  have set: "set (order claimed) = set claimed" using order by (rule mset_eq_setD)
  have cur: "current ?S1 req" if "req \<in> set (order claimed)" for req
    using claim_spec_current [OF spec] that set by blast
  have bh: "batch_held ?S1 (order claimed)" using batch_held_order [OF cl(1) order] .
  have w1: "inv (w_repo ?w1)" "store_ok (abs (w_repo ?w1))" "batch_held (abs (w_repo ?w1)) (order claimed)"
    using keeps bh by simp_all
  note pr = process_rows_effect [OF w1]
  have stale_le: "stale \<le> ct now" using span now(1) by (intro ct_mono) simp
  have claimed_less: "\<exists>q q'. st_rows ?S i = Some q \<and> st_rows ?S2 i = Some q'
      \<and> weight budget stale q' < weight budget stale q" if i: "i \<in> ID ` set claimed" for i
  proof -
    obtain req where req: "req \<in> set (order claimed)" "i = ID req" using i set by auto
    obtain q where q: "st_rows ?S i = Some q" "claimable (ct now) (ct ?vis) q"
      using i cl(2) by (auto simp: due_def)
    let ?q1 = "claimed_row (ct now) q"
    have q1: "st_rows ?S1 (ID req) = Some ?q1" using cl(4) i q(1) req(2) by simp
    have dist: "distinct (map ID (order claimed))" using bh by (simp add: batch_held_def)
    from process_rows_weight [of ?w1, OF _ _ dist _ req(1)] w1 cur q1 obtain q' where
      q': "st_rows ?S2 i = Some q'" "q' = ?q1 \<or> weight budget stale q' = 0
        \<or> (Status (q_req q') = StatusPending \<and> Attempts (q_req q') = Attempts (q_req ?q1)
            \<and> Attempts (q_req ?q1) < budget)"
      using req(2) w' by auto
    have pos: "0 < weight budget stale q" using weight_claimed(2) q(2) now(2) .
    have "weight budget stale ?q1 = 0"
      using weight_claimed(1) [OF q(2) now(2), of "ct now"] stale_le by simp
    moreover have "weight budget stale q' < weight budget stale q"
      if p: "Status (q_req q') = StatusPending" "Attempts (q_req q') = Attempts (q_req ?q1)"
        "Attempts (q_req ?q1) < budget"
    proof -
      have "weight budget stale q' = 1 + nat (budget - Attempts (q_req ?q1))"
        using p by (simp add: weight_def)
      moreover have "Attempts (q_req q) \<le> Attempts (q_req ?q1)" by (simp add: claimed_row_def)
      ultimately show ?thesis
        using weight_claimed(3) [OF q(2) now(2), of "ct now"] p(3) by linarith
    qed
    ultimately show ?thesis using q(1) q' pos by auto
  qed
  have other: "st_rows ?S2 i = st_rows ?S i" if "i \<notin> ID ` set claimed" for i
    using pr that set cl(4) w' by simp
  have dom: "dom (st_rows ?S2) = dom (st_rows ?S)"
  proof (rule set_eqI)
    fix i show "i \<in> dom (st_rows ?S2) \<longleftrightarrow> i \<in> dom (st_rows ?S)"
      using claimed_less [of i] other [of i] by (cases "i \<in> ID ` set claimed") (auto simp: dom_def)
  qed
  have le: "weight budget stale q' \<le> weight budget stale q"
    if "st_rows ?S i = Some q" "st_rows ?S2 i = Some q'" for i q q'
    using that claimed_less [of i] other [of i] by (cases "i \<in> ID ` set claimed") auto
  obtain k where "k \<in> ID ` set claimed" using ne by (cases claimed) auto
  then obtain p p' where "st_rows ?S k = Some p" "st_rows ?S2 k = Some p'"
    "weight budget stale p' < weight budget stale p" using claimed_less by blast
  moreover have "finite (dom (st_rows ?S))" using assms(2) by (simp add: store_ok_def)
  ultimately show "total_weight budget stale ?S2 < total_weight budget stale ?S"
    using le by (intro total_weight_less [OF _ dom])
  show "within (w_clock w')"
  proof -
    have keep: "within c'" if "within c0" "Now (wk_clock (dp_worker D)) c0 = (t, c')" for c0 t c'
      using within_now that same_clock by metis
    show ?thesis
      unfolding w' by (rule process_rows_clock [where P = within]) (blast intro: keep, simp add: now(3))
  qed
qed

lemma drain_returns:
  assumes "inv (w_repo w)" "store_ok (abs (w_repo w))" "within (w_clock w)"
    and order: "\<And>xs. mset (order xs) = mset xs"
  shows "\<exists>stopped w'. drain D order cancelled w = Some (stopped, w') \<and> inv (w_repo w')
    \<and> store_ok (abs (w_repo w')) \<and> evolves (abs (w_repo w)) (abs (w_repo w'))"
  using assms(1-3)
proof (induction "total_weight budget stale (abs (w_repo w))" arbitrary: w cancelled rule: less_induct)
  case less
  obtain res w' where p: "ClaimAndDispatch D order w = (res, w')" by fastforce
  note e = pass_effect [OF less.prems(1,2) order p]
  show ?case
  proof (cases "res = Ok True \<and> \<not> cancelled 0")
    case False
    with p e(4) have "drain D order cancelled w \<in> {Some (False, w'), Some (True, w')}"
      by (subst drain.simps) (auto simp: runPassRecovered_def split: gores.splits)
    with e(1-3) show ?thesis by auto
  next
    case True
    then have pass: "ClaimAndDispatch D order w = (Ok True, w')" using p by simp
    note f = full_pass_weight [OF less.prems order pass]
    from less.hyps [OF f(1) e(1,2) f(2), of "\<lambda>n. cancelled (Suc n)"] obtain stopped w'' where
      d: "drain D order (\<lambda>n. cancelled (Suc n)) w' = Some (stopped, w'')" "inv (w_repo w'')"
        "store_ok (abs (w_repo w''))" "evolves (abs (w_repo w')) (abs (w_repo w''))" by blast
    have "drain D order cancelled w = Some (stopped, w'')"
      using True d(1) pass by (subst drain.simps) (simp add: runPassRecovered_def)
    with d e(3) evolves_trans show ?thesis by blast
  qed
qed

end

end
