(* ===== verification/UseCases.thy ===== *)
theory UseCases
  imports Repository Clock
begin

text \<open>
  The use cases the HTTP API calls: \<open>request_update.go\<close> (the Idempotency-Key contract),
  \<open>get_by_update_id.go\<close> and \<open>get_latest.go\<close> under \<open>internal/usecase/quotes\<close>. They
  are proved from the contract of the port alone, whatever the storage.
\<close>

section \<open>Definitions\<close>

record RequestUpdateResult =
  Request :: CurrencyRateUpdateRequest
  Replayed :: bool

text \<open>\<open>new\<close> is the identifier \<open>uuid.NewV7()\<close> draws.\<close>

definition RequestUpdate ::
  "('r, 'd) Repository_ops \<Rightarrow> 'c Clock_ops \<Rightarrow> unicode \<Rightarrow> uuid \<Rightarrow> 'r \<Rightarrow> 'c \<Rightarrow> string \<Rightarrow> string
     \<Rightarrow> RequestUpdateResult go \<times> 'r \<times> 'c" where
  "RequestUpdate R C U new r c rawPair idempotencyKey =
     (case ParseCurrencyPair U rawPair ''/'' of
        Err e \<Rightarrow> (Err e, r, c)
      | Panic \<Rightarrow> (Panic, r, c)
      | Ok pair \<Rightarrow>
          let (now, c1) = Now C c;
              req = NewCurrencyRateUpdateRequest new pair now;
              (created, r1) = CreateUpdateRequest R r req idempotencyKey
          in case created of
               Ok _ \<Rightarrow> (Ok \<lparr>Request = req, Replayed = False\<rparr>, r1, c1)
             | Panic \<Rightarrow> (Panic, r1, c1)
             | Err e \<Rightarrow>
                 if \<not> errors_Is (\<lambda>x. x = ErrIdempotencyKeyExists) e then (Err e, r1, c1)
                 else
                   let (found, r2) = GetByIdempotencyKey R r1 idempotencyKey
                   in case found of
                        Err e' \<Rightarrow> (Err e', r2, c1)
                      | Panic \<Rightarrow> (Panic, r2, c1)
                      | Ok existing \<Rightarrow>
                          if Pair existing \<noteq> pair then (Err ErrIdempotencyConflict, r2, c1)
                          else (Ok \<lparr>Request = existing, Replayed = True\<rparr>, r2, c1))"

text \<open>\<open>parse_uuid\<close> is \<open>uuid.Parse\<close>.\<close>

definition GetByUpdateID ::
  "('r, 'd) Repository_ops \<Rightarrow> (string \<Rightarrow> uuid option) \<Rightarrow> 'r \<Rightarrow> string
     \<Rightarrow> (CurrencyRateUpdateRequest \<times> 'd CurrencyRate option) go \<times> 'r" where
  "GetByUpdateID R parse_uuid r rawID =
     (case parse_uuid rawID of
        None \<Rightarrow> (Err ErrNotFound, r)
      | Some i \<Rightarrow> GetUpdateByID R r i)"

definition GetLatest ::
  "('r, 'd) Repository_ops \<Rightarrow> unicode \<Rightarrow> 'r \<Rightarrow> string \<Rightarrow> (CurrencyPair \<times> 'd CurrencyRate) go \<times> 'r" where
  "GetLatest R U r rawPair =
     (case ParseCurrencyPair U rawPair ''/'' of
        Err e \<Rightarrow> (Err e, r)
      | Panic \<Rightarrow> (Panic, r)
      | Ok pair \<Rightarrow>
          (case GetLatestQuote R r pair of
             (Ok (rate, qid), r') \<Rightarrow> (Ok (pair, rate), r')
           | (Err e, r') \<Rightarrow> (Err e, r')
           | (Panic, r') \<Rightarrow> (Panic, r')))"

section \<open>The idempotency contract\<close>

definition request_spec ::
  "(gotime \<Rightarrow> gotime) \<Rightarrow> unicode \<Rightarrow> uuid \<Rightarrow> gotime \<Rightarrow> 'd store \<Rightarrow> string \<Rightarrow> string
     \<Rightarrow> RequestUpdateResult go \<Rightarrow> 'd store \<Rightarrow> bool" where
  "request_spec ct U new now S rawPair key res S' \<longleftrightarrow>
     (case ParseCurrencyPair U rawPair ''/'' of
        Err e \<Rightarrow> res = Err e \<and> S' = S
      | Panic \<Rightarrow> False
      | Ok pair \<Rightarrow>
          if key_used S key
          then S' = S \<and> (\<exists>i q b. st_rows S i = Some q \<and> q_key q = key \<and> res =
                 (if Pair (q_req q) = pair
                  then Ok \<lparr>Request = (q_req q)\<lparr>Reused := b\<rparr>, Replayed = True\<rparr>
                  else Err ErrIdempotencyConflict))
          else let req = NewCurrencyRateUpdateRequest new pair now
               in res = Ok \<lparr>Request = req, Replayed = False\<rparr>
                  \<and> S' = S\<lparr>st_rows := (st_rows S)(new \<mapsto> new_row ct req key)\<rparr>)"

lemma fresh_requestI:
  "st_rows S new = None \<Longrightarrow> pair_ok pair \<Longrightarrow>
   fresh_request S (NewCurrencyRateUpdateRequest new pair now)"
  unfolding fresh_request_def by (auto simp: NewCurrencyRateUpdateRequest_def)

lemma infra_not: "infra e \<Longrightarrow> \<not> errors_Is (\<lambda>x. x = ErrIdempotencyKeyExists) e"
proof (induction e)
  case (ErrWrap s e)
  then show ?case by (simp add: infra_def)
next
  case (ErrJoin a b)
  then show ?case by (simp add: infra_def split: option.splits)
qed (simp_all add: infra_def)

text \<open>A key in use names one row.\<close>

lemma key_unique:
  assumes "store_ok S" "st_rows S i = Some q" "st_rows S j = Some q'" "q_key q = k" "q_key q' = k"
    and "k \<noteq> []"
  shows "i = j \<and> q = q'"
proof -
  have "q_key q \<noteq> [] \<longrightarrow> q_key q = q_key q' \<longrightarrow> i = j"
    using assms(1-3) unfolding store_ok_def by blast
  with assms show ?thesis by auto
qed

context repository
begin

lemma RequestUpdate_effect:
  assumes inv: "inv r" and ok: "store_ok (abs r)" and fresh: "st_rows (abs r) new = None"
    and run: "RequestUpdate R C U new r c rawPair key = (res, r', c')"
  shows "inv r' \<and> store_ok (abs r') \<and> evolves (abs r) (abs r')
    \<and> (request_spec ct U new (fst (Now C c)) (abs r) rawPair key res (abs r')
        \<or> fault (abs r) res (abs r'))"
proof (cases "ParseCurrencyPair U rawPair ''/''")
  case (Err e)
  with run inv ok show ?thesis by (simp add: RequestUpdate_def request_spec_def)
next
  case Panic
  then show ?thesis by simp
next
  case (Ok pair)
  then have pair: "pair_ok pair" using ParseCurrencyPair_Ok_iff by blast
  obtain now c1 where t: "Now C c = (now, c1)" by fastforce
  let ?req = "NewCurrencyRateUpdateRequest new pair now"
  have fr: "fresh_request (abs r) ?req" using fresh pair by (rule fresh_requestI)
  obtain created r1 where cr: "CreateUpdateRequest R r ?req key = (created, r1)" by fastforce
  note keeps = create_keeps [OF inv ok fr cr]
  from create_law [OF inv ok fr cr] consider
    (created) "\<not> key_used (abs r) key" "created = Ok ()"
      "abs r1 = (abs r)\<lparr>st_rows := (st_rows (abs r))(ID ?req \<mapsto> new_row ct ?req key)\<rparr>"
    | (exists) "key_used (abs r) key" "created = Err ErrIdempotencyKeyExists" "abs r1 = abs r"
    | (fault) e where "created = Err e" "infra e" "abs r1 = abs r"
    by (auto simp: create_spec_def fault_def split: if_splits)
  then show ?thesis
  proof cases
    case created
    with run Ok t cr keeps show ?thesis
      by (auto simp: RequestUpdate_def request_spec_def Let_def NewCurrencyRateUpdateRequest_def)
  next
    case fault
    with run Ok t cr keeps infra_not show ?thesis
      by (auto simp: RequestUpdate_def fault_def)
  next
    case exists
    obtain found r2 where g: "GetByIdempotencyKey R r1 key = (found, r2)" by fastforce
    from by_key_law [OF keeps(1,2) g] consider
      (found) i q b where "st_rows (abs r) i = Some q" "q_key q = key"
        "found = Ok ((q_req q)\<lparr>Reused := b\<rparr>)" "abs r2 = abs r" "inv r2"
      | (fault) e where "found = Err e" "infra e" "abs r2 = abs r" "inv r2"
      using exists by (auto simp: by_key_spec_def fault_def)
    then show ?thesis
    proof cases
      case found
      have "res = (if Pair (q_req q) = pair
          then Ok \<lparr>Request = (q_req q)\<lparr>Reused := b\<rparr>, Replayed = True\<rparr>
          else Err ErrIdempotencyConflict)" "r' = r2"
        using run Ok t cr exists g found by (auto simp: RequestUpdate_def Let_def split: if_splits)
      with found exists Ok ok show ?thesis by (auto simp: request_spec_def)
    next
      case fault
      with run Ok t cr exists g ok show ?thesis by (auto simp: RequestUpdate_def fault_def)
    qed
  qed
qed

text \<open>
  A replay: after a request was created under a key, a later request with that key and the same
  pair finds the same update, whatever happened in between.
\<close>

lemma RequestUpdate_replay:
  assumes S: "inv r" "store_ok (abs r)" "st_rows (abs r) new = None"
    and first: "RequestUpdate R C U new r c raw key = (Ok res, r1, c1)" and key: "key \<noteq> []"
    and later: "inv r2" "store_ok (abs r2)" "evolves (abs r1) (abs r2)" "st_rows (abs r2) new2 = None"
    and again: "RequestUpdate R C U new2 r2 c2 raw2 key = (res2, r3, c3)"
    and parsed: "ParseCurrencyPair U raw2 ''/'' = Ok pair2"
  shows "abs r3 = abs r2
    \<and> ((\<exists>e. res2 = Err e \<and> infra e)
        \<or> (if pair2 = Pair (Request res)
           then \<exists>x. res2 = Ok x \<and> Replayed x \<and> ID (Request x) = ID (Request res)
                   \<and> Pair (Request x) = Pair (Request res)
           else res2 = Err ErrIdempotencyConflict))"
proof -
  from RequestUpdate_effect [OF S first] have spec:
    "request_spec ct U new (fst (Now C c)) (abs r) raw key (Ok res) (abs r1)" and ok1: "store_ok (abs r1)"
    by (auto simp: fault_def)
  have row: "\<exists>i q. st_rows (abs r1) i = Some q \<and> q_key q = key \<and> ID (q_req q) = ID (Request res)
      \<and> Pair (q_req q) = Pair (Request res)"
    using spec S(2) by (auto simp: request_spec_def new_row_def Let_def NewCurrencyRateUpdateRequest_def
        split: gores.splits if_splits)
  then obtain i q where q: "st_rows (abs r2) i = Some q" "q_key q = key"
    "ID (q_req q) = ID (Request res)" "Pair (q_req q) = Pair (Request res)"
    using later(3) unfolding evolves_def row_evolves_def by metis
  then have used: "key_used (abs r2) key" using key by (auto simp: key_used_def)
  from RequestUpdate_effect [OF later(1,2,4) again] show ?thesis
  proof (elim conjE disjE)
    assume "fault (abs r2) res2 (abs r3)"
    then show ?thesis by (auto simp: fault_def)
  next
    assume "request_spec ct U new2 (fst (Now C c2)) (abs r2) raw2 key res2 (abs r3)"
    then obtain j q' b where j: "st_rows (abs r2) j = Some q'" "q_key q' = key" "abs r3 = abs r2"
      and res2: "res2 = (if Pair (q_req q') = pair2
          then Ok \<lparr>Request = (q_req q')\<lparr>Reused := b\<rparr>, Replayed = True\<rparr>
          else Err ErrIdempotencyConflict)"
      using used parsed by (auto simp: request_spec_def)
    have "q' = q" using key_unique [OF later(2) q(1) j(1) q(2) j(2) key] by simp
    with res2 q j(3) show ?thesis by auto
  qed
qed

lemma GetLatest_effect:
  assumes "inv r" "store_ok (abs r)" "GetLatest R U r raw = (res, r')"
  shows "inv r' \<and> abs r' = abs r
    \<and> (case ParseCurrencyPair U raw ''/'' of
         Err e \<Rightarrow> res = Err e
       | Panic \<Rightarrow> False
       | Ok pair \<Rightarrow>
           (res = Err ErrNotFound \<and> (\<forall>k rate. st_quotes (abs r) k \<noteq> Some (pair, rate)))
           \<or> (\<exists>e. res = Err e \<and> infra e)
           \<or> (\<exists>rate k. res = Ok (pair, rate) \<and> st_quotes (abs r) k = Some (pair, rate)
                \<and> (\<forall>k' rate'. st_quotes (abs r) k' = Some (pair, rate')
                      \<longrightarrow> QuotedAt rate' \<le> QuotedAt rate)))"
proof (cases "ParseCurrencyPair U raw ''/''")
  case (Ok pair)
  then have pair: "pair_ok pair" using ParseCurrencyPair_Ok_iff by blast
  obtain resl s where g: "GetLatestQuote R r pair = (resl, s)" by fastforce
  have r': "r' = s" and res: "res = (case resl of Ok (rate, qid) \<Rightarrow> Ok (pair, rate) | Err e \<Rightarrow> Err e
      | Panic \<Rightarrow> Panic)"
    using assms(3) g Ok by (auto simp: GetLatest_def split: gores.splits)
  from latest_law [OF assms(1,2) pair g] consider
    (none) "resl = Err ErrNotFound" "\<forall>k rate. st_quotes (abs r) k \<noteq> Some (pair, rate)"
    | (fault) e where "resl = Err e" "infra e"
    | (found) rate k where "resl = Ok (rate, k)" "st_quotes (abs r) k = Some (pair, rate)"
        "\<forall>k' r'. st_quotes (abs r) k' = Some (pair, r') \<longrightarrow> (QuotedAt r', k') \<le> (QuotedAt rate, k)"
    by (auto simp: latest_spec_def fault_def)
  then have "case Ok pair of Err e \<Rightarrow> res = Err e | Panic \<Rightarrow> False
       | Ok pair \<Rightarrow>
           (res = Err ErrNotFound \<and> (\<forall>k rate. st_quotes (abs r) k \<noteq> Some (pair, rate)))
           \<or> (\<exists>e. res = Err e \<and> infra e)
           \<or> (\<exists>rate k. res = Ok (pair, rate) \<and> st_quotes (abs r) k = Some (pair, rate)
                \<and> (\<forall>k' rate'. st_quotes (abs r) k' = Some (pair, rate')
                      \<longrightarrow> QuotedAt rate' \<le> QuotedAt rate))"
  proof cases
    case found
    then have "\<forall>k' rate'. st_quotes (abs r) k' = Some (pair, rate') \<longrightarrow> QuotedAt rate' \<le> QuotedAt rate"
      by fastforce
    with found res show ?thesis by auto
  qed (simp_all add: res)
  with latest_law [OF assms(1,2) pair g] show ?thesis
    unfolding Ok r' by (auto simp only: latest_spec_def fault_def)
qed (use assms in \<open>auto simp: GetLatest_def\<close>)

lemma GetByUpdateID_effect:
  assumes "inv r" "store_ok (abs r)" "GetByUpdateID R parse_uuid r raw = (res, r')"
  shows "inv r' \<and> abs r' = abs r
    \<and> (case map_option (st_rows (abs r)) (parse_uuid raw) of
         Some (Some q) \<Rightarrow> (\<exists>e. res = Err e \<and> infra e)
            \<or> res = Ok (q_req q, if q_quoteID q = 0 then None
                                 else map_option snd (st_quotes (abs r) (q_quoteID q)))
       | _ \<Rightarrow> (\<exists>e. res = Err e \<and> (infra e \<or> e = ErrNotFound)))"
proof (cases "parse_uuid raw")
  case None
  with assms show ?thesis by (auto simp: GetByUpdateID_def)
next
  case (Some i)
  with assms(3) have g: "GetUpdateByID R r i = (res, r')" by (simp add: GetByUpdateID_def)
  from by_id_law [OF assms(1,2) g] Some show ?thesis
    by (auto simp: by_id_spec_def fault_def split: option.splits)
qed

end

end
