(* ===== verification/Json.thy ===== *)
theory Json
  imports Prelude
begin

text \<open>
  \<open>encoding/json\<close>, as far as the source uses it: the scanner, a machine that reads one byte at a time and keeps
  the open arrays and objects on a stack; strings with their escapes, their UTF-8 and its replacements; the
  printing of values; and the matching of object keys with the fields of a struct. Strings and numbers of a
  value are the bytes between the quotes and the digits, as they stand in the text.
\<close>

section \<open>Values\<close>

datatype json =
  JNull
| JBool bool
| JNum string
| JStr string
| JArr "json list"
| JObj "(string \<times> json) list"

definition json_space :: "char \<Rightarrow> bool" where
  "json_space c \<longleftrightarrow> byte c \<in> {9, 10, 13, 32}"

definition dquote :: char where "dquote = CHR 0x22"
definition backslash :: char where "backslash = CHR 0x5C"

definition hex_value :: "char \<Rightarrow> nat option" where
  "hex_value c =
     (if 48 \<le> byte c \<and> byte c \<le> 57 then Some (byte c - 48)
      else if 97 \<le> byte c \<and> byte c \<le> 102 then Some (byte c - 87)
      else if 65 \<le> byte c \<and> byte c \<le> 70 then Some (byte c - 55)
      else None)"

section \<open>The scanner\<close>

text \<open>Where a number or a string has got to.\<close>

datatype number_pos = NSign | NZero | NInt | NDot | NFrac | NExp | NExpSign | NExpDigits

definition is_exp :: "char \<Rightarrow> bool" where
  "is_exp c \<longleftrightarrow> c = CHR ''e'' \<or> c = CHR ''E''"

fun number_step :: "char \<Rightarrow> number_pos \<Rightarrow> number_pos option" where
  "number_step c NSign = (if c = CHR ''0'' then Some NZero else if is_digit c then Some NInt else None)"
| "number_step c NZero = (if c = CHR ''.'' then Some NDot else if is_exp c then Some NExp else None)"
| "number_step c NInt = (if is_digit c then Some NInt else if c = CHR ''.'' then Some NDot
     else if is_exp c then Some NExp else None)"
| "number_step c NDot = (if is_digit c then Some NFrac else None)"
| "number_step c NFrac = (if is_digit c then Some NFrac else if is_exp c then Some NExp else None)"
| "number_step c NExp = (if c = CHR ''+'' \<or> c = CHR ''-'' then Some NExpSign
     else if is_digit c then Some NExpDigits else None)"
| "number_step c NExpSign = (if is_digit c then Some NExpDigits else None)"
| "number_step c NExpDigits = (if is_digit c then Some NExpDigits else None)"

definition number_start :: "char \<Rightarrow> number_pos option" where
  "number_start c = (if c = CHR ''-'' then Some NSign else number_step c NSign)"

definition number_end :: "number_pos \<Rightarrow> bool" where
  "number_end p \<longleftrightarrow> p \<in> {NZero, NInt, NFrac, NExpDigits}"

datatype string_pos = SPlain | SEscape | SHex nat

fun string_step :: "char \<Rightarrow> string_pos \<Rightarrow> string_pos option" where
  "string_step c SPlain = (if c = backslash then Some SEscape else if byte c < 32 then None else Some SPlain)"
| "string_step c SEscape = (if c = CHR ''u'' then Some (SHex 3)
     else if c \<in> {dquote, backslash} \<union> set ''/bfnrt'' then Some SPlain else None)"
| "string_step c (SHex n) = (if hex_value c = None then None
     else if n = 0 then Some SPlain else Some (SHex (n - 1)))"

text \<open>The open arrays and objects, innermost first: the elements so far, or the members so far and the key
  whose value is being read.\<close>

datatype frame = FArr "json list" | FObj "(string \<times> json) list" string

datatype pos =
  AtValue
| AtFirst
| AtKey bool
| AtColon string
| AtEnd json
| InString bool string string_pos
| InNumber number_pos string
| InLiteral string json

text \<open>One byte leads on, is wrong, or ends the value at the top; a number or a literal at the top ends at the
  byte after it, which it does not use up.\<close>

datatype scan_step = More pos "frame list" | Stop | Whole json bool

definition close_value :: "json \<Rightarrow> frame list \<Rightarrow> scan_step" where
  "close_value v st = (if st = [] then Whole v True else More (AtEnd v) st)"

fun after_value :: "char \<Rightarrow> json \<Rightarrow> frame list \<Rightarrow> scan_step" where
  "after_value c v [] = Whole v False"
| "after_value c v (FArr vs # st) =
     (if json_space c then More (AtEnd v) (FArr vs # st)
      else if c = CHR '','' then More AtValue (FArr (vs @ [v]) # st)
      else if c = CHR '']'' then close_value (JArr (vs @ [v])) st
      else Stop)"
| "after_value c v (FObj ms k # st) =
     (if json_space c then More (AtEnd v) (FObj ms k # st)
      else if c = CHR '','' then More (AtKey False) (FObj (ms @ [(k, v)]) [] # st)
      else if c = CHR ''}'' then close_value (JObj (ms @ [(k, v)])) st
      else Stop)"

definition maxNestingDepth :: nat where "maxNestingDepth = 10000"

definition push_frame :: "frame \<Rightarrow> pos \<Rightarrow> frame list \<Rightarrow> scan_step" where
  "push_frame f p st = (if maxNestingDepth \<le> length st then Stop else More p (f # st))"

definition begin_value :: "char \<Rightarrow> frame list \<Rightarrow> scan_step" where
  "begin_value c st =
     (if json_space c then More AtValue st
      else if c = CHR ''{'' then push_frame (FObj [] []) (AtKey True) st
      else if c = CHR ''['' then push_frame (FArr []) AtFirst st
      else if c = dquote then More (InString False [] SPlain) st
      else if c = CHR ''t'' then More (InLiteral ''rue'' (JBool True)) st
      else if c = CHR ''f'' then More (InLiteral ''alse'' (JBool False)) st
      else if c = CHR ''n'' then More (InLiteral ''ull'' JNull) st
      else case number_start c of Some p \<Rightarrow> More (InNumber p [c]) st | None \<Rightarrow> Stop)"

fun set_key :: "string \<Rightarrow> frame list \<Rightarrow> frame list" where
  "set_key k (FObj ms k' # st) = FObj ms k # st"
| "set_key k st = st"

fun scan_byte :: "char \<Rightarrow> pos \<Rightarrow> frame list \<Rightarrow> scan_step" where
  "scan_byte c AtValue st = begin_value c st"
| "scan_byte c AtFirst st =
     (if json_space c then More AtFirst st
      else if c = CHR '']'' then close_value (JArr []) (tl st)
      else begin_value c st)"
| "scan_byte c (AtKey first) st =
     (if json_space c then More (AtKey first) st
      else if c = CHR ''}'' \<and> first then close_value (JObj []) (tl st)
      else if c = dquote then More (InString True [] SPlain) st
      else Stop)"
| "scan_byte c (AtColon k) st =
     (if json_space c then More (AtColon k) st
      else if c = CHR '':'' then More AtValue (set_key k st)
      else Stop)"
| "scan_byte c (AtEnd v) st = after_value c v st"
| "scan_byte c (InString is_key s p) st =
     (if c = dquote \<and> p = SPlain then More (if is_key then AtColon s else AtEnd (JStr s)) st
      else case string_step c p of Some p' \<Rightarrow> More (InString is_key (s @ [c]) p') st | None \<Rightarrow> Stop)"
| "scan_byte c (InNumber p s) st =
     (case number_step c p of
        Some p' \<Rightarrow> More (InNumber p' (s @ [c])) st
      | None \<Rightarrow> if number_end p then after_value c (JNum s) st else Stop)"
| "scan_byte c (InLiteral s v) st =
     (case s of
        [] \<Rightarrow> Stop
      | d # ds \<Rightarrow> if c \<noteq> d then Stop else if ds = [] then More (AtEnd v) st else More (InLiteral ds v) st)"

text \<open>The first value of a text and what follows it.\<close>

datatype scanned = Scanned json string | SyntaxError | Unfinished pos "frame list"

fun json_scan :: "string \<Rightarrow> pos \<Rightarrow> frame list \<Rightarrow> scanned" where
  "json_scan [] p st = Unfinished p st"
| "json_scan (c # cs) p st =
     (case scan_byte c p st of
        More p' st' \<Rightarrow> json_scan cs p' st'
      | Stop \<Rightarrow> SyntaxError
      | Whole v used \<Rightarrow> Scanned v (if used then cs else c # cs))"

text \<open>At the end of the text a space is put to the machine: a number or literal at the top is complete.\<close>

definition scan_eof :: "pos \<Rightarrow> frame list \<Rightarrow> json option" where
  "scan_eof p st = (case scan_byte (CHR '' '') p st of Whole v _ \<Rightarrow> Some v | _ \<Rightarrow> None)"

text \<open>\<open>json.Decoder.Decode\<close> of a body that may be read up to \<open>limit\<close> bytes (\<open>http.MaxBytesReader\<close>): the value ends
  within the limit, or the reader fails at it, or the text ends.\<close>

datatype decoded_value = OverLimit | BadJSON | GoodJSON json

definition Decoder_Decode :: "nat \<Rightarrow> string \<Rightarrow> decoded_value" where
  "Decoder_Decode limit s =
     (case json_scan (take limit s) AtValue [] of
        Scanned v _ \<Rightarrow> GoodJSON v
      | SyntaxError \<Rightarrow> BadJSON
      | Unfinished p st \<Rightarrow>
          if limit < length s then OverLimit
          else case scan_eof p st of Some v \<Rightarrow> GoodJSON v | None \<Rightarrow> BadJSON)"

text \<open>The value \<open>json.Unmarshal\<close> reads: the whole text, with nothing but space around.\<close>

definition Unmarshal_value :: "string \<Rightarrow> json option" where
  "Unmarshal_value s =
     (case json_scan s AtValue [] of
        Scanned v rest \<Rightarrow> if list_all json_space rest then Some v else None
      | SyntaxError \<Rightarrow> None
      | Unfinished p st \<Rightarrow> scan_eof p st)"

section \<open>Strings\<close>

text \<open>The length of the valid UTF-8 sequence a string starts with.\<close>

definition in_range :: "nat \<Rightarrow> nat \<Rightarrow> char \<Rightarrow> bool" where
  "in_range a b c \<longleftrightarrow> a \<le> byte c \<and> byte c \<le> b"

abbreviation "cont_byte \<equiv> in_range 128 191"

fun utf8_len :: "string \<Rightarrow> nat option" where
  "utf8_len [] = None"
| "utf8_len (a # s) =
     (if byte a < 128 then Some 1
      else if in_range 194 223 a then (case s of b # _ \<Rightarrow> if cont_byte b then Some 2 else None | _ \<Rightarrow> None)
      else if in_range 224 239 a then
        (case s of
           b # c # _ \<Rightarrow>
             if in_range (if byte a = 224 then 160 else 128) (if byte a = 237 then 159 else 191) b \<and> cont_byte c
             then Some 3 else None
         | _ \<Rightarrow> None)
      else if in_range 240 244 a then
        (case s of
           b # c # d # _ \<Rightarrow>
             if in_range (if byte a = 240 then 144 else 128) (if byte a = 244 then 143 else 191) b
               \<and> cont_byte c \<and> cont_byte d
             then Some 4 else None
         | _ \<Rightarrow> None)
      else None)"

definition bytes_of :: "nat list \<Rightarrow> string" where
  "bytes_of = map char_of"

text \<open>A code point in UTF-8; \<open>rune_error\<close> is U+FFFD.\<close>

definition utf8_encode :: "nat \<Rightarrow> string" where
  "utf8_encode r =
     bytes_of (if r < 128 then [r]
       else if r < 2048 then [192 + r div 64, 128 + r mod 64]
       else if r < 65536 then [224 + r div 4096, 128 + r div 64 mod 64, 128 + r mod 64]
       else [240 + r div 262144, 128 + r div 4096 mod 64, 128 + r div 64 mod 64, 128 + r mod 64])"

definition rune_error :: string where
  "rune_error = utf8_encode 65533"

text \<open>Every byte that does not start a valid sequence is replaced.\<close>

function to_valid :: "string \<Rightarrow> string" where
  "to_valid s =
     (case s of
        [] \<Rightarrow> []
      | c # cs \<Rightarrow> (case utf8_len s of
                    None \<Rightarrow> rune_error @ to_valid cs
                  | Some n \<Rightarrow> take (max n 1) s @ to_valid (drop (max n 1) s)))"
  by pat_completeness auto
termination by (relation "measure length") auto

declare to_valid.simps [simp del]

definition utf8_valid :: "string \<Rightarrow> bool" where
  "utf8_valid s \<longleftrightarrow> to_valid s = s"

definition u4 :: "char \<Rightarrow> char \<Rightarrow> char \<Rightarrow> char \<Rightarrow> nat option" where
  "u4 a b c d =
     (case (hex_value a, hex_value b, hex_value c, hex_value d) of
        (Some w, Some x, Some y, Some z) \<Rightarrow> Some (((w * 16 + x) * 16 + y) * 16 + z)
      | _ \<Rightarrow> None)"

text \<open>\<open>\u\<close> followed by four hexadecimal digits (\<open>getu4\<close>).\<close>

definition getu4 :: "string \<Rightarrow> nat option" where
  "getu4 s =
     (case s of
        x # u # a # b # c # d # _ \<Rightarrow> if x = backslash \<and> u = CHR ''u'' then u4 a b c d else None
      | _ \<Rightarrow> None)"

definition simple_escape :: "char \<Rightarrow> char option" where
  "simple_escape c =
     (if c \<in> {dquote, backslash, CHR ''/''} then Some c
      else if c = CHR ''b'' then Some (char_of (8 :: nat))
      else if c = CHR ''f'' then Some (char_of (12 :: nat))
      else if c = CHR ''n'' then Some (char_of (10 :: nat))
      else if c = CHR ''r'' then Some (char_of (13 :: nat))
      else if c = CHR ''t'' then Some (char_of (9 :: nat))
      else None)"

text \<open>The code point of a \<open>\u\<close> escape and the bytes it takes: a surrogate needs its pair, else it is U+FFFD.\<close>

definition unescape_u :: "nat \<Rightarrow> string \<Rightarrow> nat \<times> nat" where
  "unescape_u r after =
     (if 55296 \<le> r \<and> r < 57344 then
        (case getu4 after of
           Some r2 \<Rightarrow> if r < 56320 \<and> 56320 \<le> r2 \<and> r2 < 57344
                      then ((r - 55296) * 1024 + (r2 - 56320) + 65536, 12) else (65533, 6)
         | None \<Rightarrow> (65533, 6))
      else (r, 6))"

text \<open>\<open>unquote\<close> of the bytes between the quotes. The scanner lets no other escapes through.\<close>

function unquote :: "string \<Rightarrow> string" where
  "unquote s =
     (case s of
        [] \<Rightarrow> []
      | c # cs \<Rightarrow>
          if c = backslash then
            (case getu4 s of
               Some r \<Rightarrow> (let (r', n) = unescape_u r (drop 6 s) in utf8_encode r' @ unquote (drop (max n 1) s))
             | None \<Rightarrow> (case cs of
                         [] \<Rightarrow> []
                       | e # rest \<Rightarrow> (case simple_escape e of Some x \<Rightarrow> x # unquote rest | None \<Rightarrow> [])))
          else case utf8_len s of
                 None \<Rightarrow> rune_error @ unquote cs
               | Some n \<Rightarrow> take (max n 1) s @ unquote (drop (max n 1) s))"
  by pat_completeness auto
termination by (relation "measure length") auto

declare unquote.simps [simp del]

text \<open>\<open>appendString\<close> with HTML escaping, without the quotes around.\<close>

definition html_safe :: "char \<Rightarrow> bool" where
  "html_safe c \<longleftrightarrow> 32 \<le> byte c \<and> c \<notin> {dquote, backslash, CHR ''<'', CHR ''>'', CHR ''&''}"

definition escape_byte :: "char \<Rightarrow> string" where
  "escape_byte c =
     (if c = dquote \<or> c = backslash then [backslash, c]
      else if byte c = 8 then [backslash, CHR ''b'']
      else if byte c = 12 then [backslash, CHR ''f'']
      else if byte c = 10 then [backslash, CHR ''n'']
      else if byte c = 13 then [backslash, CHR ''r'']
      else if byte c = 9 then [backslash, CHR ''t'']
      else backslash # ''u00'' @ [hexdigit (byte c div 16), hexdigit (byte c mod 16)])"

definition line_separators :: "string list" where
  "line_separators = [utf8_encode 8232, utf8_encode 8233]"

function quote_json :: "string \<Rightarrow> string" where
  "quote_json s =
     (case s of
        [] \<Rightarrow> []
      | c # cs \<Rightarrow>
          if byte c < 128 then (if html_safe c then [c] else escape_byte c) @ quote_json cs
          else case utf8_len s of
                 None \<Rightarrow> backslash # ''ufffd'' @ quote_json cs
               | Some n \<Rightarrow>
                   (let rune = take (max n 1) s
                    in if rune \<in> set line_separators
                       then backslash # ''u202'' @ [hexdigit (byte (last rune) mod 16)]
                            @ quote_json (drop (max n 1) s)
                       else rune @ quote_json (drop (max n 1) s)))"
  by pat_completeness auto
termination by (relation "measure length") auto

declare quote_json.simps [simp del]

section \<open>Printing\<close>

fun print_json :: "json \<Rightarrow> string" and print_elems :: "json list \<Rightarrow> string"
  and print_members :: "(string \<times> json) list \<Rightarrow> string" where
  "print_json JNull = ''null''"
| "print_json (JBool b) = (if b then ''true'' else ''false'')"
| "print_json (JNum s) = s"
| "print_json (JStr s) = dquote # s @ [dquote]"
| "print_json (JArr vs) = CHR ''['' # print_elems vs @ '']''"
| "print_json (JObj ms) = CHR ''{'' # print_members ms @ ''}''"
| "print_elems [] = []"
| "print_elems (v # vs) = print_json v @ (if vs = [] then [] else CHR '','' # print_elems vs)"
| "print_members [] = []"
| "print_members (m # ms) = dquote # fst m @ dquote # CHR '':'' # print_json (snd m)
     @ (if ms = [] then [] else CHR '','' # print_members ms)"

text \<open>A Go string as a value.\<close>

definition json_of_string :: "string \<Rightarrow> json" where
  "json_of_string s = JStr (quote_json s)"

definition json_of_int :: "int \<Rightarrow> json" where
  "json_of_int i = JNum (itoa i)"

section \<open>Keys of a struct\<close>

text \<open>Keys match field names without regard to case, which also folds the long s and the Kelvin sign.\<close>

fun fold_name :: "string \<Rightarrow> string" where
  "fold_name (a # b # c # s) =
     (if bytes_of [197, 191] = [a, b] then CHR ''S'' # fold_name (c # s)
      else if bytes_of [226, 132, 170] = [a, b, c] then CHR ''K'' # fold_name s
      else upper_char a # fold_name (b # c # s))"
| "fold_name [a, b] = (if bytes_of [197, 191] = [a, b] then ''S'' else [upper_char a, upper_char b])"
| "fold_name s = map upper_char s"

definition same_name :: "string \<Rightarrow> string \<Rightarrow> bool" where
  "same_name raw field \<longleftrightarrow> fold_name (unquote raw) = map upper_char field"

text \<open>What a value stores in a field that holds \<open>old\<close>; \<open>None\<close> is an error. \<open>null\<close> stores nothing. A number
  may also come as a string that is one.\<close>

fun set_string :: "json \<Rightarrow> string \<Rightarrow> string option" where
  "set_string (JStr s) old = Some (unquote s)"
| "set_string JNull old = Some old"
| "set_string _ old = None"

fun set_bool :: "json \<Rightarrow> bool \<Rightarrow> bool option" where
  "set_bool (JBool b) old = Some b"
| "set_bool JNull old = Some old"
| "set_bool _ old = None"

fun number_run :: "number_pos \<Rightarrow> string \<Rightarrow> number_pos option" where
  "number_run p [] = Some p"
| "number_run p (c # s) = (case number_step c p of Some p' \<Rightarrow> number_run p' s | None \<Rightarrow> None)"

definition number_ok :: "string \<Rightarrow> bool" where
  "number_ok s \<longleftrightarrow> (case s of [] \<Rightarrow> False | c # cs \<Rightarrow>
     (case Option.bind (number_start c) (\<lambda>p. number_run p cs) of Some q \<Rightarrow> number_end q | None \<Rightarrow> False))"

fun set_number :: "json \<Rightarrow> string \<Rightarrow> string option" where
  "set_number (JNum s) old = Some s"
| "set_number (JStr s) old = (if number_ok (unquote s) then Some (unquote s) else None)"
| "set_number JNull old = Some old"
| "set_number _ old = None"

text \<open>A map of strings, its keys in order.\<close>

definition json_Marshal :: "(string \<times> string) list \<Rightarrow> 'e + string" where
  "json_Marshal members =
     Inr (print_json (JObj (map (\<lambda>(k, v). (quote_json k, json_of_string v)) (sort_key fst members))))"

section \<open>Lemmas on strings\<close>

fun raw_run :: "string_pos \<Rightarrow> string \<Rightarrow> string_pos option" where
  "raw_run p [] = Some p"
| "raw_run p (c # s) =
     (if c = dquote \<and> p = SPlain then None
      else case string_step c p of Some p' \<Rightarrow> raw_run p' s | None \<Rightarrow> None)"

definition raw_ok :: "string \<Rightarrow> bool" where
  "raw_ok s \<longleftrightarrow> raw_run SPlain s = Some SPlain"

lemma raw_run_append: "raw_run p (a @ b) = Option.bind (raw_run p a) (\<lambda>q. raw_run q b)"
  by (induction a arbitrary: p) (auto split: option.split)

lemma raw_ok_append: "raw_ok a \<Longrightarrow> raw_ok b \<Longrightarrow> raw_ok (a @ b)"
  by (simp add: raw_ok_def raw_run_append)

lemma raw_ok_Nil [simp]: "raw_ok []"
  by (simp add: raw_ok_def)

lemma byte_special [simp]: "byte dquote = 34" "byte backslash = 92" "dquote \<noteq> backslash" "backslash \<noteq> dquote"
  "dquote \<noteq> CHR ''u''" "backslash \<noteq> CHR ''u''"
  by (simp_all add: byte_def dquote_def backslash_def)

lemma raw_ok_plain: "c \<noteq> dquote \<Longrightarrow> c \<noteq> backslash \<Longrightarrow> 32 \<le> byte c \<Longrightarrow> raw_ok (c # s) = raw_ok s"
  by (simp add: raw_ok_def)

lemma raw_ok_high: "list_all (\<lambda>c. 128 \<le> byte c) a \<Longrightarrow> raw_ok a"
proof (induction a)
  case (Cons c a)
  then have "c \<noteq> dquote" "c \<noteq> backslash" by auto
  with Cons show ?case by (simp add: raw_ok_plain)
qed simp

lemma scan_string:
  "raw_run p s = Some SPlain \<Longrightarrow>
   json_scan (s @ dquote # rest) (InString k pre p) st
     = json_scan rest (if k then AtColon (pre @ s) else AtEnd (JStr (pre @ s))) st"
proof (induction s arbitrary: p pre)
  case (Cons c s)
  then show ?case by (auto split: option.splits if_splits)
qed simp

lemma hexdigit_value: "n < 16 \<Longrightarrow> hex_value (hexdigit n) = Some n"
proof -
  assume n: "n < 16"
  then have "byte (hexdigit n) = (if n < 10 then 48 + n else 87 + n)"
    by (simp add: hexdigit_def byte_char_of)
  with n show ?thesis by (simp add: hex_value_def)
qed

text \<open>A valid sequence is one ASCII byte or two to four others, and what follows does not matter.\<close>

definition lead3 :: "char \<Rightarrow> char \<Rightarrow> bool" where
  "lead3 a b \<longleftrightarrow> in_range (if byte a = 224 then 160 else 128) (if byte a = 237 then 159 else 191) b"

definition lead4 :: "char \<Rightarrow> char \<Rightarrow> bool" where
  "lead4 a b \<longleftrightarrow> in_range (if byte a = 240 then 144 else 128) (if byte a = 244 then 143 else 191) b"

lemma utf8_len_lead:
  "byte a < 128 \<Longrightarrow> utf8_len (a # s) = Some 1"
  "in_range 194 223 a \<Longrightarrow> utf8_len (a # s) = (case s of b # _ \<Rightarrow> if cont_byte b then Some 2 else None | _ \<Rightarrow> None)"
  "in_range 224 239 a \<Longrightarrow> utf8_len (a # s) =
     (case s of b # c # _ \<Rightarrow> if lead3 a b \<and> cont_byte c then Some 3 else None | _ \<Rightarrow> None)"
  "in_range 240 244 a \<Longrightarrow> utf8_len (a # s) =
     (case s of b # c # d # _ \<Rightarrow> if lead4 a b \<and> cont_byte c \<and> cont_byte d then Some 4 else None | _ \<Rightarrow> None)"
  unfolding utf8_len.simps lead3_def lead4_def by (simp_all only: in_range_def split: if_split) auto

lemma utf8_len_lead_cases:
  "utf8_len (a # s) = Some n \<Longrightarrow> byte a < 128 \<or> in_range 194 223 a \<or> in_range 224 239 a \<or> in_range 240 244 a"
  by (simp only: utf8_len.simps split: if_splits) simp_all

lemma lead_high: "lead3 a b \<Longrightarrow> 128 \<le> byte b" "lead4 a b \<Longrightarrow> 128 \<le> byte b"
  by (auto simp: lead3_def lead4_def in_range_def split: if_splits)

declare utf8_len.simps(2) [simp del]

lemma utf8_len_cases:
  assumes "utf8_len s = Some n"
  obtains (ascii) a t where "s = a # t" "byte a < 128" "n = 1"
  | (wide) r t where "s = r @ t" "n = length r" "2 \<le> n" "list_all (\<lambda>c. 128 \<le> byte c) r"
      "\<And>t'. utf8_len (r @ t') = Some n"
proof -
  from assms obtain a s1 where s: "s = a # s1" by (cases s) auto
  note L = assms [unfolded s]
  from utf8_len_lead_cases [OF L] consider "byte a < 128" | "in_range 194 223 a" | "in_range 224 239 a"
    | "in_range 240 244 a" by blast
  then show thesis
  proof cases
    case 1
    with L s ascii show thesis by (simp add: utf8_len_lead)
  next
    case 2
    with L obtain b t where "s1 = b # t" "cont_byte b" "n = 2"
      by (auto simp: utf8_len_lead split: list.splits if_splits)
    with 2 s wide [of "[a, b]" t] show thesis by (simp add: utf8_len_lead) (simp add: in_range_def)
  next
    case 3
    with L obtain b c t where "s1 = b # c # t" "n = 3" "cont_byte c" "lead3 a b"
      by (auto simp: utf8_len_lead split: list.splits if_splits)
    with 3 s wide [of "[a, b, c]" t] lead_high(1) [of a b] show thesis
      by (simp add: utf8_len_lead) (simp add: in_range_def)
  next
    case 4
    with L obtain b c d t where "s1 = b # c # d # t" "n = 4" "cont_byte c" "cont_byte d" "lead4 a b"
      by (auto simp: utf8_len_lead split: list.splits if_splits)
    with 4 s wide [of "[a, b, c, d]" t] lead_high(2) [of a b] show thesis
      by (simp add: utf8_len_lead) (simp add: in_range_def)
  qed
qed

lemma to_valid_simps [simp]:
  "to_valid [] = []" "byte a < 128 \<Longrightarrow> to_valid (a # t) = a # to_valid t"
  "utf8_len (a # t) = None \<Longrightarrow> to_valid (a # t) = rune_error @ to_valid t"
  by (simp_all add: to_valid.simps [of "[]"] to_valid.simps [of "a # t"] utf8_len_lead(1) del: to_valid.simps)

lemma to_valid_wide: "utf8_len (r @ t) = Some (length r) \<Longrightarrow> 2 \<le> length r \<Longrightarrow> to_valid (r @ t) = r @ to_valid t"
  by (subst to_valid.simps) (cases r; simp)

lemma unquote_simps [simp]:
  "unquote [] = []" "byte a < 128 \<Longrightarrow> a \<noteq> backslash \<Longrightarrow> unquote (a # t) = a # unquote t"
  "utf8_len (a # t) = None \<Longrightarrow> a \<noteq> backslash \<Longrightarrow> unquote (a # t) = rune_error @ unquote t"
  by (simp_all add: unquote.simps [of "[]"] unquote.simps [of "a # t"] utf8_len_lead(1))

lemma unquote_wide:
  assumes "utf8_len (r @ t) = Some (length r)" "2 \<le> length r" "list_all (\<lambda>c. 128 \<le> byte c) r"
  shows "unquote (r @ t) = r @ unquote t"
proof -
  from assms(2) obtain a r' where r: "r = a # r'" by (cases r) auto
  with assms(3) have "a \<noteq> backslash" by auto
  with assms r show ?thesis by (subst unquote.simps) simp
qed

lemma getu4_escape:
  "hex_value a = Some w \<Longrightarrow> hex_value b = Some x \<Longrightarrow> hex_value c = Some y \<Longrightarrow> hex_value d = Some z \<Longrightarrow>
   getu4 (backslash # CHR ''u'' # a # b # c # d # t) = Some (((w * 16 + x) * 16 + y) * 16 + z)"
  by (simp add: getu4_def u4_def)

lemma getu4_other: "e \<noteq> CHR ''u'' \<Longrightarrow> getu4 (backslash # e # t) = None"
  by (auto simp: getu4_def split: list.split)

lemma unquote_simple:
  "simple_escape e = Some x \<Longrightarrow> unquote (backslash # e # t) = x # unquote t"
proof -
  assume e: "simple_escape e = Some x"
  then have "e \<noteq> CHR ''u''" by (auto simp: simple_escape_def dquote_def backslash_def)
  with e show ?thesis by (subst unquote.simps) (simp add: getu4_other)
qed

lemma unquote_u:
  assumes "getu4 (backslash # CHR ''u'' # a # b # c # d # t) = Some r" "r < 55296 \<or> 57344 \<le> r"
  shows "unquote (backslash # CHR ''u'' # a # b # c # d # t) = utf8_encode r @ unquote t"
  using assms by (subst unquote.simps) (auto simp: unescape_u_def)

lemma utf8_encode_ascii: "r < 128 \<Longrightarrow> utf8_encode r = [char_of r]"
  by (simp add: utf8_encode_def bytes_of_def)

lemma simple_escape_values:
  "simple_escape dquote = Some dquote" "simple_escape backslash = Some backslash"
  "simple_escape (CHR ''b'') = Some (char_of (8 :: nat))" "simple_escape (CHR ''f'') = Some (char_of (12 :: nat))"
  "simple_escape (CHR ''n'') = Some (char_of (10 :: nat))" "simple_escape (CHR ''r'') = Some (char_of (13 :: nat))"
  "simple_escape (CHR ''t'') = Some (char_of (9 :: nat))"
  by (simp_all add: simple_escape_def dquote_def backslash_def)

lemma unquote_escape_byte:
  assumes "byte c < 128" "\<not> html_safe c"
  shows "unquote (escape_byte c @ t) = c # unquote t"
proof -
  have c: "char_of n = c \<longleftrightarrow> byte c = n" if "n < 256" for n
    using that byte_inject [of "char_of n" c] by (auto simp: byte_char_of)
  show ?thesis
  proof (cases "c = dquote \<or> c = backslash \<or> byte c \<in> {8, 12, 10, 13, 9}")
    case True
    then show ?thesis
      by (auto simp: escape_byte_def unquote_simple [OF simple_escape_values(1)] unquote_simple [OF simple_escape_values(2)] unquote_simple [OF simple_escape_values(3)]
          unquote_simple [OF simple_escape_values(4)] unquote_simple [OF simple_escape_values(5)] unquote_simple [OF simple_escape_values(6)] unquote_simple [OF simple_escape_values(7)] c)
  next
    case False
    have z: "hex_value (CHR ''0'') = Some 0" by (simp add: hex_value_def byte_def)
    have "getu4 (backslash # CHR ''u'' # CHR ''0'' # CHR ''0'' # hexdigit (byte c div 16) # hexdigit (byte c mod 16) # t)
        = Some (byte c)"
      using assms(1) by (simp add: getu4_escape [OF z z hexdigit_value hexdigit_value])
    from unquote_u [OF this] assms(1) have
      "unquote (backslash # CHR ''u'' # CHR ''0'' # CHR ''0'' # hexdigit (byte c div 16) # hexdigit (byte c mod 16) # t)
        = c # unquote t"
      by (simp add: utf8_encode_ascii) (simp add: byte_def)
    with False show ?thesis by (simp add: escape_byte_def)
  qed
qed

lemma line_separators_eq: "line_separators = [bytes_of [226, 128, 168], bytes_of [226, 128, 169]]"
  by (simp add: line_separators_def utf8_encode_def)

lemma quote_simps [simp]:
  "quote_json [] = []"
  "byte a < 128 \<Longrightarrow> quote_json (a # t) = (if html_safe a then [a] else escape_byte a) @ quote_json t"
  by (simp_all add: quote_json.simps [of "[]"] quote_json.simps [of "a # t"])

lemma quote_bad:
  "\<not> byte a < 128 \<Longrightarrow> utf8_len (a # t) = None \<Longrightarrow> quote_json (a # t) = backslash # ''ufffd'' @ quote_json t"
  by (simp add: quote_json.simps [of "a # t"])

lemma quote_wide:
  assumes "utf8_len (r @ t) = Some (length r)" "2 \<le> length r" "list_all (\<lambda>c. 128 \<le> byte c) r"
  shows "quote_json (r @ t) =
    (if r \<in> set line_separators then backslash # ''u202'' @ [hexdigit (byte (last r) mod 16)] else r) @ quote_json t"
proof -
  from assms(2) obtain a r' where r: "r = a # r'" by (cases r) auto
  with assms(3) have "\<not> byte a < 128" by simp
  with assms r show ?thesis by (subst quote_json.simps) (simp add: Let_def)
qed

text \<open>The induction the string functions share: an ASCII byte, a byte that starts nothing valid, a sequence.\<close>

lemma utf8_induct [case_names Nil ascii bad wide]:
  assumes "P []"
    and "\<And>a t. byte a < 128 \<Longrightarrow> P t \<Longrightarrow> P (a # t)"
    and "\<And>a t. \<not> byte a < 128 \<Longrightarrow> utf8_len (a # t) = None \<Longrightarrow> P t \<Longrightarrow> P (a # t)"
    and "\<And>r t. utf8_len (r @ t) = Some (length r) \<Longrightarrow> 2 \<le> length r \<Longrightarrow> list_all (\<lambda>c. 128 \<le> byte c) r
      \<Longrightarrow> (\<And>t'. utf8_len (r @ t') = Some (length r)) \<Longrightarrow> P t \<Longrightarrow> P (r @ t)"
  shows "P s"
proof (induction "length s" arbitrary: s rule: less_induct)
  case less
  show ?case
  proof (cases s)
    case (Cons a t)
    show ?thesis
    proof (cases "utf8_len s")
      case None
      with Cons have "\<not> byte a < 128" by (auto simp: utf8_len_lead)
      with None Cons less assms(3) show ?thesis by simp
    next
      case (Some n)
      then show ?thesis
      proof (cases rule: utf8_len_cases)
        case (ascii b u)
        with less assms(2) show ?thesis by simp
      next
        case (wide r u)
        then have "length u < length s" by (cases r) auto
        from less [OF this] wide assms(4) [of r u] Some show ?thesis by simp
      qed
    qed
  qed (use assms(1) in simp)
qed

text \<open>What a quoted string reads back as: itself, with every byte that is not UTF-8 replaced.\<close>

lemma unquote_quote: "unquote (quote_json s @ t) = to_valid s @ unquote t"
proof (induction s rule: utf8_induct)
  case (ascii a s)
  show ?case
  proof (cases "html_safe a")
    case True
    then have "a \<noteq> backslash" by (auto simp: html_safe_def)
    with ascii True show ?thesis by simp
  next
    case False
    with ascii show ?thesis by (simp add: unquote_escape_byte)
  qed
next
  case (bad a s)
  have "getu4 (backslash # CHR ''u'' # CHR ''f'' # CHR ''f'' # CHR ''f'' # CHR ''d'' # u) = Some 65533" for u
    by (subst getu4_escape [of _ 15 _ 15 _ 15 _ 13]) (simp_all add: hex_value_def byte_def)
  from unquote_u [OF this] bad show ?case by (simp add: quote_bad rune_error_def)
next
  case (wide r s)
  show ?case
  proof (cases "r \<in> set line_separators")
    case True
    then consider "r = bytes_of [226, 128, 168 + 0]" | "r = bytes_of [226, 128, 168 + 1]"
      by (auto simp: line_separators_eq)
    then obtain k where k: "r = bytes_of [226, 128, 168 + k]" "k = 0 \<or> k = 1" by cases blast+
    have h: "hex_value (CHR ''2'') = Some 2" "hex_value (CHR ''0'') = Some 0"
      "hex_value (hexdigit (8 + k)) = Some (8 + k)"
      using k(2) by (auto simp: hex_value_def byte_def hexdigit_def)
    have last: "byte (last r) mod 16 = 8 + k" using k by (auto simp: bytes_of_def byte_char_of)
    have enc: "utf8_encode (8232 + k) = r" using k by (auto simp: utf8_encode_def)
    have g: "getu4 (backslash # CHR ''u'' # CHR ''2'' # CHR ''0'' # CHR ''2'' # hexdigit (8 + k) # u) = Some (8232 + k)" for u
      using getu4_escape [OF h(1) h(2) h(1) h(3)] by simp
    have "unquote (backslash # CHR ''u'' # CHR ''2'' # CHR ''0'' # CHR ''2'' # hexdigit (8 + k) # u) = r @ unquote u" for u
      using unquote_u [OF g] k(2) enc by auto
    with True wide last show ?thesis
      by (simp add: quote_wide [OF wide(1-3)] to_valid_wide [OF wide(1,2)])
  next
    case False
    with wide show ?thesis
      by (simp add: quote_wide [OF wide(1-3)] to_valid_wide [OF wide(1,2)] unquote_wide [OF wide(4,2,3)])
  qed
qed simp

lemma raw_ok_simple: "simple_escape e = Some x \<Longrightarrow> raw_ok [backslash, e]"
  by (auto simp: raw_ok_def simple_escape_def split: if_splits)

lemma raw_ok_u:
  assumes "hex_value a \<noteq> None" "hex_value b \<noteq> None" "hex_value c \<noteq> None" "hex_value d \<noteq> None"
  shows "raw_ok [backslash, CHR ''u'', a, b, c, d]"
  using assms by (simp add: raw_ok_def)

lemma raw_ok_escape_byte: "byte c < 128 \<Longrightarrow> raw_ok (escape_byte c)"
proof -
  assume c: "byte c < 128"
  have z: "hex_value (CHR ''0'') \<noteq> None" by (simp add: hex_value_def byte_def)
  have h: "hex_value (hexdigit (byte c div 16)) \<noteq> None" "hex_value (hexdigit (byte c mod 16)) \<noteq> None"
    using c by (simp_all add: hexdigit_value)
  show ?thesis
    unfolding escape_byte_def using raw_ok_u [OF z z h]
    by (auto intro: raw_ok_simple [OF simple_escape_values(1)] raw_ok_simple [OF simple_escape_values(2)]
        raw_ok_simple [OF simple_escape_values(3)] raw_ok_simple [OF simple_escape_values(4)]
        raw_ok_simple [OF simple_escape_values(5)] raw_ok_simple [OF simple_escape_values(6)]
        raw_ok_simple [OF simple_escape_values(7)])
qed

lemma raw_ok_quote: "raw_ok (quote_json s)"
proof (induction s rule: utf8_induct)
  case (ascii a s)
  have "raw_ok (if html_safe a then [a] else escape_byte a)"
    using ascii raw_ok_escape_byte by (auto simp: html_safe_def raw_ok_plain)
  with ascii show ?case by (simp add: raw_ok_append)
next
  case (bad a s)
  have "raw_ok (backslash # ''ufffd'')" by (rule raw_ok_u) (simp_all add: hex_value_def byte_def)
  from raw_ok_append [OF this bad(3)] bad show ?case by (simp add: quote_bad)
next
  case (wide r s)
  have d: "hex_value (CHR ''2'') \<noteq> None" and d0: "hex_value (CHR ''0'') \<noteq> None"
    by (simp_all add: hex_value_def byte_def)
  have "raw_ok (backslash # ''u202'' @ [hexdigit n])" if "n < 16" for n
    using raw_ok_u [OF d d0 d, of "hexdigit n"] that by (simp add: hexdigit_value)
  from raw_ok_append [OF this wide(5)] raw_ok_append [OF raw_ok_high [OF wide(3)] wide(5)] wide
  show ?case by (simp add: quote_wide [OF wide(1-3)])
qed simp

section \<open>Lemmas on scanning\<close>

text \<open>Values whose texts are texts of JSON.\<close>

fun json_ok :: "json \<Rightarrow> bool" and elems_ok :: "json list \<Rightarrow> bool"
  and members_ok :: "(string \<times> json) list \<Rightarrow> bool" where
  "json_ok (JNum s) = number_ok s"
| "json_ok (JStr s) = raw_ok s"
| "json_ok (JArr vs) = elems_ok vs"
| "json_ok (JObj ms) = members_ok ms"
| "json_ok JNull = True"
| "json_ok (JBool b) = True"
| "elems_ok [] = True"
| "elems_ok (v # vs) = (json_ok v \<and> elems_ok vs)"
| "members_ok [] = True"
| "members_ok (m # ms) = (raw_ok (fst m) \<and> json_ok (snd m) \<and> members_ok ms)"

fun json_depth :: "json \<Rightarrow> nat" and elems_depth :: "json list \<Rightarrow> nat"
  and members_depth :: "(string \<times> json) list \<Rightarrow> nat" where
  "json_depth (JArr vs) = Suc (elems_depth vs)"
| "json_depth (JObj ms) = Suc (members_depth ms)"
| "json_depth JNull = 0"
| "json_depth (JBool b) = 0"
| "json_depth (JNum s) = 0"
| "json_depth (JStr s) = 0"
| "elems_depth [] = 0"
| "elems_depth (v # vs) = max (json_depth v) (elems_depth vs)"
| "members_depth [] = 0"
| "members_depth (m # ms) = max (json_depth (snd m)) (members_depth ms)"

definition closers :: "char set" where
  "closers = {CHR '','', CHR '']'', CHR ''}''}"

lemma closers_step: "c \<in> closers \<Longrightarrow> number_step c p = None"
  by (cases p) (auto simp: closers_def is_digit_def is_exp_def byte_def)

lemma scan_number_run:
  "number_run p s = Some q \<Longrightarrow> json_scan (s @ rest) (InNumber p pre) st = json_scan rest (InNumber q (pre @ s)) st"
  by (induction s arbitrary: p pre) (auto split: option.splits)

lemma begin_number:
  assumes "number_start c = Some p"
  shows "begin_value c st = More (InNumber p [c]) st"
proof -
  from assms have "c = CHR ''-'' \<or> is_digit c"
    by (auto simp: number_start_def is_digit_def byte_def split: if_splits)
  then have "\<not> json_space c" "c \<notin> {CHR ''{'', CHR ''['', dquote, CHR ''t'', CHR ''f'', CHR ''n''}"
    by (auto simp: json_space_def is_digit_def byte_def dquote_def)
  with assms show ?thesis by (simp add: begin_value_def)
qed

lemma scan_number:
  assumes "number_ok s" "c \<in> closers"
  shows "json_scan (s @ c # rest) AtValue st = json_scan (c # rest) (AtEnd (JNum s)) st"
proof -
  from assms(1) obtain d ds p q where s: "s = d # ds" "number_start d = Some p" "number_run p ds = Some q" "number_end q"
    by (auto simp: number_ok_def bind_eq_Some_conv split: list.splits option.splits)
  then show ?thesis
    using scan_number_run [OF s(3), of "c # rest" "[d]" st] closers_step [OF assms(2)] by (simp add: begin_number)
qed

lemma scan_literal:
  "s \<noteq> [] \<Longrightarrow> json_scan (s @ rest) (InLiteral s v) st = json_scan rest (AtEnd v) st"
  by (induction s) auto

lemma begin_chars [simp]:
  "begin_value (CHR ''n'') st = More (InLiteral ''ull'' JNull) st"
  "begin_value (CHR ''t'') st = More (InLiteral ''rue'' (JBool True)) st"
  "begin_value (CHR ''f'') st = More (InLiteral ''alse'' (JBool False)) st"
  "begin_value dquote st = More (InString False [] SPlain) st"
  "begin_value (CHR ''['') st = push_frame (FArr []) AtFirst st"
  "begin_value (CHR ''{'') st = push_frame (FObj [] []) (AtKey True) st"
  by (simp_all add: begin_value_def json_space_def byte_def dquote_def)

lemma punctuation [simp]:
  "\<not> json_space (CHR '','')" "\<not> json_space (CHR '']'')" "\<not> json_space (CHR ''}'')" "\<not> json_space (CHR '':'')"
  "\<not> json_space dquote" "dquote \<noteq> CHR ''}''"
  by (simp_all add: json_space_def byte_def dquote_def)

text \<open>The first byte of a value is neither a space nor a closing bracket.\<close>

lemma scan_first:
  assumes "json_ok v"
  shows "json_scan (print_json v @ rest) AtFirst st = json_scan (print_json v @ rest) AtValue st"
proof -
  have "json_scan (c # s) AtFirst st = json_scan (c # s) AtValue st" if "\<not> json_space c" "c \<noteq> CHR '']''" for c s
    using that by simp
  moreover have "\<exists>c s. print_json v = c # s \<and> \<not> json_space c \<and> c \<noteq> CHR '']''"
  proof (cases v)
    case (JNum s)
    with assms obtain d ds p where "s = d # ds" "number_start d = Some p"
      by (auto simp: number_ok_def bind_eq_Some_conv split: list.splits option.splits)
    with JNum show ?thesis
      by (auto simp: number_start_def json_space_def is_digit_def byte_def split: if_splits)
  qed (auto simp: json_space_def byte_def dquote_def)
  ultimately show ?thesis by (metis append_Cons)
qed

definition scan_closed :: "json \<Rightarrow> frame list \<Rightarrow> string \<Rightarrow> scanned" where
  "scan_closed v st rest = (if st = [] then Scanned v rest else json_scan rest (AtEnd v) st)"

lemma close_scan_closed:
  "(case close_value v st of More p' st' \<Rightarrow> json_scan rest p' st' | Stop \<Rightarrow> SyntaxError
      | Whole v used \<Rightarrow> Scanned v (if used then rest else c # rest)) = scan_closed v st rest"
  by (simp add: close_value_def scan_closed_def)

text \<open>Scanning what was printed.\<close>

lemma scan_print:
  shows "json_ok v \<Longrightarrow> json_depth v + length st \<le> maxNestingDepth \<Longrightarrow> st \<noteq> [] \<Longrightarrow> c \<in> closers \<Longrightarrow>
      json_scan (print_json v @ c # rest) AtValue st = json_scan (c # rest) (AtEnd v) st"
    and "elems_ok vs \<Longrightarrow> elems_depth vs + length st < maxNestingDepth \<Longrightarrow> vs \<noteq> [] \<Longrightarrow>
      json_scan (print_elems vs @ CHR '']'' # rest) AtValue (FArr us # st) = scan_closed (JArr (us @ vs)) st rest"
    and "members_ok ms \<Longrightarrow> members_depth ms + length st < maxNestingDepth \<Longrightarrow> ms \<noteq> [] \<Longrightarrow>
      json_scan (print_members ms @ CHR ''}'' # rest) (AtKey b) (FObj ns [] # st) = scan_closed (JObj (ns @ ms)) st rest"
proof (induction v and vs and ms arbitrary: st c rest and st us rest and st ns b rest
    rule: print_json_print_elems_print_members.induct)
  case (5 vs)
  show ?case
  proof (cases vs)
    case Nil
    with 5 show ?thesis by (simp add: push_frame_def close_value_def)
  next
    case (Cons v ws)
    then have "json_scan (print_elems vs @ CHR '']'' # c # rest) AtFirst (FArr [] # st)
        = json_scan (print_elems vs @ CHR '']'' # c # rest) AtValue (FArr [] # st)"
      using 5(2) by (simp add: scan_first)
    with 5 Cons show ?thesis by (simp add: push_frame_def scan_closed_def)
  qed
next
  case (6 ms)
  then show ?case by (cases ms) (simp_all add: push_frame_def close_value_def scan_closed_def)
next
  case (8 v vs)
  show ?case
  proof (cases "vs = []")
    case True
    with 8 show ?thesis by (simp add: close_scan_closed closers_def)
  next
    case False
    with 8 show ?thesis by (simp add: closers_def)
  qed
next
  case (10 m ms)
  have key: "json_scan (fst m @ dquote # CHR '':'' # s) (InString True [] SPlain) (FObj ns [] # st)
      = json_scan s AtValue (FObj ns (fst m) # st)" for s
    using 10 scan_string [of SPlain "fst m" "CHR '':'' # s" True "[]"] by (simp add: raw_ok_def)
  show ?case
  proof (cases "ms = []")
    case True
    with 10 key show ?thesis by (simp add: close_scan_closed closers_def)
  next
    case False
    with 10 key show ?thesis by (simp add: closers_def)
  qed
qed (simp_all add: scan_number scan_literal scan_string raw_ok_def)

lemma scan_object:
  assumes "json_ok (JObj ms)" "json_depth (JObj ms) \<le> maxNestingDepth"
  shows "json_scan (print_json (JObj ms) @ rest) AtValue [] = Scanned (JObj ms) rest"
proof (cases "ms = []")
  case True
  then show ?thesis by (simp add: push_frame_def maxNestingDepth_def close_value_def)
next
  case False
  with assms scan_print(3) [of ms "[]" rest True "[]"] show ?thesis
    by (simp add: push_frame_def maxNestingDepth_def scan_closed_def)
qed

text \<open>The machine reads a text in pieces.\<close>

lemma scan_append:
  "json_scan (a @ b) p st =
     (case json_scan a p st of
        Scanned v rest \<Rightarrow> Scanned v (rest @ b)
      | SyntaxError \<Rightarrow> SyntaxError
      | Unfinished p' st' \<Rightarrow> json_scan b p' st')"
  by (induction a arbitrary: p st) (auto split: scan_step.split)

lemma scan_prefix:
  assumes "json_scan s AtValue [] = Scanned v []" "n < length s"
  shows "\<exists>p st. json_scan (take n s) AtValue [] = Unfinished p st"
  using assms scan_append [of "take n s" "drop n s" AtValue "[]"]
  by (cases "json_scan (take n s) AtValue []") auto

text \<open>A body that is one object: read when it fits, too large when it does not.\<close>

lemma Decoder_Decode_object:
  assumes "json_ok (JObj ms)" "json_depth (JObj ms) \<le> maxNestingDepth"
  shows "Decoder_Decode limit (print_json (JObj ms)) =
    (if length (print_json (JObj ms)) \<le> limit then GoodJSON (JObj ms) else OverLimit)"
proof -
  have s: "json_scan (print_json (JObj ms)) AtValue [] = Scanned (JObj ms) []"
    using scan_object [OF assms, of "[]"] by simp
  show ?thesis
  proof (cases "length (print_json (JObj ms)) \<le> limit")
    case False
    with scan_prefix [OF s, of limit] show ?thesis by (auto simp: Decoder_Decode_def)
  qed (use s in \<open>simp add: Decoder_Decode_def\<close>)
qed

lemma Unmarshal_object:
  assumes "json_ok (JObj ms)" "json_depth (JObj ms) \<le> maxNestingDepth" "list_all json_space rest"
  shows "Unmarshal_value (print_json (JObj ms) @ rest) = Some (JObj ms)"
  using assms(3) by (simp only: Unmarshal_value_def scan_object [OF assms(1,2)]) simp

lemma json_ok_string [simp]: "json_ok (json_of_string s)" "json_depth (json_of_string s) = 0"
  by (simp_all add: json_of_string_def raw_ok_quote)

lemma number_run_digits: "list_all is_digit s \<Longrightarrow> number_run NInt s = Some NInt"
  by (induction s) auto

lemma itoa_nat_head: "0 < n \<Longrightarrow> hd (itoa_nat n) \<noteq> CHR ''0''"
proof (induction n rule: itoa_nat.induct)
  case (1 n)
  show ?case
  proof (cases "n < 10")
    case True
    then have "byte (char_of (48 + n)) = 48 + n" by (simp add: byte_char_of)
    moreover have "byte (CHR ''0'') = 48" by (simp add: byte_def)
    ultimately have "char_of (48 + n) \<noteq> CHR ''0''" using 1(2) by auto
    with True show ?thesis by (simp add: itoa_nat.simps [of n])
  next
    case False
    with 1 itoa_nat_parse [of "n div 10"] show ?thesis by (simp add: itoa_nat.simps [of n])
  qed
qed

lemma number_run_nat:
  "\<exists>q. Option.bind (number_step (hd (itoa_nat n)) NSign) (\<lambda>p. number_run p (tl (itoa_nat n))) = Some q \<and> number_end q"
proof (cases "n = 0")
  case True
  have "itoa_nat 0 = ''0''" by code_simp
  with True show ?thesis by (simp add: number_end_def)
next
  case False
  obtain c cs where c: "itoa_nat n = c # cs" using itoa_nat_parse [of n] by (cases "itoa_nat n") auto
  then show ?thesis
    using itoa_nat_parse [of n] itoa_nat_head [of n] False number_run_digits [of cs] by (auto simp: number_end_def)
qed

lemma number_ok_int [simp]: "json_ok (json_of_int i)" "json_depth (json_of_int i) = 0"
proof -
  have ok: "number_ok (itoa_nat n)" for n
  proof -
    obtain c cs where c: "itoa_nat n = c # cs" using itoa_nat_parse [of n] by (cases "itoa_nat n") auto
    moreover have "is_digit c" using itoa_nat_parse [of n] c by simp
    then have "c \<noteq> CHR ''-''" by (auto simp: is_digit_def byte_def)
    ultimately show ?thesis using number_run_nat [of n]
      by (elim exE) (simp add: number_ok_def number_start_def del: number_step.simps)
  qed
  have neg: "number_ok (CHR ''-'' # itoa_nat n)" for n
    using number_run_nat [of n] itoa_nat_parse [of n]
    by (cases "itoa_nat n")
      (auto simp: number_ok_def number_start_def bind_eq_Some_conv simp del: number_step.simps split: option.split)
  show "json_ok (json_of_int i)" "json_depth (json_of_int i) = 0"
    using ok neg by (simp_all add: json_of_int_def itoa_def)
qed

lemma members_ok_append [simp]: "members_ok (a @ b) = (members_ok a \<and> members_ok b)"
  by (induction a) auto

lemma members_depth_append [simp]: "members_depth (a @ b) = max (members_depth a) (members_depth b)"
  by (induction a) auto

lemma unquote_json_string: "unquote (quote_json s) = to_valid s"
  using unquote_quote [of s "[]"] by simp

text \<open>Names of plain ASCII letters.\<close>

definition plain_name :: "string \<Rightarrow> bool" where
  "plain_name s \<longleftrightarrow> list_all (\<lambda>c. byte c < 128 \<and> html_safe c) s"

lemma plain_string:
  assumes "plain_name s"
  shows "unquote s = s" "quote_json s = s" "to_valid s = s" "raw_ok s"
  using assms
proof (induction s)
  case (Cons c s)
  case 1
  from 1 have "c \<noteq> backslash" by (auto simp: plain_name_def html_safe_def)
  with 1 Cons show ?case by (simp add: plain_name_def)
next
  case (Cons c s)
  case 4
  from 4 have "c \<noteq> backslash" "c \<noteq> dquote" "32 \<le> byte c" by (auto simp: plain_name_def html_safe_def)
  with 4 Cons show ?case by (simp add: plain_name_def raw_ok_plain)
qed (simp_all add: plain_name_def)

lemma fold_name_ascii: "list_all (\<lambda>c. byte c < 128) s \<Longrightarrow> fold_name s = map upper_char s"
  by (induction s rule: fold_name.induct) (auto simp: bytes_of_def byte_char_of)

lemma same_name_plain:
  assumes "plain_name k"
  shows "same_name k f \<longleftrightarrow> map upper_char k = map upper_char f"
proof -
  have "list_all (\<lambda>c. byte c < 128) k" using assms by (simp add: plain_name_def list_all_iff)
  with assms show ?thesis by (simp add: same_name_def plain_string fold_name_ascii)
qed

end
