(* ===== verification/HttpApi.thy ===== *)
theory HttpApi
  imports UseCases Worker Json
begin

text \<open>
  \<open>internal/api/http\<close>: the wire objects, the handlers, the middleware and the router. A
  handler is a function of the request, the server state and the response written so far. Bodies
  of responses are the values given to the JSON encoder, whose text \<open>Encode\<close> is; \<open>uuid.Parse\<close>,
  \<open>StringFixed\<close>, the text of an instant and the readiness probe are parameters.
\<close>

section \<open>Requests, responses, server state\<close>

record request =
  rq_method :: string
  rq_path :: "string list"
  rq_query :: "string \<Rightarrow> string"
  rq_header :: "string \<Rightarrow> string"
  rq_body :: string
  rq_id :: string

record createUpdateResponse =
  cu_UpdateID :: string
  cu_Pair :: string
  cu_Status :: string
  cu_CreatedAt :: gotime

record quoteRateDTO =
  dto_Price :: string
  dto_QuotedAt :: gotime
  dto_FetchedAt :: gotime
  dto_Provider :: string
  dto_Quality :: string
  dto_Derived :: bool
  dto_Indicative :: bool

record updateStatusResponse =
  us_UpdateID :: string
  us_Pair :: string
  us_Status :: string
  us_rate :: "quoteRateDTO option"
  us_Cached :: "bool option"
  us_Attempts :: int
  us_Error :: "(string \<times> string) option"

datatype body =
  ErrorEnvelope string string
| CreateBody createUpdateResponse
| UpdateBody updateStatusResponse
| LatestBody string quoteRateDTO
| StatusBody string
| TextBody string

text \<open>
  The response writer: headers set before the status line, every \<open>WriteHeader\<close> call (the
  first one counts on the wire) and the bodies written.
\<close>

record response =
  rs_headers :: "(string \<times> string) list"
  rs_codes :: "int list"
  rs_bodies :: "body list"

definition new_response :: response where
  "new_response = \<lparr>rs_headers = [], rs_codes = [], rs_bodies = []\<rparr>"

definition set_header :: "string \<Rightarrow> string \<Rightarrow> response \<Rightarrow> response" where
  "set_header k v w = (if rs_codes w = [] then w\<lparr>rs_headers := AList.update k v (rs_headers w)\<rparr> else w)"

definition write_header :: "int \<Rightarrow> response \<Rightarrow> response" where
  "write_header c w = w\<lparr>rs_codes := rs_codes w @ [c]\<rparr>"

definition wire_status :: "response \<Rightarrow> int" where
  "wire_status w = (case rs_codes w of [] \<Rightarrow> 200 | c # cs \<Rightarrow> c)"

text \<open>A buffered channel of \<open>struct{}\<close>: capacity and length. \<open>None\<close> is a nil channel.\<close>

type_synonym nudge_chan = "(nat \<times> nat) option"

record ('r, 'c) server =
  sv_repo :: 'r
  sv_clock :: 'c
  sv_nudge :: nudge_chan
  sv_ids :: "nat \<Rightarrow> uuid"
  sv_turn :: nat
  sv_log :: "(string \<times> string list \<times> int \<times> string) list"

type_synonym 's handler = "request \<Rightarrow> 's \<Rightarrow> response \<Rightarrow> unit go \<times> 's \<times> response"

record ('r, 'c, 'd) http_env =
  he_repo :: "('r, 'd) Repository_ops"
  he_clock :: "'c Clock_ops"
  he_unicode :: unicode
  he_fmt :: fmt
  he_parse_uuid :: "string \<Rightarrow> uuid option"
  he_StringFixed :: "'d \<Rightarrow> string"
  he_ready :: "('r, 'c) server \<Rightarrow> bool"

section \<open>Wire objects (dto.go)\<close>

definition newCreateUpdateResponse :: "CurrencyRateUpdateRequest \<Rightarrow> createUpdateResponse" where
  "newCreateUpdateResponse req =
     \<lparr>cu_UpdateID = uuid_String (ID req), cu_Pair = Pair_String (Pair req),
      cu_Status = status_string (Status req), cu_CreatedAt = CreatedAt req\<rparr>"

definition newQuoteRateDTO :: "('d \<Rightarrow> string) \<Rightarrow> 'd CurrencyRate \<Rightarrow> quoteRateDTO" where
  "newQuoteRateDTO StringFixed rate =
     \<lparr>dto_Price = StringFixed (Value rate), dto_QuotedAt = QuotedAt rate, dto_FetchedAt = FetchedAt rate,
      dto_Provider = Provider rate, dto_Quality = Quality rate, dto_Derived = Derived rate,
      dto_Indicative = Indicative rate\<rparr>"

definition newLatestQuoteResponse :: "('d \<Rightarrow> string) \<Rightarrow> string \<Rightarrow> 'd CurrencyRate \<Rightarrow> body" where
  "newLatestQuoteResponse StringFixed pair rate = LatestBody pair (newQuoteRateDTO StringFixed rate)"

definition safeErrorMessages :: "(string \<times> string) list" where
  "safeErrorMessages =
     [(error_code_string InvalidRequestError, ''the request was invalid''),
      (error_code_string UnsupportedPairError, ''no rate available for this pair''),
      (error_code_string AuthError, ''the upstream provider rejected the request''),
      (error_code_string QuotaExceededError, ''the upstream provider's quota is exhausted''),
      (error_code_string RateLimitedError, ''rate limited; retry later''),
      (error_code_string ProviderUnavailableError, ''the upstream provider is unavailable''),
      (error_code_string UnclassifiedProviderError, ''the upstream provider returned an error''),
      (error_code_string MalformedResponseError,
         ''the upstream provider returned an unexpected response''),
      (error_code_string InternalError, ''an internal error occurred''),
      (AttemptsExhaustedCode, ''giving up after repeated failures'')]"

definition safeErrorMessage :: "string \<Rightarrow> string" where
  "safeErrorMessage code =
     (case map_of safeErrorMessages code of Some msg \<Rightarrow> msg | None \<Rightarrow> ''the update failed'')"

definition newUpdateStatusResponse ::
  "('d \<Rightarrow> string) \<Rightarrow> CurrencyRateUpdateRequest \<Rightarrow> 'd CurrencyRate option \<Rightarrow> updateStatusResponse" where
  "newUpdateStatusResponse StringFixed req rate =
     (let resp = \<lparr>us_UpdateID = uuid_String (ID req), us_Pair = Pair_String (Pair req),
                  us_Status = status_string (Status req), us_rate = None, us_Cached = None,
                  us_Attempts = 0, us_Error = None\<rparr>;
          resp1 = (case rate of None \<Rightarrow> resp
                   | Some r \<Rightarrow> resp\<lparr>us_rate := Some (newQuoteRateDTO StringFixed r)\<rparr>);
          resp2 = (if Status req = StatusSucceeded then resp1\<lparr>us_Cached := Some (Reused req)\<rparr> else resp1)
      in if Status req = StatusFailed
         then resp2\<lparr>us_Attempts := Attempts req,
                    us_Error := Some (ErrorCode req, safeErrorMessage (ErrorCode req))\<rparr>
         else resp2)"

section \<open>The body of a POST\<close>

text \<open>What decoding the body gave: \<open>TooLarge\<close> is a \<open>MaxBytesError\<close>, \<open>Decoded\<close> the field \<open>Pair\<close>.\<close>

datatype decoded = TooLarge | Malformed | Decoded string

definition maxCreateUpdateBodyBytes :: nat where "maxCreateUpdateBodyBytes = 4096"

text \<open>
  The members of the object in their order, \<open>None\<close> once one of them is an error: a key that is no field
  (\<open>DisallowUnknownFields\<close>) or a value that is no string. \<open>null\<close> leaves the field as it is.
\<close>

fun createUpdateRequest_fields :: "(string \<times> json) list \<Rightarrow> string option \<Rightarrow> string option" where
  "createUpdateRequest_fields [] acc = acc"
| "createUpdateRequest_fields ((k, v) # ms) acc =
     createUpdateRequest_fields ms
       (if same_name k ''pair''
        then (case v of JStr s \<Rightarrow> map_option (\<lambda>_. unquote s) acc | JNull \<Rightarrow> acc | _ \<Rightarrow> None)
        else None)"

definition decode_createUpdateRequest :: "string \<Rightarrow> decoded" where
  "decode_createUpdateRequest s =
     (case Decoder_Decode maxCreateUpdateBodyBytes s of
        OverLimit \<Rightarrow> TooLarge
      | BadJSON \<Rightarrow> Malformed
      | GoodJSON v \<Rightarrow>
          (case v of
             JNull \<Rightarrow> Decoded []
           | JObj ms \<Rightarrow> (case createUpdateRequest_fields ms (Some []) of
                          None \<Rightarrow> Malformed | Some pair \<Rightarrow> Decoded pair)
           | _ \<Rightarrow> Malformed))"

section \<open>The text of a response\<close>

text \<open>The members of the objects, by the tags of the structs; \<open>T\<close> is the text of an instant.\<close>

definition error_json :: "string \<Rightarrow> string \<Rightarrow> json" where
  "error_json code message =
     JObj [(''code'', json_of_string code), (''message'', json_of_string message)]"

definition rate_members :: "(gotime \<Rightarrow> string) \<Rightarrow> quoteRateDTO \<Rightarrow> (string \<times> json) list" where
  "rate_members T d =
     [(''price'', json_of_string (dto_Price d)), (''quoted_at'', json_of_string (T (dto_QuotedAt d))),
      (''fetched_at'', json_of_string (T (dto_FetchedAt d))), (''provider'', json_of_string (dto_Provider d)),
      (''quality'', json_of_string (dto_Quality d)), (''derived'', JBool (dto_Derived d)),
      (''indicative'', JBool (dto_Indicative d))]"

definition create_members :: "(gotime \<Rightarrow> string) \<Rightarrow> createUpdateResponse \<Rightarrow> (string \<times> json) list" where
  "create_members T r =
     [(''update_id'', json_of_string (cu_UpdateID r)), (''pair'', json_of_string (cu_Pair r)),
      (''status'', json_of_string (cu_Status r)), (''created_at'', json_of_string (T (cu_CreatedAt r)))]"

definition update_members :: "(gotime \<Rightarrow> string) \<Rightarrow> updateStatusResponse \<Rightarrow> (string \<times> json) list" where
  "update_members T r =
     [(''update_id'', json_of_string (us_UpdateID r)), (''pair'', json_of_string (us_Pair r)),
      (''status'', json_of_string (us_Status r))]
     @ (case us_rate r of None \<Rightarrow> [] | Some d \<Rightarrow> rate_members T d)
     @ (case us_Cached r of None \<Rightarrow> [] | Some b \<Rightarrow> [(''cached'', JBool b)])
     @ (if us_Attempts r = 0 then [] else [(''attempts'', json_of_int (us_Attempts r))])
     @ (case us_Error r of None \<Rightarrow> [] | Some (c, m) \<Rightarrow> [(''error'', error_json c m)])"

fun body_members :: "(gotime \<Rightarrow> string) \<Rightarrow> body \<Rightarrow> (string \<times> json) list" where
  "body_members T (ErrorEnvelope code message) = [(''error'', error_json code message)]"
| "body_members T (CreateBody r) = create_members T r"
| "body_members T (UpdateBody r) = update_members T r"
| "body_members T (LatestBody pair d) = (''pair'', json_of_string pair) # rate_members T d"
| "body_members T (StatusBody s) = [(''status'', json_of_string s)]"
| "body_members T (TextBody s) = []"

text \<open>\<open>json.NewEncoder(w).Encode(v)\<close> ends with a line feed. An instant that has no text (a year beyond 9999) is
  an error of the encoder: \<open>time_text\<close> says which instants do, and nothing is written then.\<close>

definition body_times :: "body \<Rightarrow> gotime list" where
  "body_times b = (let rate = (\<lambda>d. [dto_QuotedAt d, dto_FetchedAt d])
     in case b of
          CreateBody r \<Rightarrow> [cu_CreatedAt r]
        | UpdateBody r \<Rightarrow> (case us_rate r of None \<Rightarrow> [] | Some d \<Rightarrow> rate d)
        | LatestBody _ d \<Rightarrow> rate d
        | _ \<Rightarrow> [])"

definition Encode :: "(gotime \<Rightarrow> string option) \<Rightarrow> body \<Rightarrow> string option" where
  "Encode time_text b =
     (if list_all (\<lambda>t. time_text t \<noteq> None) (body_times b)
      then Some (print_json (JObj (body_members (\<lambda>t. the (time_text t)) b)) @ [char_of (10 :: nat)])
      else None)"

section \<open>Handlers (quotes\_handlers.go, system\_handlers.go)\<close>

definition writeJSON :: "int \<Rightarrow> body \<Rightarrow> response \<Rightarrow> response" where
  "writeJSON status v w =
     (let w1 = write_header status (set_header ''Content-Type'' ''application/json'' w)
      in w1\<lparr>rs_bodies := rs_bodies w1 @ [v]\<rparr>)"

definition writeError :: "int \<Rightarrow> string \<Rightarrow> string \<Rightarrow> response \<Rightarrow> response" where
  "writeError status code message = writeJSON status (ErrorEnvelope code message)"

definition nudgeDispatcher :: "nudge_chan \<Rightarrow> nudge_chan" where
  "nudgeDispatcher ch =
     (case ch of
        None \<Rightarrow> None
      | Some (cap, n) \<Rightarrow> if n < cap then Some (cap, n + 1) else Some (cap, n))"

text \<open>The codes and messages of the answers.\<close>

abbreviation codeInvalidRequest :: string where "codeInvalidRequest \<equiv> ''invalid_request''"
abbreviation codeUnsupportedPair :: string where "codeUnsupportedPair \<equiv> ''unsupported_pair''"
abbreviation codeIdempotencyConflict :: string where "codeIdempotencyConflict \<equiv> ''idempotency_conflict''"
abbreviation codeNotFound :: string where "codeNotFound \<equiv> ''not_found''"
abbreviation codePayloadTooLarge :: string where "codePayloadTooLarge \<equiv> ''payload_too_large''"
abbreviation msgMalformedJSON :: string where "msgMalformedJSON \<equiv> ''malformed JSON body''"
abbreviation msgPairRequired :: string where "msgPairRequired \<equiv> ''pair is required''"
abbreviation msgIdempotencyKeyTooLong :: string where "msgIdempotencyKeyTooLong \<equiv> ''Idempotency-Key exceeds 255 characters''"
abbreviation msgPairQueryRequired :: string where "msgPairQueryRequired \<equiv> ''pair query parameter is required''"
abbreviation msgNoSuchUpdate :: string where "msgNoSuchUpdate \<equiv> ''no such update''"
abbreviation msgNoQuoteYet :: string where "msgNoQuoteYet \<equiv> ''no quote yet for this pair''"
abbreviation msgInternalError :: string where "msgInternalError \<equiv> ''internal server error''"
abbreviation msgPayloadTooLarge :: string where "msgPayloadTooLarge \<equiv> ''request body exceeds the 4 KiB limit''"
abbreviation codeInternalError :: string where "codeInternalError \<equiv> ''internal_error''"

definition maxIdempotencyKeyLen :: nat where "maxIdempotencyKeyLen = 255"

definition internal_error :: "response \<Rightarrow> response" where
  "internal_error = writeError 500 codeInternalError msgInternalError"

definition postQuotesUpdatesHandler ::
  "('r, 'c, 'd) http_env \<Rightarrow> ('r, 'c) server handler" where
  "postQuotesUpdatesHandler E rq s w =
     (case decode_createUpdateRequest (rq_body rq) of
        TooLarge \<Rightarrow> (Ok (), s, writeError 413 codePayloadTooLarge
                               msgPayloadTooLarge w)
      | Malformed \<Rightarrow> (Ok (), s, writeError 400 codeInvalidRequest msgMalformedJSON w)
      | Decoded rawPair \<Rightarrow>
          if rawPair = [] then (Ok (), s, writeError 400 codeInvalidRequest msgPairRequired w)
          else
            let key = rq_header rq ''Idempotency-Key''
            in if maxIdempotencyKeyLen < length key
               then (Ok (), s, writeError 400 codeInvalidRequest
                                 msgIdempotencyKeyTooLong w)
               else
                 let (res, r, c) = RequestUpdate (he_repo E) (he_clock E) (he_unicode E)
                                     (sv_ids s (sv_turn s)) (sv_repo s) (sv_clock s) rawPair key;
                     s1 = s\<lparr>sv_repo := r, sv_clock := c, sv_turn := sv_turn s + 1\<rparr>
                 in case res of
                      Panic \<Rightarrow> (Panic, s1, w)
                    | Err e \<Rightarrow>
                        (Ok (), s1,
                         if errors_Is is_ErrMalformedPair e
                         then writeError 400 codeInvalidRequest (error_text (he_fmt E) e) w
                         else if errors_Is is_ErrPairNotAllowed e
                         then writeError 422 codeUnsupportedPair (error_text (he_fmt E) e) w
                         else if errors_Is (\<lambda>x. x = ErrIdempotencyConflict) e
                         then writeError 409 codeIdempotencyConflict (error_text (he_fmt E) e) w
                         else internal_error w)
                    | Ok result \<Rightarrow>
                        if Replayed result
                        then (Ok (), s1, writeJSON 200 (CreateBody (newCreateUpdateResponse (Request result)))
                                (set_header ''Idempotency-Replayed'' ''true'' w))
                        else (Ok (), s1\<lparr>sv_nudge := nudgeDispatcher (sv_nudge s1)\<rparr>,
                              writeJSON 202 (CreateBody (newCreateUpdateResponse (Request result))) w))"

definition getQuotesUpdateHandler ::
  "('r, 'c, 'd) http_env \<Rightarrow> string \<Rightarrow> ('r, 'c) server handler" where
  "getQuotesUpdateHandler E path_id rq s w =
     (let (res, r) = GetByUpdateID (he_repo E) (he_parse_uuid E) (sv_repo s) path_id;
          s1 = s\<lparr>sv_repo := r\<rparr>
      in case res of
           Panic \<Rightarrow> (Panic, s1, w)
         | Err e \<Rightarrow>
             (Ok (), s1,
              if errors_Is (\<lambda>x. x = ErrNotFound) e then writeError 404 codeNotFound msgNoSuchUpdate w
              else internal_error w)
         | Ok (req, rate) \<Rightarrow>
             (Ok (), s1,
              writeJSON 200 (UpdateBody (newUpdateStatusResponse (he_StringFixed E) req rate))
                (if Status req = StatusPending \<or> Status req = StatusInProgress
                 then set_header ''Retry-After'' ''1'' w else w)))"

definition getQuotesLatestHandler :: "('r, 'c, 'd) http_env \<Rightarrow> ('r, 'c) server handler" where
  "getQuotesLatestHandler E rq s w =
     (let rawPair = rq_query rq ''pair''
      in if rawPair = []
         then (Ok (), s, writeError 400 codeInvalidRequest msgPairQueryRequired w)
         else
           let (res, r) = GetLatest (he_repo E) (he_unicode E) (sv_repo s) rawPair;
               s1 = s\<lparr>sv_repo := r\<rparr>
           in case res of
                Panic \<Rightarrow> (Panic, s1, w)
              | Err e \<Rightarrow>
                  (Ok (), s1,
                   if errors_Is is_ErrMalformedPair e
                   then writeError 400 codeInvalidRequest (error_text (he_fmt E) e) w
                   else if errors_Is is_ErrPairNotAllowed e
                   then writeError 422 codeUnsupportedPair (error_text (he_fmt E) e) w
                   else if errors_Is (\<lambda>x. x = ErrNotFound) e
                   then writeError 404 codeNotFound msgNoQuoteYet w
                   else internal_error w)
              | Ok (pair, rate) \<Rightarrow>
                  (Ok (), s1, writeJSON 200
                     (newLatestQuoteResponse (he_StringFixed E) (Pair_String pair) rate) w))"

definition healthzHandler :: "('r, 'c) server handler" where
  "healthzHandler rq s w = (Ok (), s, writeJSON 200 (StatusBody ''ok'') w)"

definition readyzHandler :: "('r, 'c, 'd) http_env \<Rightarrow> ('r, 'c) server handler" where
  "readyzHandler E rq s w =
     (Ok (), s, if \<not> he_ready E s then writeJSON 503 (StatusBody ''unavailable'') w
                else writeJSON 200 (StatusBody ''ready'') w)"

section \<open>Middleware (middleware.go)\<close>

abbreviation requestIDHeader :: string where "requestIDHeader \<equiv> ''X-Request-Id''"

definition maxRequestIDLen :: nat where "maxRequestIDLen = 100"

text \<open>A byte above 0x7e starts or continues a rune above 0x7e.\<close>

definition validRequestID :: "string \<Rightarrow> bool" where
  "validRequestID i \<longleftrightarrow>
     \<not> (i = [] \<or> maxRequestIDLen < length i) \<and> list_all (\<lambda>c. \<not> (byte c < 32 \<or> 126 < byte c)) i"

definition requestIDMiddleware :: "('r, 'c) server handler \<Rightarrow> ('r, 'c) server handler" where
  "requestIDMiddleware next rq s w =
     (let i0 = rq_header rq requestIDHeader;
          (i, s1) = (if \<not> validRequestID i0
                     then (uuid_String (sv_ids s (sv_turn s)), s\<lparr>sv_turn := sv_turn s + 1\<rparr>)
                     else (i0, s))
      in next (rq\<lparr>rq_id := i\<rparr>) s1 (set_header requestIDHeader i w))"

text \<open>The status recorder keeps the last code its handler wrote, 200 when it wrote none.\<close>

definition recorded_status :: "response \<Rightarrow> response \<Rightarrow> int" where
  "recorded_status before after =
     (case drop (length (rs_codes before)) (rs_codes after) of [] \<Rightarrow> 200 | cs \<Rightarrow> last cs)"

text \<open>\<open>Flush\<close> and \<open>Hijack\<close> of the recorder forward to the writer underneath when it has them.\<close>

definition recorder_Flush :: "('w \<Rightarrow> 'w) option \<Rightarrow> 'w \<Rightarrow> 'w" where
  "recorder_Flush flusher w = (case flusher of Some f \<Rightarrow> f w | None \<Rightarrow> w)"

definition recorder_Hijack :: "('w \<Rightarrow> 'conn go \<times> 'w) option \<Rightarrow> 'w \<Rightarrow> 'conn go \<times> 'w" where
  "recorder_Hijack hijacker w =
     (case hijacker of Some h \<Rightarrow> h w | None \<Rightarrow> (Err (ErrOther ''feature not supported''), w))"

text \<open>\<open>rq_id\<close> is what the middleware put into the context; the empty string before it ran.\<close>

abbreviation requestIDFromContext :: "request \<Rightarrow> string" where "requestIDFromContext \<equiv> rq_id"

definition loggingMiddleware :: "('r, 'c) server handler \<Rightarrow> ('r, 'c) server handler" where
  "loggingMiddleware next rq s w =
     (case next rq s w of
        (Ok _, s1, w1) \<Rightarrow>
          (Ok (), s1\<lparr>sv_log := sv_log s1 @ [(rq_method rq, rq_path rq, recorded_status w w1, requestIDFromContext rq)]\<rparr>, w1)
      | (res, s1, w1) \<Rightarrow> (res, s1, w1))"

definition corsMiddleware :: "string list \<Rightarrow> ('r, 'c) server handler \<Rightarrow> ('r, 'c) server handler" where
  "corsMiddleware allowed next rq s w =
     (let origin = rq_header rq ''Origin'';
          w1 = (if origin \<noteq> [] \<and> (allowed = [] \<or> origin \<in> set allowed)
                then set_header ''Vary'' ''Origin'' (set_header ''Access-Control-Allow-Origin'' origin w)
                else w)
      in if rq_method rq = ''OPTIONS''
         then (Ok (), s, write_header 204
                (set_header ''Access-Control-Allow-Headers'' ''Content-Type, Idempotency-Key''
                  (set_header ''Access-Control-Allow-Methods'' ''GET, POST, OPTIONS'' w1)))
         else next rq s w1)"

definition recoverMiddleware :: "('r, 'c) server handler \<Rightarrow> ('r, 'c) server handler" where
  "recoverMiddleware next rq s w =
     (case next rq s w of
        (Panic, s1, w1) \<Rightarrow> (Ok (), s1, internal_error w1)
      | (res, s1, w1) \<Rightarrow> (res, s1, w1))"

section \<open>Routes (router.go)\<close>

text \<open>
  \<open>http.ServeMux\<close> on clean paths, given as their segments: a GET pattern also serves HEAD, a
  known path with another method is a 405 and an unknown path a 404, both plain text.
\<close>

definition is_get :: "string \<Rightarrow> bool" where
  "is_get m \<longleftrightarrow> m = ''GET'' \<or> m = ''HEAD''"

definition plain :: "int \<Rightarrow> string \<Rightarrow> response \<Rightarrow> response" where
  "plain c t w = (let w1 = write_header c w in w1\<lparr>rs_bodies := rs_bodies w1 @ [TextBody t]\<rparr>)"

definition mux :: "('r, 'c, 'd) http_env \<Rightarrow> ('r, 'c) server handler" where
  "mux E rq s w =
     (let m = rq_method rq; p = rq_path rq; not_allowed = (Ok (), s, plain 405 ''Method Not Allowed'' w)
      in if p = [''healthz''] then (if is_get m then healthzHandler rq s w else not_allowed)
         else if p = [''readyz''] then (if is_get m then readyzHandler E rq s w else not_allowed)
         else if p = [''api'', ''v1'', ''quotes'', ''updates'']
         then (if m = ''POST'' then postQuotesUpdatesHandler E rq s w else not_allowed)
         else if p = [''api'', ''v1'', ''quotes'', ''latest'']
         then (if is_get m then getQuotesLatestHandler E rq s w else not_allowed)
         else if length p = 5 \<and> take 4 p = [''api'', ''v1'', ''quotes'', ''updates''] \<and> p ! 4 \<noteq> []
         then (if is_get m then getQuotesUpdateHandler E (p ! 4) rq s w else not_allowed)
         else (Ok (), s, plain 404 ''404 page not found'' w))"

definition NewRouter :: "('r, 'c, 'd) http_env \<Rightarrow> string list \<Rightarrow> ('r, 'c) server handler" where
  "NewRouter E origins =
     corsMiddleware origins (requestIDMiddleware (recoverMiddleware (loggingMiddleware (mux E))))"

section \<open>Error texts never leave the server\<close>

lemma stored_codes_have_messages: "c \<in> stored_codes \<Longrightarrow> c \<in> set (map fst safeErrorMessages)"
proof -
  have codes: "c = InvalidRequestError \<or> c = UnsupportedPairError \<or> c = AuthError
      \<or> c = QuotaExceededError \<or> c = RateLimitedError \<or> c = ProviderUnavailableError
      \<or> c = UnclassifiedProviderError \<or> c = MalformedResponseError \<or> c = InternalError"
    if "ErrorCode_Valid c" for c
    using that by (simp add: ErrorCode_Valid_def)
  assume "c \<in> stored_codes"
  then consider "c = AttemptsExhaustedCode" | d where "c = error_code_string d" "ErrorCode_Valid d"
    by (auto simp: stored_codes_def)
  then show ?thesis
  proof cases
    case 2
    then show ?thesis
      using codes [OF 2(2)] by (elim disjE) (simp_all add: safeErrorMessages_def)
  qed (simp add: safeErrorMessages_def)
qed

lemma newUpdateStatusResponse_message:
  "newUpdateStatusResponse F (req\<lparr>ErrorMessage := m\<rparr>) rate = newUpdateStatusResponse F req rate"
  by (simp add: newUpdateStatusResponse_def Let_def)

section \<open>Every request is answered once\<close>

definition kept_headers :: "string set" where
  "kept_headers = {''X-Request-Id'', ''Access-Control-Allow-Origin'', ''Vary''}"

definition one_more :: "response \<Rightarrow> response \<Rightarrow> bool" where
  "one_more w w' \<longleftrightarrow>
     (\<exists>c. rs_codes w' = rs_codes w @ [c]) \<and> (\<exists>b. rs_bodies w' = rs_bodies w @ [b])
     \<and> (\<forall>k \<in> kept_headers. map_of (rs_headers w') k = map_of (rs_headers w) k)"

definition answers :: "response \<Rightarrow> unit go \<times> 's \<times> response \<Rightarrow> bool" where
  "answers w out \<longleftrightarrow>
     (case out of (res, s', w') \<Rightarrow> (res = Panic \<and> w' = w) \<or> (res = Ok () \<and> one_more w w'))"

lemma set_header_other:
  "k \<notin> kept_headers \<Longrightarrow> rs_codes (set_header k v w) = rs_codes w \<and> rs_bodies (set_header k v w) = rs_bodies w
    \<and> (\<forall>j \<in> kept_headers. map_of (rs_headers (set_header k v w)) j = map_of (rs_headers w) j)"
  by (auto simp: set_header_def map_of_update)

lemma one_more_writeJSON [simp]: "one_more w (writeJSON c b w)"
  using set_header_other [of "''Content-Type''" "''application/json''" w]
  by (auto simp: one_more_def writeJSON_def write_header_def Let_def kept_headers_def)

lemma one_more_header:
  "k \<notin> kept_headers \<Longrightarrow> one_more (set_header k v w) w' \<Longrightarrow> one_more w w'"
  using set_header_other [of k v w] by (auto simp: one_more_def)

lemma one_more_simps [simp]:
  "one_more w (writeError c m t w)" "one_more w (internal_error w)" "one_more w (plain c t w)"
  "one_more w (writeJSON c b (set_header ''Idempotency-Replayed'' v w))"
  "one_more w (writeJSON c b (set_header ''Retry-After'' v w))"
proof -
  show "one_more w (writeError c m t w)" "one_more w (internal_error w)"
    by (simp_all add: writeError_def internal_error_def)
  show "one_more w (plain c t w)" by (simp add: plain_def one_more_def write_header_def Let_def)
  show "one_more w (writeJSON c b (set_header ''Idempotency-Replayed'' v w))"
    "one_more w (writeJSON c b (set_header ''Retry-After'' v w))"
    by (rule one_more_header [OF _ one_more_writeJSON], simp add: kept_headers_def)+
qed

lemma answers_simps [simp]:
  "answers w (Ok (), s, w') = one_more w w'" "answers w (Panic, s, w)"
  by (simp_all add: answers_def)

lemma post_answers: "answers w (postQuotesUpdatesHandler E rq s w)"
  by (auto simp: postQuotesUpdatesHandler_def Let_def split: decoded.splits prod.splits gores.splits)

lemma get_answers: "answers w (getQuotesUpdateHandler E i rq s w)"
  by (auto simp: getQuotesUpdateHandler_def Let_def split: prod.splits gores.splits)

lemma latest_answers: "answers w (getQuotesLatestHandler E rq s w)"
  by (auto simp: getQuotesLatestHandler_def Let_def split: prod.splits gores.splits)

lemma mux_answers: "answers w (mux E rq s w)"
  by (simp add: mux_def Let_def post_answers get_answers latest_answers healthzHandler_def readyzHandler_def)

text \<open>The chain below the request id: the answer of the handler, logged, or a 500 when it panics.\<close>

lemma recovered_mux:
  obtains s1 where "mux E rq s w = (Panic, s1, w)"
    "recoverMiddleware (loggingMiddleware (mux E)) rq s w = (Ok (), s1, internal_error w)"
  | s1 w1 where "mux E rq s w = (Ok (), s1, w1)" "one_more w w1"
    "recoverMiddleware (loggingMiddleware (mux E)) rq s w
      = (Ok (), s1\<lparr>sv_log := sv_log s1 @ [(rq_method rq, rq_path rq, recorded_status w w1, rq_id rq)]\<rparr>, w1)"
proof -
  obtain res s1 w1 where m: "mux E rq s w = (res, s1, w1)" by (cases "mux E rq s w") auto
  with mux_answers [of w E rq s] that show thesis
    by (auto simp: answers_def recoverMiddleware_def loggingMiddleware_def)
qed

lemma uuid_String_valid: "validRequestID (uuid_String u)"
proof -
  have h: "32 \<le> byte (hexdigit (nibble u i)) \<and> byte (hexdigit (nibble u i)) \<le> 126" for i
    using nibble_less [of u i] by (auto simp: hexdigit_def byte_char_of)
  have "\<forall>c \<in> set (uuid_hex u). 32 \<le> byte c \<and> byte c \<le> 126" using h by (auto simp: uuid_hex_def)
  then have "\<forall>c \<in> set (uuid_String u). 32 \<le> byte c \<and> byte c \<le> 126"
    by (auto simp: uuid_String_def Let_def byte_def dest!: in_set_takeD in_set_dropD)
  moreover have "length (uuid_String u) = 36" by (simp add: uuid_String_def Let_def)
  ultimately show ?thesis by (auto simp: validRequestID_def maxRequestIDLen_def list_all_iff)
qed

definition cors_origin :: "string list \<Rightarrow> request \<Rightarrow> string option" where
  "cors_origin origins rq =
     (let origin = rq_header rq ''Origin''
      in if origin \<noteq> [] \<and> (origins = [] \<or> origin \<in> set origins) then Some origin else None)"

lemma NewRouter_preflight:
  assumes "rq_method rq = ''OPTIONS''"
  shows "\<exists>w'. NewRouter E origins rq s new_response = (Ok (), s, w') \<and> rs_codes w' = [204]
    \<and> map_of (rs_headers w') ''Access-Control-Allow-Origin'' = cors_origin origins rq"
  using assms
  by (auto simp: NewRouter_def corsMiddleware_def Let_def write_header_def set_header_def
      new_response_def cors_origin_def map_of_update)

text \<open>What the router makes of a request: the trace id, the state and the response that reach the routes.\<close>

definition trace_id :: "('r, 'c) server \<Rightarrow> request \<Rightarrow> string" where
  "trace_id s rq = (if validRequestID (rq_header rq ''X-Request-Id'') then rq_header rq ''X-Request-Id''
     else uuid_String (sv_ids s (sv_turn s)))"

definition traced :: "('r, 'c) server \<Rightarrow> request \<Rightarrow> ('r, 'c) server" where
  "traced s rq = (if validRequestID (rq_header rq ''X-Request-Id'') then s else s\<lparr>sv_turn := sv_turn s + 1\<rparr>)"

lemma trace_id_valid: "validRequestID (trace_id s rq)"
  by (simp add: trace_id_def uuid_String_valid)

lemma NewRouter_routes:
  assumes "rq_method rq \<noteq> ''OPTIONS''"
  obtains w0 where "rs_codes w0 = []" "rs_bodies w0 = []"
    "map_of (rs_headers w0) ''Access-Control-Allow-Origin'' = cors_origin origins rq"
    "map_of (rs_headers w0) ''X-Request-Id'' = Some (trace_id s rq)"
    "NewRouter E origins rq s new_response
      = recoverMiddleware (loggingMiddleware (mux E)) (rq\<lparr>rq_id := trace_id s rq\<rparr>) (traced s rq) w0"
proof -
  let ?o = "rq_header rq ''Origin''"
  define w1 where "w1 = (if ?o \<noteq> [] \<and> (origins = [] \<or> ?o \<in> set origins)
      then set_header ''Vary'' ''Origin'' (set_header ''Access-Control-Allow-Origin'' ?o new_response)
      else new_response)"
  have "rs_codes w1 = []" "rs_bodies w1 = []"
    "map_of (rs_headers w1) ''Access-Control-Allow-Origin'' = cors_origin origins rq"
    by (auto simp: w1_def set_header_def new_response_def cors_origin_def map_of_update Let_def)
  moreover have "NewRouter E origins rq s new_response
      = recoverMiddleware (loggingMiddleware (mux E)) (rq\<lparr>rq_id := trace_id s rq\<rparr>) (traced s rq)
          (set_header ''X-Request-Id'' (trace_id s rq) w1)"
    unfolding NewRouter_def corsMiddleware_def requestIDMiddleware_def Let_def w1_def trace_id_def traced_def
    using assms by (cases "validRequestID (rq_header rq ''X-Request-Id'')") simp_all
  ultimately show thesis
    by (intro that [of "set_header ''X-Request-Id'' (trace_id s rq) w1"]) (simp_all add: set_header_def map_of_update)
qed

section \<open>The endpoints against the store\<close>

text \<open>The status of a POST, from the request and the store alone.\<close>

definition post_status :: "unicode \<Rightarrow> 'd store \<Rightarrow> decoded \<Rightarrow> string \<Rightarrow> int" where
  "post_status U S d key =
     (case d of
        TooLarge \<Rightarrow> 413
      | Malformed \<Rightarrow> 400
      | Decoded raw \<Rightarrow>
          if raw = [] \<or> 255 < length key then 400
          else case ParseCurrencyPair U raw ''/'' of
                 Ok pair \<Rightarrow>
                   if \<not> key_used S key then 202
                   else if \<exists>i q. st_rows S i = Some q \<and> q_key q = key \<and> Pair (q_req q) = pair then 200
                   else 409
               | _ \<Rightarrow> if well_shaped U raw then 422 else 400)"

lemma errors_Is_mono: "errors_Is P e \<Longrightarrow> (\<And>x. P x \<Longrightarrow> Q x) \<Longrightarrow> errors_Is Q e"
  by (induction e) auto

lemma infra_cases:
  assumes "infra e"
  shows "\<not> errors_Is is_ErrMalformedPair e" "\<not> errors_Is is_ErrPairNotAllowed e"
    "\<not> errors_Is (\<lambda>x. x = ErrIdempotencyConflict) e" "\<not> errors_Is (\<lambda>x. x = ErrNotFound) e"
proof -
  have no: "\<not> errors_Is P e" if "\<And>x. P x \<Longrightarrow> sentinel x" for P
    using assms errors_Is_mono [OF _ that] by (auto simp: infra_def)
  show "\<not> errors_Is is_ErrMalformedPair e"
  proof (rule no)
    show "is_ErrMalformedPair x \<Longrightarrow> sentinel x" for x by (cases x) simp_all
  qed
  show "\<not> errors_Is is_ErrPairNotAllowed e"
  proof (rule no)
    show "is_ErrPairNotAllowed x \<Longrightarrow> sentinel x" for x by (cases x) simp_all
  qed
  show "\<not> errors_Is (\<lambda>x. x = ErrIdempotencyConflict) e" by (rule no) simp
  show "\<not> errors_Is (\<lambda>x. x = ErrNotFound) e" by (rule no) simp
qed

lemma wire_status_simps [simp]:
  "wire_status (writeJSON c b new_response) = c"
  "wire_status (writeError c m t new_response) = c"
  "wire_status (internal_error new_response) = 500"
  "wire_status (writeJSON c b (set_header k v new_response)) = c"
  by (simp_all add: writeJSON_def writeError_def internal_error_def wire_status_def write_header_def
      set_header_def new_response_def Let_def)

text \<open>
  A request draws at most two identifiers, its trace id and the id of a new update;
  \<open>uuid.NewV7()\<close> never returns one that is in use.
\<close>

definition ids_fresh :: "(uuid \<Rightarrow> bool) \<Rightarrow> ('r, 'c) server \<Rightarrow> bool" where
  "ids_fresh used s \<longleftrightarrow> \<not> used (sv_ids s (sv_turn s)) \<and> \<not> used (sv_ids s (sv_turn s + 1))"

lemma post_state:
  "fst (snd (postQuotesUpdatesHandler E rq s w)) = fst (snd (postQuotesUpdatesHandler E rq s w2))"
  by (simp add: postQuotesUpdatesHandler_def Let_def split_beta split: decoded.splits gores.splits)

locale api =
  repository "he_repo E" abs inv ct cr
  for E :: "('r, 'c, 'd) http_env" and abs :: "'r \<Rightarrow> 'd store" and inv :: "'r \<Rightarrow> bool"
    and ct :: "gotime \<Rightarrow> gotime" and cr :: "'d CurrencyRate \<Rightarrow> 'd CurrencyRate"
begin

text \<open>
  A POST answers with the status the store calls for (or 500 when storage fails); only a 202
  changes the store and nudges the dispatcher, and then the store has exactly the new update.
\<close>

lemma post_effect:
  assumes inv: "inv (sv_repo s)" and ok: "store_ok (abs (sv_repo s))"
    and fresh: "st_rows (abs (sv_repo s)) (sv_ids s (sv_turn s)) = None"
    and run: "postQuotesUpdatesHandler E rq s new_response = (res, s', w')"
  shows "inv (sv_repo s') \<and> store_ok (abs (sv_repo s')) \<and> evolves (abs (sv_repo s)) (abs (sv_repo s'))
    \<and> (wire_status w' = post_status (he_unicode E) (abs (sv_repo s)) (decode_createUpdateRequest (rq_body rq))
                              (rq_header rq ''Idempotency-Key'')
        \<or> (wire_status w' = 500
            \<and> (\<exists>raw e r c. RequestUpdate (he_repo E) (he_clock E) (he_unicode E) (sv_ids s (sv_turn s))
                  (sv_repo s) (sv_clock s) raw (rq_header rq ''Idempotency-Key'') = (Err e, r, c) \<and> infra e)))
    \<and> (if wire_status w' = 202
       then sv_nudge s' = nudgeDispatcher (sv_nudge s)
         \<and> (\<exists>req. rs_bodies w' = [CreateBody (newCreateUpdateResponse req)] \<and> pair_ok (Pair req)
              \<and> ID req = sv_ids s (sv_turn s) \<and> sv_turn s' = sv_turn s + 1 \<and> req = NewCurrencyRateUpdateRequest (ID req) (Pair req) (CreatedAt req)
              \<and> abs (sv_repo s') = (abs (sv_repo s))\<lparr>st_rows := (st_rows (abs (sv_repo s)))
                  (ID req \<mapsto> new_row ct req (rq_header rq ''Idempotency-Key''))\<rparr>)
       else abs (sv_repo s') = abs (sv_repo s) \<and> sv_nudge s' = sv_nudge s)
    \<and> sv_ids s' = sv_ids s \<and> sv_turn s \<le> sv_turn s'"
proof (cases "decode_createUpdateRequest (rq_body rq)")
  case TooLarge
  with assms show ?thesis by (auto simp: postQuotesUpdatesHandler_def post_status_def)
next
  case Malformed
  with assms show ?thesis by (auto simp: postQuotesUpdatesHandler_def post_status_def)
next
  case (Decoded raw)
  let ?key = "rq_header rq ''Idempotency-Key''" and ?S = "abs (sv_repo s)"
  let ?new = "sv_ids s (sv_turn s)"
  show ?thesis
  proof (cases "raw = [] \<or> maxIdempotencyKeyLen < length ?key")
    case True
    with assms Decoded show ?thesis
      by (auto simp: postQuotesUpdatesHandler_def post_status_def maxIdempotencyKeyLen_def Let_def
          split: if_splits)
  next
    case False
    obtain rres r c where u: "RequestUpdate (he_repo E) (he_clock E) (he_unicode E) ?new
        (sv_repo s) (sv_clock s) raw ?key = (rres, r, c)" by (metis prod_cases3)
    define s1 where "s1 = s\<lparr>sv_repo := r, sv_clock := c, sv_turn := sv_turn s + 1\<rparr>"
    have s1: "sv_repo s1 = r" "sv_nudge s1 = sv_nudge s" "sv_ids s1 = sv_ids s"
      "sv_turn s1 = sv_turn s + 1" by (simp_all add: s1_def)
    note eff = RequestUpdate_effect [OF inv ok fresh u]
    then have keeps: "inv r" "store_ok (abs r)" "evolves ?S (abs r)" by simp_all
    note h = run [unfolded postQuotesUpdatesHandler_def Decoded decoded.case Let_def] False u
    from eff consider
      (fault) e where "rres = Err e" "infra e" "abs r = ?S"
      | (spec) "request_spec ct (he_unicode E) ?new (fst (Now (he_clock E) (sv_clock s))) ?S raw ?key
          rres (abs r)"
      by (auto simp: fault_def)
    then show ?thesis
    proof cases
      case fault
      with h infra_cases [OF fault(2)] have "s' = s1" "w' = internal_error new_response"
        by (auto simp: s1_def)
      moreover have "\<exists>raw e r c. RequestUpdate (he_repo E) (he_clock E) (he_unicode E) ?new
          (sv_repo s) (sv_clock s) raw ?key = (Err e, r, c) \<and> infra e"
        using u fault(1,2) by blast
      ultimately show ?thesis using fault keeps s1 by simp
    next
      case spec
      show ?thesis
      proof (cases "ParseCurrencyPair (he_unicode E) raw ''/''")
        case (Ok pair)
        then have pair: "pair_ok pair" using ParseCurrencyPair_Ok_iff by blast
        show ?thesis
        proof (cases "key_used ?S ?key")
          case False
          with spec Ok have rres: "rres = Ok \<lparr>Request = NewCurrencyRateUpdateRequest ?new pair
              (fst (Now (he_clock E) (sv_clock s))), Replayed = False\<rparr>"
            and st: "abs r = ?S\<lparr>st_rows := (st_rows ?S)(?new \<mapsto> new_row ct
              (NewCurrencyRateUpdateRequest ?new pair (fst (Now (he_clock E) (sv_clock s)))) ?key)\<rparr>"
            by (simp_all add: request_spec_def Let_def)
          let ?req = "NewCurrencyRateUpdateRequest ?new pair (fst (Now (he_clock E) (sv_clock s)))"
          have req: "ID ?req = ?new" "Pair ?req = pair" "?req = NewCurrencyRateUpdateRequest (ID ?req)
              (Pair ?req) (CreatedAt ?req)" by (simp_all add: NewCurrencyRateUpdateRequest_def)
          from h rres have "s' = s1\<lparr>sv_nudge := nudgeDispatcher (sv_nudge s1)\<rparr>"
            "w' = writeJSON 202 (CreateBody (newCreateUpdateResponse ?req)) new_response"
            by (auto simp: s1_def)
          moreover have "rs_bodies (writeJSON 202 b new_response) = [b]" for b
            by (simp add: writeJSON_def write_header_def set_header_def new_response_def Let_def)
          moreover have "post_status (he_unicode E) ?S (Decoded raw) ?key = 202"
            using False \<open>\<not> (raw = [] \<or> maxIdempotencyKeyLen < length ?key)\<close> Ok
            by (simp add: post_status_def maxIdempotencyKeyLen_def)
          ultimately show ?thesis
            using keeps s1 st req pair unfolding Decoded by (auto intro!: exI [of _ ?req])
        next
          case True
          with spec Ok obtain i q b where same: "abs r = ?S" "st_rows ?S i = Some q" "q_key q = ?key"
            and rres: "rres = (if Pair (q_req q) = pair
                then Ok \<lparr>Request = (q_req q)\<lparr>Reused := b\<rparr>, Replayed = True\<rparr>
                else Err ErrIdempotencyConflict)"
            by (auto simp: request_spec_def)
          have key: "?key \<noteq> []" using True by (simp add: key_used_def)
          have uniq: "(\<exists>j x. st_rows ?S j = Some x \<and> q_key x = ?key \<and> Pair (q_req x) = pair)
              \<longleftrightarrow> Pair (q_req q) = pair"
            using key_unique [OF ok same(2) _ same(3) _ key] same by blast
          have status: "post_status (he_unicode E) ?S (Decoded raw) ?key
              = (if Pair (q_req q) = pair then 200 else 409)"
            using True \<open>\<not> (raw = [] \<or> maxIdempotencyKeyLen < length ?key)\<close> Ok uniq
            by (simp add: post_status_def maxIdempotencyKeyLen_def)
          from h rres have "s' = s1" "wire_status w' = (if Pair (q_req q) = pair then 200 else 409)"
            by (auto simp: s1_def split: if_splits)
          with keeps s1 same status show ?thesis unfolding Decoded by simp
        qed
      next
        case (Err e)
        with spec have rres: "rres = Err e" "abs r = ?S" by (simp_all add: request_spec_def)
        from ParseCurrencyPair_outcome [of "he_unicode E" raw] Err h rres(1)
        have "s' = s1" "wire_status w' = (if well_shaped (he_unicode E) raw then 422 else 400)"
          by (auto simp: s1_def)
        moreover have "post_status (he_unicode E) ?S (Decoded raw) ?key
            = (if well_shaped (he_unicode E) raw then 422 else 400)"
          using \<open>\<not> (raw = [] \<or> maxIdempotencyKeyLen < length ?key)\<close> Err
          by (simp add: post_status_def maxIdempotencyKeyLen_def)
        ultimately show ?thesis using keeps s1 rres(2) unfolding Decoded by simp
      qed simp
    qed
  qed
qed

lemma post_keeps:
  assumes "inv (sv_repo s)" "store_ok (abs (sv_repo s))"
    and "st_rows (abs (sv_repo s)) (sv_ids s (sv_turn s)) = None"
    and "postQuotesUpdatesHandler E rq s w = (res, s', w')"
  shows "inv (sv_repo s') \<and> store_ok (abs (sv_repo s')) \<and> evolves (abs (sv_repo s)) (abs (sv_repo s'))"
proof -
  obtain res2 w2 where run: "postQuotesUpdatesHandler E rq s new_response = (res2, s', w2)"
    using post_state [of E rq s w new_response] assms(4) by (metis fst_conv prod.collapse snd_conv)
  from post_effect [OF assms(1-3) this] show ?thesis by blast
qed

lemma get_update_keeps:
  assumes "inv (sv_repo s)" "store_ok (abs (sv_repo s))"
    and "getQuotesUpdateHandler E i rq s w = (res, s', w')"
  shows "inv (sv_repo s') \<and> abs (sv_repo s') = abs (sv_repo s)"
proof -
  obtain g r where g: "GetByUpdateID (he_repo E) (he_parse_uuid E) (sv_repo s) i = (g, r)" by fastforce
  with assms(3) have "s' = s\<lparr>sv_repo := r\<rparr>"
    by (auto simp: getQuotesUpdateHandler_def Let_def split: gores.splits)
  with GetByUpdateID_effect [OF assms(1,2) g] show ?thesis by simp
qed

lemma get_latest_keeps:
  assumes "inv (sv_repo s)" "store_ok (abs (sv_repo s))"
    and "getQuotesLatestHandler E rq s w = (res, s', w')"
  shows "inv (sv_repo s') \<and> abs (sv_repo s') = abs (sv_repo s)"
proof (cases "rq_query rq ''pair'' = []")
  case True
  with assms show ?thesis by (auto simp: getQuotesLatestHandler_def Let_def)
next
  case False
  obtain g r where g: "GetLatest (he_repo E) (he_unicode E) (sv_repo s) (rq_query rq ''pair'') = (g, r)"
    by fastforce
  with assms(3) False have "s' = s\<lparr>sv_repo := r\<rparr>"
    by (auto simp: getQuotesLatestHandler_def Let_def split: gores.splits)
  with GetLatest_effect [OF assms(1,2) g] show ?thesis by simp
qed

lemma mux_keeps:
  assumes "inv (sv_repo s)" "store_ok (abs (sv_repo s))"
    and "st_rows (abs (sv_repo s)) (sv_ids s (sv_turn s)) = None"
    and "mux E rq s w = (res, s', w')"
  shows "inv (sv_repo s') \<and> store_ok (abs (sv_repo s')) \<and> evolves (abs (sv_repo s)) (abs (sv_repo s'))"
proof -
  have same: ?thesis if "inv (sv_repo s') \<and> abs (sv_repo s') = abs (sv_repo s)"
    using that assms(2) by simp
  consider "s' = s" | "postQuotesUpdatesHandler E rq s w = (res, s', w')"
    | "getQuotesLatestHandler E rq s w = (res, s', w')"
    | i where "getQuotesUpdateHandler E i rq s w = (res, s', w')"
    using assms(4) by (auto simp: mux_def Let_def healthzHandler_def readyzHandler_def split: if_splits)
  then show ?thesis
  proof cases
    case 1
    with assms show ?thesis by simp
  next
    case 2
    with post_keeps assms(1-3) show ?thesis by blast
  next
    case 3
    from same get_latest_keeps [OF assms(1,2) this] show ?thesis .
  next
    case 4
    from same get_update_keeps [OF assms(1,2) this] show ?thesis .
  qed
qed

lemma NewRouter_keeps:
  assumes "inv (sv_repo s)" "store_ok (abs (sv_repo s))"
    and "ids_fresh (\<lambda>i. st_rows (abs (sv_repo s)) i \<noteq> None) s"
    and "NewRouter E origins rq s w = (res, s', w')"
  shows "inv (sv_repo s') \<and> store_ok (abs (sv_repo s')) \<and> evolves (abs (sv_repo s)) (abs (sv_repo s'))"
proof (cases "rq_method rq = ''OPTIONS''")
  case True
  with assms show ?thesis by (auto simp: NewRouter_def corsMiddleware_def Let_def)
next
  case False
  then obtain rq1 s1 w1 where "NewRouter E origins rq s w = recoverMiddleware (loggingMiddleware (mux E)) rq1 s1 w1"
    and s1: "sv_repo s1 = sv_repo s" "sv_ids s1 = sv_ids s" "sv_turn s1 \<in> {sv_turn s, sv_turn s + 1}"
    by (cases "validRequestID (rq_header rq ''X-Request-Id'')")
       (auto simp: NewRouter_def corsMiddleware_def requestIDMiddleware_def Let_def)
  moreover obtain res2 s2 w2 where m: "mux E rq1 s1 w1 = (res2, s2, w2)" by (metis prod_cases3)
  ultimately have s': "sv_repo s' = sv_repo s2"
    using assms(4) by (cases res2; auto simp: recoverMiddleware_def loggingMiddleware_def)+
  have "st_rows (abs (sv_repo s1)) (sv_ids s1 (sv_turn s1)) = None"
    using assms(3) s1 by (auto simp: ids_fresh_def)
  from mux_keeps [OF _ _ this m] assms(1,2) s1(1) s' show ?thesis by simp
qed

end

end
