(* ===== verification/MemoryRepo.thy ===== *)
theory MemoryRepo
  imports Repository
begin

text \<open>
  \<open>internal/storage/memory/repository.go\<close>. The Go maps are association lists with
  distinct keys, because the code iterates over them: the order of the list is Go's
  unspecified map order. A record is reached by its key; \<open>AList.update\<close> is the write
  through the pointer stored under that key. Every method holds the mutex for its whole
  body, so it is one function on the state. The theory ends with the proof that these
  functions keep the promises of the port.
\<close>

section \<open>State\<close>

record 'd MemRepo =
  records :: "(uuid \<times> queue_row) list"
  idempotencyIndex :: "string \<Rightarrow> uuid option"
  quotes :: "(int \<times> 'd quote_row) list"
  nextQuoteID :: int

definition NewRepository :: "'d MemRepo" where
  "NewRepository = \<lparr>records = [], idempotencyIndex = Map.empty, quotes = [], nextQuoteID = 0\<rparr>"

section \<open>Operations\<close>

definition mem_CreateUpdateRequest ::
  "'d MemRepo \<Rightarrow> CurrencyRateUpdateRequest \<Rightarrow> string \<Rightarrow> unit go \<times> 'd MemRepo" where
  "mem_CreateUpdateRequest r req key =
     (if key \<noteq> [] \<and> idempotencyIndex r key \<noteq> None then (Err ErrIdempotencyKeyExists, r)
      else
        let r1 = r\<lparr>records := AList.update (ID req)
                     \<lparr>q_req = req, q_key = key, q_next = CreatedAt req, q_locked = 0, q_quoteID = 0\<rparr>
                     (records r)\<rparr>;
            r2 = (if key \<noteq> [] then r1\<lparr>idempotencyIndex := (idempotencyIndex r1)(key \<mapsto> ID req)\<rparr>
                  else r1)
        in (Ok (), r2))"

definition mem_GetByIdempotencyKey ::
  "'d MemRepo \<Rightarrow> string \<Rightarrow> CurrencyRateUpdateRequest go \<times> 'd MemRepo" where
  "mem_GetByIdempotencyKey r key =
     (case idempotencyIndex r key of
        None \<Rightarrow> (Err ErrNotFound, r)
      | Some i \<Rightarrow> (case map_of (records r) i of
                     None \<Rightarrow> (Panic, r)
                   | Some rec \<Rightarrow> (Ok (q_req rec), r)))"

text \<open>The switch of the candidate loop, and the new version of one candidate.\<close>

definition mem_candidate :: "gotime \<Rightarrow> gotime \<Rightarrow> queue_row \<Rightarrow> bool" where
  "mem_candidate now visibleSince rec =
     (case Status (q_req rec) of
        StatusPending \<Rightarrow> \<not> time_After (q_next rec) now
      | StatusInProgress \<Rightarrow> time_Before (q_locked rec) visibleSince
      | _ \<Rightarrow> False)"

definition mem_claim_next :: "gotime \<Rightarrow> queue_row \<Rightarrow> CurrencyRateUpdateRequest go" where
  "mem_claim_next now rec =
     (if Status (q_req rec) = StatusPending
      then case TransitionTo (q_req rec) StatusInProgress now of
             Ok next \<Rightarrow> Ok (next\<lparr>Attempts := Attempts next + 1\<rparr>)
           | Err e \<Rightarrow> Err e
           | Panic \<Rightarrow> Panic
      else Ok ((q_req rec)\<lparr>UpdatedAt := now\<rparr>))"

fun mem_claim_all :: "gotime \<Rightarrow> (uuid \<times> queue_row) list \<Rightarrow> CurrencyRateUpdateRequest list go" where
  "mem_claim_all now [] = Ok []"
| "mem_claim_all now ((i, rec) # cs) =
     (case mem_claim_next now rec of
        Err e \<Rightarrow> Err e
      | Panic \<Rightarrow> Panic
      | Ok next \<Rightarrow> (case mem_claim_all now cs of
                       Err e \<Rightarrow> Err e
                     | Panic \<Rightarrow> Panic
                     | Ok claimed \<Rightarrow> Ok (next # claimed)))"

fun mem_store_claimed ::
  "gotime \<Rightarrow> (uuid \<times> queue_row) list \<Rightarrow> CurrencyRateUpdateRequest list
     \<Rightarrow> (uuid \<times> queue_row) list \<Rightarrow> (uuid \<times> queue_row) list" where
  "mem_store_claimed now ((i, rec) # cs) (req # reqs) recs =
     mem_store_claimed now cs reqs (AList.update i (rec\<lparr>q_req := req, q_locked := now\<rparr>) recs)"
| "mem_store_claimed now cs reqs recs = recs"

definition claim_key :: "uuid \<times> queue_row \<Rightarrow> gotime \<times> string" where
  "claim_key c = (q_next (snd c), uuid_String (ID (q_req (snd c))))"

definition mem_ClaimBatch ::
  "'d MemRepo \<Rightarrow> int \<Rightarrow> gotime \<Rightarrow> gotime \<Rightarrow> CurrencyRateUpdateRequest list go \<times> 'd MemRepo" where
  "mem_ClaimBatch r limit now visibleSince =
     (let sorted = sort_key claim_key (filter (\<lambda>c. mem_candidate now visibleSince (snd c)) (records r))
      in if limit < int (length sorted) \<and> limit < 0 then (Panic, r)
         else
           let candidates = (if limit < int (length sorted) then take (nat limit) sorted else sorted)
           in case mem_claim_all now candidates of
                Err e \<Rightarrow> (Err e, r)
              | Panic \<Rightarrow> (Panic, r)
              | Ok claimed \<Rightarrow>
                  (Ok claimed, r\<lparr>records := mem_store_claimed now candidates claimed (records r)\<rparr>))"

definition transitionRecord ::
  "'d MemRepo \<Rightarrow> uuid \<Rightarrow> CurrencyRateUpdateStatus \<Rightarrow> gotime
     \<Rightarrow> (queue_row \<times> CurrencyRateUpdateRequest) go" where
  "transitionRecord r i next now =
     (case map_of (records r) i of
        None \<Rightarrow> Err ErrNotFound
      | Some rec \<Rightarrow> (case TransitionTo (q_req rec) next now of
                       Err e \<Rightarrow> Err e
                     | Panic \<Rightarrow> Panic
                     | Ok updated \<Rightarrow> Ok (rec, updated)))"

fun find_quote ::
  "CurrencyPair \<Rightarrow> 'd CurrencyRate \<Rightarrow> (int \<times> 'd quote_row) list \<Rightarrow> int option" where
  "find_quote pair rate [] = None"
| "find_quote pair rate ((k, q) # qs) =
     (if fst q = pair \<and> Provider (snd q) = Provider rate \<and> QuotedAt (snd q) = QuotedAt rate
      then Some k else find_quote pair rate qs)"

definition findOrCreateQuote ::
  "'d MemRepo \<Rightarrow> CurrencyPair \<Rightarrow> 'd CurrencyRate \<Rightarrow> int \<times> 'd MemRepo" where
  "findOrCreateQuote r pair rate =
     (case find_quote pair rate (quotes r) of
        Some k \<Rightarrow> (k, r)
      | None \<Rightarrow>
          let k = nextQuoteID r + 1
          in (k, r\<lparr>nextQuoteID := k, quotes := AList.update k (pair, rate) (quotes r)\<rparr>))"

definition mem_CompleteSuccess ::
  "'d MemRepo \<Rightarrow> uuid \<Rightarrow> CurrencyPair \<Rightarrow> 'd CurrencyRate \<Rightarrow> gotime \<Rightarrow> unit go \<times> 'd MemRepo" where
  "mem_CompleteSuccess r i pair rate now =
     (case transitionRecord r i StatusSucceeded now of
        Err e \<Rightarrow> (Err e, r)
      | Panic \<Rightarrow> (Panic, r)
      | Ok (rec, next) \<Rightarrow>
          let next1 = next\<lparr>ErrorCode := [], ErrorMessage := [], Reused := False\<rparr>;
              (k, r1) = findOrCreateQuote r pair rate
          in (Ok (), r1\<lparr>records := AList.update i (rec\<lparr>q_quoteID := k, q_req := next1\<rparr>) (records r1)\<rparr>))"

definition mem_CompleteSuccessReuse ::
  "'d MemRepo \<Rightarrow> uuid \<Rightarrow> int \<Rightarrow> gotime \<Rightarrow> unit go \<times> 'd MemRepo" where
  "mem_CompleteSuccessReuse r i quoteID now =
     (case transitionRecord r i StatusSucceeded now of
        Err e \<Rightarrow> (Err e, r)
      | Panic \<Rightarrow> (Panic, r)
      | Ok (rec, next) \<Rightarrow>
          let next1 = next\<lparr>ErrorCode := [], ErrorMessage := [], Reused := True\<rparr>
          in (Ok (), r\<lparr>records := AList.update i (rec\<lparr>q_quoteID := quoteID, q_req := next1\<rparr>) (records r)\<rparr>))"

definition mem_CompleteFailure ::
  "'d MemRepo \<Rightarrow> uuid \<Rightarrow> string \<Rightarrow> string \<Rightarrow> bool \<Rightarrow> gotime \<Rightarrow> gotime \<Rightarrow> unit go \<times> 'd MemRepo" where
  "mem_CompleteFailure r i errCode errMessage retryable nextAttemptAt now =
     (case transitionRecord r i (if retryable then StatusPending else StatusFailed) now of
        Err e \<Rightarrow> (Err e, r)
      | Panic \<Rightarrow> (Panic, r)
      | Ok (rec, next) \<Rightarrow>
          let next1 = next\<lparr>ErrorCode := errCode, ErrorMessage := errMessage\<rparr>;
              rec1 = rec\<lparr>q_req := next1\<rparr>;
              rec2 = (if retryable then rec1\<lparr>q_next := nextAttemptAt\<rparr> else rec1)
          in (Ok (), r\<lparr>records := AList.update i rec2 (records r)\<rparr>))"

definition mem_GetUpdateByID ::
  "'d::zero MemRepo \<Rightarrow> uuid \<Rightarrow> (CurrencyRateUpdateRequest \<times> 'd CurrencyRate option) go \<times> 'd MemRepo" where
  "mem_GetUpdateByID r i =
     (case map_of (records r) i of
        None \<Rightarrow> (Err ErrNotFound, r)
      | Some rec \<Rightarrow>
          if q_quoteID rec = 0 then (Ok (q_req rec, None), r)
          else (Ok (q_req rec, Some (case map_of (quotes r) (q_quoteID rec) of
                                       None \<Rightarrow> zeroRate
                                     | Some q \<Rightarrow> snd q)), r))"

text \<open>The loop of \<open>GetLatestQuote\<close>: \<open>None\<close> is \<open>found = false\<close>.\<close>

definition better_quote :: "'d CurrencyRate \<times> int \<Rightarrow> int \<times> 'd quote_row \<Rightarrow> bool" where
  "better_quote best kq \<longleftrightarrow>
     time_After (QuotedAt (snd (snd kq))) (QuotedAt (fst best))
     \<or> (QuotedAt (snd (snd kq)) = QuotedAt (fst best) \<and> snd best < fst kq)"

fun latest_loop ::
  "CurrencyPair \<Rightarrow> (int \<times> 'd quote_row) list \<Rightarrow> ('d CurrencyRate \<times> int) option
     \<Rightarrow> ('d CurrencyRate \<times> int) option" where
  "latest_loop pair [] best = best"
| "latest_loop pair (kq # qs) best =
     (if fst (snd kq) \<noteq> pair then latest_loop pair qs best
      else case best of
             None \<Rightarrow> latest_loop pair qs (Some (snd (snd kq), fst kq))
           | Some b \<Rightarrow>
               if better_quote b kq then latest_loop pair qs (Some (snd (snd kq), fst kq))
               else latest_loop pair qs best)"

definition mem_GetLatestQuote ::
  "'d MemRepo \<Rightarrow> CurrencyPair \<Rightarrow> ('d CurrencyRate \<times> int) go \<times> 'd MemRepo" where
  "mem_GetLatestQuote r pair =
     (case latest_loop pair (quotes r) None of
        None \<Rightarrow> (Err ErrNotFound, r)
      | Some (rate, k) \<Rightarrow> (Ok (rate, k), r))"

definition mem_ops :: "('d::zero MemRepo, 'd) Repository_ops" where
  "mem_ops = \<lparr>CreateUpdateRequest = mem_CreateUpdateRequest,
     GetByIdempotencyKey = mem_GetByIdempotencyKey, ClaimBatch = mem_ClaimBatch,
     CompleteSuccess = mem_CompleteSuccess, CompleteSuccessReuse = mem_CompleteSuccessReuse,
     CompleteFailure = mem_CompleteFailure, GetUpdateByID = mem_GetUpdateByID,
     GetLatestQuote = mem_GetLatestQuote\<rparr>"

section \<open>The representation\<close>

definition mem_abs :: "'d MemRepo \<Rightarrow> 'd store" where
  "mem_abs r = \<lparr>st_rows = map_of (records r), st_quotes = map_of (quotes r)\<rparr>"

text \<open>The index holds exactly the non-empty keys of the records.\<close>

definition index_ok :: "(uuid \<Rightarrow> queue_row option) \<Rightarrow> (string \<Rightarrow> uuid option) \<Rightarrow> bool" where
  "index_ok m idx \<longleftrightarrow> (\<forall>k i. idx k = Some i \<longleftrightarrow> k \<noteq> [] \<and> map_option q_key (m i) = Some k)"

definition ids_ok :: "(uuid \<Rightarrow> queue_row option) \<Rightarrow> bool" where
  "ids_ok m \<longleftrightarrow> (\<forall>i q. m i = Some q \<longrightarrow> ID (q_req q) = i)"

definition mem_inv :: "'d MemRepo \<Rightarrow> bool" where
  "mem_inv r \<longleftrightarrow>
     distinct (map fst (records r)) \<and> distinct (map fst (quotes r))
     \<and> ids_ok (map_of (records r)) \<and> index_ok (map_of (records r)) (idempotencyIndex r)
     \<and> (\<forall>k. map_of (quotes r) k \<noteq> None \<longrightarrow> 0 < k \<and> k \<le> nextQuoteID r) \<and> 0 \<le> nextQuoteID r"

lemma mem_abs_sel [simp]:
  "st_rows (mem_abs r) = map_of (records r)" "st_quotes (mem_abs r) = map_of (quotes r)"
  by (simp_all add: mem_abs_def)

lemma mem_inv_New: "mem_inv NewRepository"
  by (simp add: mem_inv_def NewRepository_def ids_ok_def index_ok_def)

lemma mem_abs_New: "mem_abs NewRepository = empty_store"
  by (simp add: mem_abs_def NewRepository_def empty_store_def)

lemma index_ok_cong:
  "index_ok m idx \<Longrightarrow> (\<And>j. map_option q_key (m' j) = map_option q_key (m j)) \<Longrightarrow> index_ok m' idx"
  by (simp only: index_ok_def simp_thms)

lemma index_ok_update:
  "index_ok m idx \<Longrightarrow> m i = Some q \<Longrightarrow> q_key q' = q_key q \<Longrightarrow> index_ok (m(i \<mapsto> q')) idx"
  by (erule index_ok_cong) simp

lemma index_ok_new:
  assumes "index_ok m idx" "m i = None" "q_key q = [] \<or> idx (q_key q) = None"
  shows "index_ok (m(i \<mapsto> q)) (if q_key q \<noteq> [] then idx(q_key q \<mapsto> i) else idx)"
proof -
  have none: "map_option q_key (m i) \<noteq> Some k" for k using assms(2) by simp
  have "(if q_key q \<noteq> [] then idx(q_key q \<mapsto> i) else idx) k = Some j
      \<longleftrightarrow> k \<noteq> [] \<and> map_option q_key ((m(i \<mapsto> q)) j) = Some k" for k j
    using assms(1,3) none [of k] unfolding index_ok_def
    by (cases "j = i"; cases "k = q_key q"; cases "q_key q = []")
       (simp_all, (metis option.distinct(1))+)
  then show ?thesis by (simp only: index_ok_def simp_thms)
qed

lemma key_used_index:
  assumes "mem_inv r"
  shows "key_used (mem_abs r) k \<longleftrightarrow> k \<noteq> [] \<and> idempotencyIndex r k \<noteq> None"
proof -
  have "idempotencyIndex r k = Some i \<longleftrightarrow> k \<noteq> [] \<and> map_option q_key (map_of (records r) i) = Some k" for i
    using assms by (simp add: mem_inv_def index_ok_def)
  then show ?thesis by (auto simp: key_used_def)
qed

lemma mem_inv_update_row:
  assumes "mem_inv r" "map_of (records r) i = Some q" "q_key q' = q_key q" "ID (q_req q') = i"
  shows "mem_inv (r\<lparr>records := AList.update i q' (records r)\<rparr>)"
  using assms index_ok_update [of "map_of (records r)" "idempotencyIndex r" i q q']
  by (simp add: mem_inv_def map_of_update distinct_update ids_ok_def)

lemma mem_inv_ID: "mem_inv r \<Longrightarrow> map_of (records r) i = Some q \<Longrightarrow> ID (q_req q) = i"
  by (simp add: mem_inv_def ids_ok_def)

section \<open>The contract, operation by operation\<close>

lemma mem_create_spec:
  assumes inv: "mem_inv r" and fresh: "fresh_request (mem_abs r) req"
    and run: "mem_CreateUpdateRequest r req key = (res, r')"
  shows "mem_inv r' \<and> create_spec (\<lambda>t. t) (mem_abs r) req key res (mem_abs r')"
proof (cases "key_used (mem_abs r) key")
  case True
  with run inv show ?thesis
    by (auto simp: mem_CreateUpdateRequest_def key_used_index create_spec_def)
next
  case False
  let ?q = "\<lparr>q_req = req, q_key = key, q_next = CreatedAt req, q_locked = 0, q_quoteID = 0\<rparr>"
  have none: "map_of (records r) (ID req) = None" using fresh by (simp add: fresh_request_def)
  have row: "new_row (\<lambda>t. t) req key = ?q" by (simp add: new_row_def)
  have unused: "q_key ?q = [] \<or> idempotencyIndex r (q_key ?q) = None"
    using False inv by (simp add: key_used_index)
  have "index_ok (map_of (records r)) (idempotencyIndex r)" using inv by (simp add: mem_inv_def)
  note index = index_ok_new [OF this none unused]
  from run False inv have res: "res = Ok ()"
    and r': "r' = r\<lparr>records := AList.update (ID req) ?q (records r),
      idempotencyIndex := (if key \<noteq> [] then (idempotencyIndex r)(key \<mapsto> ID req)
                           else idempotencyIndex r)\<rparr>"
    by (auto simp: mem_CreateUpdateRequest_def key_used_index Let_def split: if_splits)
  have "mem_inv r'"
    using inv index
    by (cases "key = []") (simp_all add: r' mem_inv_def map_of_update distinct_update ids_ok_def)
  moreover have "mem_abs r' = (mem_abs r)\<lparr>st_rows := (st_rows (mem_abs r))(ID req \<mapsto> ?q)\<rparr>"
    by (simp add: r' mem_abs_def map_of_update)
  ultimately show ?thesis using False res by (simp add: create_spec_def row)
qed

lemma mem_by_key_spec:
  assumes inv: "mem_inv r" and run: "mem_GetByIdempotencyKey r key = (res, r')"
  shows "mem_inv r' \<and> by_key_spec (mem_abs r) key res (mem_abs r')"
proof (cases "idempotencyIndex r key")
  case None
  with run inv show ?thesis by (simp add: mem_GetByIdempotencyKey_def by_key_spec_def key_used_index)
next
  case (Some i)
  with inv obtain q where q: "map_of (records r) i = Some q" "q_key q = key" "key \<noteq> []"
    by (auto simp: mem_inv_def index_ok_def)
  then have used: "key_used (mem_abs r) key" by (auto simp: key_used_def)
  have "res = Ok ((q_req q)\<lparr>Reused := Reused (q_req q)\<rparr>)" "r' = r"
    using run Some q by (simp_all add: mem_GetByIdempotencyKey_def)
  with q used inv show ?thesis
    unfolding by_key_spec_def by (metis mem_abs_sel(1))
qed

subsection \<open>Claiming a batch\<close>

lemma mem_candidate_claimable: "mem_candidate now vis q = claimable now vis q"
  by (cases "Status (q_req q)") (auto simp: mem_candidate_def claimable_def go_defs)

lemma mem_claim_next_claimed:
  "claimable n v q \<Longrightarrow> mem_claim_next now q = Ok (q_req (claimed_row now q))"
  by (cases "q_req q") (auto simp: mem_claim_next_def claimable_def claimed_row_def TransitionTo_def)

lemma mem_claim_all_claimed:
  "\<forall>c \<in> set cs. claimable n v (snd c) \<Longrightarrow>
   mem_claim_all now cs = Ok (map (\<lambda>c. q_req (claimed_row now (snd c))) cs)"
  by (induction cs) (auto simp: mem_claim_next_claimed)

lemma claimed_row_eq: "q\<lparr>q_req := q_req (claimed_row now q), q_locked := now\<rparr> = claimed_row now q"
  by (simp add: claimed_row_def)

lemma mem_store_claimed_map:
  assumes "distinct (map fst cs)" "\<forall>c \<in> set cs. map_of recs (fst c) = Some (snd c)"
  shows "map_of (mem_store_claimed now cs (map (\<lambda>c. q_req (claimed_row now (snd c))) cs) recs) =
    (\<lambda>i. if i \<in> fst ` set cs then map_option (claimed_row now) (map_of recs i) else map_of recs i)"
  using assms
proof (induction cs arbitrary: recs)
  case Nil
  then show ?case by simp
next
  case (Cons c cs)
  obtain i q where c: "c = (i, q)" by (cases c)
  let ?recs = "AList.update i (claimed_row now q) recs"
  have "\<forall>c \<in> set cs. map_of ?recs (fst c) = Some (snd c)"
    using Cons.prems c by (auto simp: map_of_update)
  with Cons.IH [of ?recs] Cons.prems c show ?case
    by (auto simp: fun_eq_iff map_of_update claimed_row_eq)
qed

lemma mem_store_claimed_distinct:
  "distinct (map fst recs) \<Longrightarrow> distinct (map fst (mem_store_claimed now cs reqs recs))"
  by (induction now cs reqs recs rule: mem_store_claimed.induct) (simp_all add: distinct_update)

lemma claimed_row_ID [simp]: "ID (q_req (claimed_row now q)) = ID (q_req q)"
  by (simp add: claimed_row_def)

text \<open>The due records, as the list the code sorts and cuts.\<close>

lemma due_list:
  fixes now vis :: gotime
  assumes "mem_inv r"
  defines "due \<equiv> filter (\<lambda>c. mem_candidate now vis (snd c)) (records r)"
  shows "distinct (map fst due)"
    "fst ` set due = {i. \<exists>q. map_of (records r) i = Some q \<and> claimable now vis q}"
    "card {i. \<exists>q. map_of (records r) i = Some q \<and> claimable now vis q} = length due"
    "\<And>c. c \<in> set due \<Longrightarrow> map_of (records r) (fst c) = Some (snd c) \<and> claimable now vis (snd c)"
proof -
  have d: "distinct (map fst (records r))" using assms(1) by (simp add: mem_inv_def)
  then show dist: "distinct (map fst due)" by (simp add: due_def distinct_map_filter)
  show mem: "\<And>c. c \<in> set due \<Longrightarrow> map_of (records r) (fst c) = Some (snd c) \<and> claimable now vis (snd c)"
    using d by (auto simp: due_def mem_candidate_claimable)
  show eq: "fst ` set due = {i. \<exists>q. map_of (records r) i = Some q \<and> claimable now vis q}"
    using d by (force simp: due_def mem_candidate_claimable)
  show "card {i. \<exists>q. map_of (records r) i = Some q \<and> claimable now vis q} = length due"
    using dist by (metis eq distinct_card length_map list.set_map)
qed

lemma mem_claim_run:
  assumes inv: "mem_inv r" and limit: "0 \<le> limit"
    and run: "mem_ClaimBatch r limit now vis = (res, r')"
  defines "cs \<equiv> take (nat limit) (sort_key claim_key
      (filter (\<lambda>c. mem_candidate now vis (snd c)) (records r)))"
  shows "res = Ok (map (\<lambda>c. q_req (claimed_row now (snd c))) cs)"
    "r' = r\<lparr>records := mem_store_claimed now cs
        (map (\<lambda>c. q_req (claimed_row now (snd c))) cs) (records r)\<rparr>"
proof -
  let ?s = "sort_key claim_key (filter (\<lambda>c. mem_candidate now vis (snd c)) (records r))"
  have cs: "(if limit < int (length ?s) then take (nat limit) ?s else ?s) = cs"
    using limit by (auto simp: cs_def nat_le_iff)
  have "\<forall>c \<in> set cs. claimable now vis (snd c)"
    unfolding cs_def using due_list(4) [OF inv] by (auto dest!: in_set_takeD)
  note all = mem_claim_all_claimed [OF this, of now]
  show "res = Ok (map (\<lambda>c. q_req (claimed_row now (snd c))) cs)"
    "r' = r\<lparr>records := mem_store_claimed now cs
        (map (\<lambda>c. q_req (claimed_row now (snd c))) cs) (records r)\<rparr>"
    using run limit unfolding mem_ClaimBatch_def Let_def cs all by (auto split: if_splits)
qed

lemma mem_claim_spec:
  assumes inv: "mem_inv r" and limit: "0 \<le> limit"
    and run: "mem_ClaimBatch r limit now vis = (res, r')"
  shows "mem_inv r' \<and> claim_spec (\<lambda>t. t) (mem_abs r) limit now vis res (mem_abs r')"
proof -
  define due where "due = filter (\<lambda>c. mem_candidate now vis (snd c)) (records r)"
  define cs where "cs = take (nat limit) (sort_key claim_key due)"
  let ?claimed = "map (\<lambda>c. q_req (claimed_row now (snd c))) cs"
  note D = due_list [OF inv, where now = now and vis = vis, folded due_def]
  have res: "res = Ok ?claimed"
    and r': "r' = r\<lparr>records := mem_store_claimed now cs ?claimed (records r)\<rparr>"
    using mem_claim_run [OF inv limit run] by (simp_all add: due_def cs_def)
  have sub: "set cs \<subseteq> set due" using set_take_subset by (fastforce simp: cs_def)
  have dist: "distinct (map fst cs)"
    using D(1) by (simp add: cs_def take_map [symmetric] distinct_map)
  have mem: "\<forall>c \<in> set cs. map_of (records r) (fst c) = Some (snd c)" using D(4) sub by auto
  have rows: "map_of (records r') = (\<lambda>i. if i \<in> fst ` set cs
      then map_option (claimed_row now) (map_of (records r) i) else map_of (records r) i)"
    using mem_store_claimed_map [OF dist mem] by (simp add: r')
  have ids: "map ID ?claimed = map fst cs"
    using mem inv by (auto simp: mem_inv_ID)
  then have taken: "ID ` set ?claimed = fst ` set cs" by (metis list.set_map)
  have keys: "map_option q_key (map_of (records r') j) = map_option q_key (map_of (records r) j)" for j
    by (simp add: rows option.map_comp comp_def)
  have "ids_ok (map_of (records r'))"
    unfolding ids_ok_def rows using mem_inv_ID [OF inv] by auto
  moreover have "index_ok (map_of (records r')) (idempotencyIndex r)"
  proof (rule index_ok_cong [where m = "map_of (records r)"])
    show "index_ok (map_of (records r)) (idempotencyIndex r)" using inv by (simp add: mem_inv_def)
  qed (rule keys)
  moreover have "distinct (map fst (records r'))"
    using inv mem_store_claimed_distinct by (simp add: mem_inv_def r')
  ultimately have "mem_inv r'" using inv unfolding mem_inv_def by (simp add: r')
  have len: "length ?claimed = min (nat limit) (card {i. \<exists>q. map_of (records r) i = Some q
      \<and> claimable now vis q})"
    unfolding D(3) by (simp add: cs_def min.commute)
  have returned: "\<exists>q. map_of (records r') (ID req) = Some q \<and> req\<lparr>Reused := Reused (q_req q)\<rparr> = q_req q"
    if "req \<in> set ?claimed" for req
  proof -
    from that obtain c where c: "c \<in> set cs" "req = q_req (claimed_row now (snd c))" by auto
    with mem inv have "ID req = fst c" by (auto simp: mem_inv_ID)
    with c mem show ?thesis by (auto simp: rows)
  qed
  have prio: "q_next q \<le> q_next q'"
    if "i \<in> fst ` set cs" "j \<in> fst ` set due - fst ` set cs" "map_of (records r) i = Some q"
      "map_of (records r) j = Some q'" for i j q q'
  proof -
    let ?s = "sort_key claim_key due"
    from that(1,3) mem have i: "(i, q) \<in> set (take (nat limit) ?s)" by (auto simp: cs_def)
    from that(2,4) D(4) have "(j, q') \<in> set ?s" "(j, q') \<notin> set cs" by force+
    then have j: "(j, q') \<in> set (drop (nat limit) ?s)"
      by (metis Un_iff append_take_drop_id cs_def set_append)
    have "sorted (map claim_key (take (nat limit) ?s @ drop (nat limit) ?s))" by simp
    with i j have "claim_key (i, q) \<le> claim_key (j, q')"
      unfolding map_append sorted_append by (metis image_eqI list.set_map)
    then show ?thesis by (auto simp: claim_key_def)
  qed
  have "claim_spec (\<lambda>t. t) (mem_abs r) limit now vis res (mem_abs r')"
  proof (rule claim_specI [OF res, where due = "fst ` set due" and taken = "fst ` set cs"])
    show "{i. \<exists>q. st_rows (mem_abs r) i = Some q \<and> claimable now vis q} = fst ` set due"
      by (simp only: mem_abs_sel D(2))
    show "length ?claimed = min (nat limit) (card (fst ` set due))"
      by (simp only: len D(2))
    show "distinct (map ID ?claimed)" by (simp only: ids dist)
    show "fst ` set cs \<subseteq> fst ` set due" using sub by blast
    show "\<exists>q. st_rows (mem_abs r') (ID req) = Some q \<and> req\<lparr>Reused := Reused (q_req q)\<rparr> = q_req q"
      if "req \<in> set ?claimed" for req
      using returned [OF that] by (simp only: mem_abs_sel)
    show "st_rows (mem_abs r') = (\<lambda>i. if i \<in> fst ` set cs
        then map_option (claimed_row now) (st_rows (mem_abs r) i) else st_rows (mem_abs r) i)"
      by (simp only: mem_abs_sel rows)
    show "st_quotes (mem_abs r') = st_quotes (mem_abs r)" by (simp add: r')
  qed (use prio in \<open>simp_all only: taken mem_abs_sel\<close>)
  with \<open>mem_inv r'\<close> show ?thesis ..
qed

subsection \<open>Completing a request\<close>

lemma transitionRecord_cases:
  assumes "next \<in> {StatusSucceeded, StatusFailed, StatusPending}"
  shows "(map_of (records r) i = None \<and> transitionRecord r i next now = Err ErrNotFound)
    \<or> (\<exists>q. map_of (records r) i = Some q \<and> Status (q_req q) \<noteq> StatusInProgress
         \<and> transitionRecord r i next now = Err (ErrInvalidTransition (Status (q_req q)) next))
    \<or> (\<exists>q. map_of (records r) i = Some q \<and> Status (q_req q) = StatusInProgress
         \<and> transitionRecord r i next now = Ok (q, (q_req q)\<lparr>Status := next, UpdatedAt := now\<rparr>))"
proof (cases "map_of (records r) i")
  case None
  then show ?thesis by (simp add: transitionRecord_def)
next
  case (Some q)
  with assms show ?thesis
    by (cases "Status (q_req q)") (auto simp: transitionRecord_def TransitionTo_def)
qed

lemma find_quote_Some:
  "find_quote p rate qs = Some k \<Longrightarrow> \<exists>x. (k, x) \<in> set qs \<and> same_quote p rate x"
proof (induction p rate qs rule: find_quote.induct)
  case (2 p rate k' q qs)
  then show ?case by (cases q; cases "same_quote p rate q") (auto simp: same_quote_def split: if_splits)
qed simp

lemma find_quote_None:
  "find_quote p rate qs = None \<Longrightarrow> map_of qs k = Some x \<Longrightarrow> \<not> same_quote p rate x"
  by (induction p rate qs rule: find_quote.induct) (auto simp: same_quote_def split: if_splits)

lemma findOrCreateQuote_spec:
  assumes inv: "mem_inv r" and run: "findOrCreateQuote r p rate = (k, r')"
  shows "mem_inv r'" "records r' = records r" "0 < k"
    "if \<exists>l x. map_of (quotes r) l = Some x \<and> same_quote p rate x
     then map_of (quotes r') = map_of (quotes r)
          \<and> (\<exists>x. map_of (quotes r) k = Some x \<and> same_quote p rate x)
     else map_of (quotes r) k = None \<and> map_of (quotes r') = (map_of (quotes r))(k \<mapsto> (p, rate))"
proof -
  have d: "distinct (map fst (quotes r))"
    and range: "\<And>l. map_of (quotes r) l \<noteq> None \<Longrightarrow> 0 < l \<and> l \<le> nextQuoteID r" "0 \<le> nextQuoteID r"
    using inv by (auto simp: mem_inv_def)
  have "mem_inv r' \<and> records r' = records r \<and> 0 < k \<and>
    (if \<exists>l x. map_of (quotes r) l = Some x \<and> same_quote p rate x
     then map_of (quotes r') = map_of (quotes r)
          \<and> (\<exists>x. map_of (quotes r) k = Some x \<and> same_quote p rate x)
     else map_of (quotes r) k = None \<and> map_of (quotes r') = (map_of (quotes r))(k \<mapsto> (p, rate)))"
  proof (cases "find_quote p rate (quotes r)")
    case (Some l)
    with run have [simp]: "k = l" "r' = r" by (simp_all add: findOrCreateQuote_def)
    from find_quote_Some [OF Some] d obtain x
      where x: "map_of (quotes r) l = Some x" "same_quote p rate x" by auto
    then have ex: "\<exists>l x. map_of (quotes r) l = Some x \<and> same_quote p rate x" by blast
    from x range(1) [of l] inv show ?thesis unfolding if_P [OF ex] by auto
  next
    case None
    let ?k = "nextQuoteID r + 1"
    from None run have [simp]: "k = ?k"
      and r': "r' = r\<lparr>nextQuoteID := ?k, quotes := AList.update ?k (p, rate) (quotes r)\<rparr>"
      by (auto simp: findOrCreateQuote_def Let_def)
    have fresh: "map_of (quotes r) ?k = None" using range(1) [of ?k] by (cases "map_of (quotes r) ?k") auto
    have "mem_inv r'"
      using inv range by (fastforce simp: mem_inv_def r' map_of_update distinct_update)
    moreover have "\<not> (\<exists>l x. map_of (quotes r) l = Some x \<and> same_quote p rate x)"
      using find_quote_None [OF None] by blast
    ultimately show ?thesis using fresh range(2) by (simp add: r' map_of_update)
  qed
  then show "mem_inv r'" "records r' = records r" "0 < k"
    "if \<exists>l x. map_of (quotes r) l = Some x \<and> same_quote p rate x
     then map_of (quotes r') = map_of (quotes r)
          \<and> (\<exists>x. map_of (quotes r) k = Some x \<and> same_quote p rate x)
     else map_of (quotes r) k = None \<and> map_of (quotes r') = (map_of (quotes r))(k \<mapsto> (p, rate))"
    by blast+
qed

lemma quoteID_req_swap: "q\<lparr>q_quoteID := k, q_req := x\<rparr> = q\<lparr>q_req := x, q_quoteID := k\<rparr>"
  by (cases q) simp

lemma mem_refused:
  assumes "transitionRecord r i next now = Err e" "next \<in> {StatusSucceeded, StatusFailed, StatusPending}"
  shows "transition_refused (mem_abs r) i (Err e) (mem_abs r)"
  using transitionRecord_cases [OF assms(2), of r i now] assms(1)
  by (auto simp: transition_refused_def)

lemma mem_success_spec:
  assumes inv: "mem_inv r" and run: "mem_CompleteSuccess r i p rate now = (res, r')"
  shows "mem_inv r' \<and> success_spec (\<lambda>t. t) (\<lambda>x. x) (mem_abs r) i p rate now res (mem_abs r')"
proof (cases "transitionRecord r i StatusSucceeded now")
  case (Err e)
  with run inv mem_refused [OF Err] show ?thesis
    by (simp add: mem_CompleteSuccess_def success_spec_def)
next
  case Panic
  then show ?thesis using transitionRecord_cases [of StatusSucceeded r i now] by auto
next
  case (Ok x)
  then obtain q where q: "map_of (records r) i = Some q" "Status (q_req q) = StatusInProgress"
    and t: "transitionRecord r i StatusSucceeded now
      = Ok (q, (q_req q)\<lparr>Status := StatusSucceeded, UpdatedAt := now\<rparr>)"
    using transitionRecord_cases [of StatusSucceeded r i now] by auto
  obtain k r1 where f: "findOrCreateQuote r p rate = (k, r1)" by fastforce
  note F = findOrCreateQuote_spec [OF inv f]
  from run t f have res: "res = Ok ()"
    and r': "r' = r1\<lparr>records := AList.update i (succeeded_row now k False q) (records r1)\<rparr>"
    by (auto simp: mem_CompleteSuccess_def Let_def succeeded_row_def quoteID_req_swap)
  have "mem_inv r'"
    unfolding r' using F(1,2) q inv
    by (intro mem_inv_update_row) (simp_all add: mem_inv_ID succeeded_row_def)
  moreover have "success_spec (\<lambda>t. t) (\<lambda>x. x) (mem_abs r) i p rate now res (mem_abs r')"
    unfolding success_spec_def
  proof (intro disjI2 exI [of _ q] exI [of _ k] conjI)
    show "st_rows (mem_abs r') = (st_rows (mem_abs r))(i \<mapsto> succeeded_row now k False q)"
      using F(2) by (simp add: r' map_of_update)
    have "quotes r' = quotes r1" by (simp add: r')
    then show "if \<exists>l x. st_quotes (mem_abs r) l = Some x \<and> same_quote p rate x
      then st_quotes (mem_abs r') = st_quotes (mem_abs r)
        \<and> (\<exists>x. st_quotes (mem_abs r) k = Some x \<and> same_quote p rate x)
      else st_quotes (mem_abs r) k = None
        \<and> st_quotes (mem_abs r') = (st_quotes (mem_abs r))(k \<mapsto> (p, rate))"
      using F(4) unfolding mem_abs_sel by (simp only:)
  qed (use q res F(3) in simp_all)
  ultimately show ?thesis ..
qed

lemma mem_reuse_spec:
  assumes inv: "mem_inv r" and run: "mem_CompleteSuccessReuse r i qid now = (res, r')"
  shows "mem_inv r' \<and> reuse_spec (\<lambda>t. t) (mem_abs r) i qid now res (mem_abs r')"
proof (cases "transitionRecord r i StatusSucceeded now")
  case (Err e)
  with run inv mem_refused [OF Err] show ?thesis
    by (simp add: mem_CompleteSuccessReuse_def reuse_spec_def)
next
  case Panic
  then show ?thesis using transitionRecord_cases [of StatusSucceeded r i now] by auto
next
  case (Ok x)
  then obtain q where q: "map_of (records r) i = Some q" "Status (q_req q) = StatusInProgress"
    and t: "transitionRecord r i StatusSucceeded now
      = Ok (q, (q_req q)\<lparr>Status := StatusSucceeded, UpdatedAt := now\<rparr>)"
    using transitionRecord_cases [of StatusSucceeded r i now] by auto
  from run t have res: "res = Ok ()"
    and r': "r' = r\<lparr>records := AList.update i (succeeded_row now qid True q) (records r)\<rparr>"
    by (auto simp: mem_CompleteSuccessReuse_def Let_def succeeded_row_def quoteID_req_swap)
  have "mem_inv r'"
    unfolding r' using q inv
    by (intro mem_inv_update_row) (simp_all add: mem_inv_ID succeeded_row_def)
  moreover have "mem_abs r' = (mem_abs r)\<lparr>st_rows := (st_rows (mem_abs r))(i \<mapsto> succeeded_row now qid True q)\<rparr>"
    by (simp add: r' mem_abs_def map_of_update)
  ultimately show ?thesis using q res by (auto simp: reuse_spec_def)
qed

lemma mem_failure_spec:
  assumes inv: "mem_inv r"
    and run: "mem_CompleteFailure r i code msg retryable next now = (res, r')"
  shows "mem_inv r' \<and> failure_spec (\<lambda>t. t) (mem_abs r) i code msg retryable next now res (mem_abs r')"
proof -
  let ?st = "if retryable then StatusPending else StatusFailed"
  have st: "?st \<in> {StatusSucceeded, StatusFailed, StatusPending}" by simp
  show ?thesis
  proof (cases "transitionRecord r i ?st now")
    case (Err e)
    from run Err have "res = Err e" "r' = r" by (simp_all only: mem_CompleteFailure_def) simp_all
    with inv mem_refused [OF Err st] show ?thesis by (simp add: failure_spec_def)
  next
    case Panic
    then show ?thesis using transitionRecord_cases [OF st, of r i now] by auto
  next
    case (Ok x)
    then obtain q where q: "map_of (records r) i = Some q" "Status (q_req q) = StatusInProgress"
      and t: "transitionRecord r i ?st now = Ok (q, (q_req q)\<lparr>Status := ?st, UpdatedAt := now\<rparr>)"
      using transitionRecord_cases [OF st, of r i now] by auto
    from run have res: "res = Ok ()"
      and r': "r' = r\<lparr>records := AList.update i (failed_row now code msg retryable next q) (records r)\<rparr>"
      unfolding mem_CompleteFailure_def t by (auto simp: Let_def failed_row_def)
    have "mem_inv r'"
      unfolding r' using q inv
      by (intro mem_inv_update_row) (simp_all add: mem_inv_ID failed_row_def)
    moreover have "mem_abs r' = (mem_abs r)\<lparr>st_rows := (st_rows (mem_abs r))
        (i \<mapsto> failed_row now code msg retryable next q)\<rparr>"
      by (simp add: r' mem_abs_def map_of_update)
    ultimately show ?thesis using q res by (auto simp: failure_spec_def)
  qed
qed

subsection \<open>Reading\<close>

lemma mem_by_id_spec:
  assumes inv: "mem_inv r" and ok: "store_ok (mem_abs r)" and run: "mem_GetUpdateByID r i = (res, r')"
  shows "mem_inv r' \<and> by_id_spec (mem_abs r) i res (mem_abs r')"
proof (cases "map_of (records r) i")
  case None
  with run inv show ?thesis by (simp add: mem_GetUpdateByID_def by_id_spec_def)
next
  case (Some q)
  have "q_quoteID q \<noteq> 0 \<Longrightarrow> \<exists>x. map_of (quotes r) (q_quoteID q) = Some x"
    using store_ok_rowD [OF ok, of i q] Some by (auto simp: row_ok_def)
  with run inv Some show ?thesis by (auto simp: mem_GetUpdateByID_def by_id_spec_def split: if_splits)
qed

text \<open>The loop keeps the entry with the greatest quoted-at, then the greatest id.\<close>

definition rank :: "'d CurrencyRate \<times> int \<Rightarrow> gotime \<times> int" where
  "rank b = (QuotedAt (fst b), snd b)"

lemma better_quote_rank: "better_quote b kq \<longleftrightarrow> rank b < rank (snd (snd kq), fst kq)"
  by (auto simp: better_quote_def rank_def go_defs)

lemma latest_loop_correct:
  "case latest_loop p qs best of
     None \<Rightarrow> best = None \<and> (\<forall>kq \<in> set qs. fst (snd kq) \<noteq> p)
   | Some b \<Rightarrow> (best = Some b \<or> (snd b, p, fst b) \<in> set qs)
       \<and> (\<forall>c. best = Some c \<longrightarrow> rank c \<le> rank b)
       \<and> (\<forall>kq \<in> set qs. fst (snd kq) = p \<longrightarrow> rank (snd (snd kq), fst kq) \<le> rank b)"
proof (induction p qs best rule: latest_loop.induct)
  case (1 p best)
  then show ?case by (simp split: option.split)
next
  case (2 p kq qs best)
  obtain k q r where kq: "kq = (k, q, r)" by (metis prod.exhaust)
  show ?case
  proof (cases "q = p")
    case False
    with 2(1) kq show ?thesis by (auto split: option.splits)
  next
    case True
    show ?thesis
    proof (cases best)
      case None
      with 2(2) [OF _ None] True kq show ?thesis by (auto split: option.splits)
    next
      case (Some b)
      show ?thesis
      proof (cases "better_quote b kq")
        case better: True
        with 2(3) [OF _ Some better] Some True kq show ?thesis
          by (auto simp: better_quote_rank split: option.splits)
      next
        case worse: False
        with 2(4) [OF _ Some worse] Some True kq show ?thesis
          by (auto simp: better_quote_rank split: option.splits)
      qed
    qed
  qed
qed

lemma mem_latest_spec:
  assumes inv: "mem_inv r" and run: "mem_GetLatestQuote r p = (res, r')"
  shows "mem_inv r' \<and> latest_spec (mem_abs r) p res (mem_abs r')"
proof -
  have mem: "(k, x) \<in> set (quotes r) \<longleftrightarrow> map_of (quotes r) k = Some x" for k x
    using inv by (simp add: mem_inv_def)
  note L = latest_loop_correct [where p = p and qs = "quotes r" and best = None]
  show ?thesis
  proof (cases "latest_loop p (quotes r) None")
    case None
    with run L have "res = Err ErrNotFound" "r' = r" "\<forall>kq \<in> set (quotes r). fst (snd kq) \<noteq> p"
      by (simp_all add: mem_GetLatestQuote_def)
    with inv mem show ?thesis by (fastforce simp: latest_spec_def)
  next
    case (Some b)
    obtain rate k where b: "b = (rate, k)" by (cases b)
    with run Some L have res: "res = Ok (rate, k)" "r' = r"
      and best: "(k, p, rate) \<in> set (quotes r)"
        "\<forall>kq \<in> set (quotes r). fst (snd kq) = p \<longrightarrow> rank (snd (snd kq), fst kq) \<le> rank (rate, k)"
      by (simp_all add: mem_GetLatestQuote_def)
    have "\<forall>k' r'. map_of (quotes r) k' = Some (p, r') \<longrightarrow> (QuotedAt r', k') \<le> (QuotedAt rate, k)"
      using best(2) mem by (fastforce simp: rank_def)
    with best(1) res inv mem show ?thesis unfolding latest_spec_def by auto
  qed
qed

section \<open>The in-memory repository keeps the contract\<close>

interpretation mem: repository mem_ops mem_abs mem_inv "\<lambda>t. t" "\<lambda>x. x"
proof (unfold_locales, goal_cases)
  case (1 s req key res s')
  then show ?case using mem_create_spec [of s req key res s'] by (simp add: mem_ops_def)
next
  case (2 s key res s')
  then show ?case using mem_by_key_spec [of s key res s'] by (simp add: mem_ops_def)
next
  case (3 s limit now vis res s')
  then show ?case using mem_claim_spec [of s limit now vis res s'] by (simp add: mem_ops_def)
next
  case (4 s p i rate now res s')
  then show ?case using mem_success_spec [of s i p rate now res s'] by (simp add: mem_ops_def)
next
  case (5 s qid i now res s')
  then show ?case using mem_reuse_spec [of s i qid now res s'] by (simp add: mem_ops_def)
next
  case (6 s i code msg retryable nxt now res s')
  then show ?case
    using mem_failure_spec [of s i code msg retryable nxt now res s'] by (simp add: mem_ops_def)
next
  case (7 s i res s')
  then show ?case using mem_by_id_spec [of s i res s'] by (simp add: mem_ops_def)
next
  case (8 s p res s')
  then show ?case using mem_latest_spec [of s p res s'] by (simp add: mem_ops_def)
qed

end
