(* ===== verification/FakeProvider.thy ===== *)
theory FakeProvider
  imports RateProvider RateLimiter Clock Float64
begin

text \<open>
  \<open>internal/provider/fake/adapter.go\<close>: the offline provider, its rolling
  requests-per-minute quota and its simulated delay. What is random (the two draws of a call, and
  whether the caller's context ends before the delay does) is read from the state;
  \<open>shopspring/decimal\<close> is a parameter.
\<close>

section \<open>Definitions\<close>

record 'd decimal_ops =
  dec_NewFromFloat :: "float64 \<Rightarrow> 'd"
  dec_Mul :: "'d \<Rightarrow> 'd \<Rightarrow> 'd"

text \<open>
  What the environment decides about one call: the draw of \<open>rand.N\<close>, the draw behind
  \<open>rand.Float64()\<close> and whether \<open>ctx.Done()\<close> is ready before the timer.
\<close>

record fake_draw =
  draw_delay :: nat
  draw_rate :: nat
  ctx_ends :: bool

record 'c FakeRateProvider =
  fk_clock :: 'c
  minDelay :: duration
  maxDelay :: duration
  rpmQuota :: int
  fk_quoteTTL :: duration
  callTimes :: "gotime list"
  fk_draws :: "nat \<Rightarrow> fake_draw"
  fk_turn :: nat

definition NewFakeRateProvider ::
  "'c \<Rightarrow> duration \<Rightarrow> duration \<Rightarrow> int \<Rightarrow> duration \<Rightarrow> (nat \<Rightarrow> fake_draw) \<Rightarrow> 'c FakeRateProvider" where
  "NewFakeRateProvider clock mind maxd rpm ttl draws =
     \<lparr>fk_clock = clock, minDelay = mind, maxDelay = maxd, rpmQuota = rpm, fk_quoteTTL = ttl,
      callTimes = [], fk_draws = draws, fk_turn = 0\<rparr>"

text \<open>The float literals \<open>0.92\<close>, \<open>17.50\<close>, \<open>1.09\<close>, \<open>19.00\<close>,
  \<open>0.057\<close> and \<open>0.053\<close>, as the compiler rounds them.\<close>

definition baseRates :: "(string \<times> float64) list" where
  "baseRates =
     [(''USD-EUR'', (8286623314361713, 53)), (''USD-MXN'', (35, 1)),
      (''EUR-USD'', (4908923593833841, 52)), (''EUR-MXN'', (19, 0)),
      (''MXN-USD'', (8214565720323785, 57)), (''MXN-EUR'', (7638104968020361, 57))]"

definition fake_StaleAfter :: "duration \<Rightarrow> string \<Rightarrow> gotime \<Rightarrow> gotime" where
  "fake_StaleAfter ttl quality quotedAt =
     (if quality = ''live'' then time_Add quotedAt (60 * Second) else time_Add quotedAt ttl)"

text \<open>
  \<open>1 + (rand.Float64()-0.5)*0.01\<close>: the subtraction is exact, the product has denominator
  \<open>2 ^ 112\<close> (the literal \<open>0.01\<close> is \<open>5764607523034235 / 2 ^ 59\<close>), and the sum is
  rounded at that scale.
\<close>

definition fake_jitter :: "nat \<Rightarrow> float64" where
  "fake_jitter k =
     (let x = int k - 2 ^ 52;
          p = sgn x * int (round53 (nat \<bar>x\<bar> * 5764607523034235))
      in (int (round53 (nat (2 ^ 112 + p))), 112))"

definition checkQuota ::
  "'c Clock_ops \<Rightarrow> 'c FakeRateProvider \<Rightarrow> unit go \<times> 'c FakeRateProvider" where
  "checkQuota C f =
     (if rpmQuota f \<le> 0 then (Ok (), f)
      else
        let (now, c') = Now C (fk_clock f);
            cutoff = time_Add now (- Minute);
            kept = filter (\<lambda>t. time_After t cutoff) (callTimes f);
            f1 = f\<lparr>fk_clock := c', callTimes := kept\<rparr>
        in if rpmQuota f \<le> int (length kept)
           then (failRate RateLimitedError
                   (''fake provider: exceeded '' @ itoa (rpmQuota f) @ '' requests/minute'')
                   True Minute ''rate_limited'', f1)
           else (Ok (), f1\<lparr>callTimes := kept @ [now]\<rparr>))"

text \<open>\<open>rand.N(n)\<close> is a value in \<open>[0, n)\<close>, and panics when \<open>n <= 0\<close>.\<close>

definition randomDelay :: "'c FakeRateProvider \<Rightarrow> fake_draw \<Rightarrow> duration go" where
  "randomDelay f d =
     (if maxDelay f \<le> minDelay f then Ok (minDelay f)
      else
        let n = wrap64 (maxDelay f - minDelay f)
        in if n \<le> 0 then Panic else Ok (wrap64 (minDelay f + int (draw_delay d) mod n)))"

definition simulateDelay :: "'c FakeRateProvider \<Rightarrow> fake_draw \<Rightarrow> unit go" where
  "simulateDelay f d =
     (case randomDelay f d of
        Ok delay \<Rightarrow> if delay \<le> 0 then Ok () else if ctx_ends d then Err ErrContext else Ok ()
      | Err e \<Rightarrow> Err e
      | Panic \<Rightarrow> Panic)"

definition fake_GetCurrencyRate ::
  "'c Clock_ops \<Rightarrow> 'd decimal_ops \<Rightarrow> 'c FakeRateProvider \<Rightarrow> CurrencyPair
     \<Rightarrow> 'd ProviderQuote go \<times> 'c FakeRateProvider" where
  "fake_GetCurrencyRate C D f0 pair =
     (let d = fk_draws f0 (fk_turn f0); f = f0\<lparr>fk_turn := fk_turn f0 + 1\<rparr>
      in case checkQuota C f of
           (Err e, f1) \<Rightarrow> (Err e, f1)
         | (Panic, f1) \<Rightarrow> (Panic, f1)
         | (Ok _, f1) \<Rightarrow>
             (case simulateDelay f1 d of
                Err e \<Rightarrow> (Err e, f1)
              | Panic \<Rightarrow> (Panic, f1)
              | Ok _ \<Rightarrow>
                  (case map_of baseRates (Slug pair ''-'') of
                     None \<Rightarrow> (failRate UnsupportedPairError
                               (''fake provider has no rate for '' @ Pair_String pair) False 0
                               ''unsupported_pair'', f1)
                   | Some start \<Rightarrow>
                       let jitter = dec_NewFromFloat D (fake_jitter (draw_rate d));
                           (now, c') = Now C (fk_clock f1)
                       in (Ok \<lparr>pq_Value = dec_Mul D (dec_NewFromFloat D start) jitter,
                              pq_Derived = False, pq_Quality = ''live'', pq_QuotedAt = now\<rparr>,
                           f1\<lparr>fk_clock := c'\<rparr>))))"

definition fake_provider ::
  "'c Clock_ops \<Rightarrow> 'd decimal_ops \<Rightarrow> duration \<Rightarrow> ('c FakeRateProvider, 'd) RateProvider_ops" where
  "fake_provider C D ttl = \<lparr>rp_GetCurrencyRate = fake_GetCurrencyRate C D, rp_Provider = ''fake'',
     rp_Indicative = True, rp_StaleAfter = fake_StaleAfter ttl\<rparr>"

section \<open>Lemmas\<close>

lemma checkQuota_cases:
  "fst (checkQuota C f) = Ok ()
   \<or> (0 < rpmQuota f \<and> (\<exists>r. fst (checkQuota C f) = Err (RateError r) \<and> err_code r = RateLimitedError
        \<and> err_retryable r \<and> err_retryAfter r = Minute))"
  by (auto simp: checkQuota_def Let_def split: prod.splits)

lemma simulateDelay_cases:
  "simulateDelay f d = Ok () \<or> simulateDelay f d = Err ErrContext \<or> simulateDelay f d = Panic"
  by (auto simp: simulateDelay_def randomDelay_def Let_def split: gores.splits)

lemma baseRates_pair_ok: "pair_ok p \<Longrightarrow> map_of baseRates (Slug p ''-'') \<noteq> None"
  by (drule pair_ok_cases) (auto simp: baseRates_def Slug_def)

lemma fake_GetCurrencyRate_outcome:
  assumes "fake_GetCurrencyRate C D f pair = (res, f')"
  shows "(\<exists>q. res = Ok q \<and> pq_Quality q = ''live'') \<or> res = Err ErrContext \<or> res = Panic
    \<or> (\<exists>r. res = Err (RateError r)
          \<and> (err_code r = RateLimitedError \<or> (err_code r = UnsupportedPairError \<and> \<not> pair_ok pair)))"
proof -
  let ?f = "f\<lparr>fk_turn := fk_turn f + 1\<rparr>"
  obtain res1 f1 where q: "checkQuota C ?f = (res1, f1)" by fastforce
  consider "res1 = Ok ()" | r where "res1 = Err (RateError r)" "err_code r = RateLimitedError"
    using checkQuota_cases [of C ?f] q by auto
  then show ?thesis
  proof cases
    case 1
    then show ?thesis
      using assms q simulateDelay_cases [of f1 "fk_draws f (fk_turn f)"] baseRates_pair_ok [of pair]
      by (auto simp: fake_GetCurrencyRate_def Let_def split: option.splits prod.splits)
  next
    case 2
    with assms q show ?thesis by (auto simp: fake_GetCurrencyRate_def Let_def)
  qed
qed

interpretation fake: rate_provider "fake_provider C D ttl" for C D ttl
proof
  fix p pair e p' r
  assume "rp_GetCurrencyRate (fake_provider C D ttl) p pair = (Err e, p')"
    and "errors_As_rate e = Some r"
  then show "ErrorCode_Valid (err_code r)"
    using fake_GetCurrencyRate_outcome [of C D p pair "Err e" p'] by (auto simp: fake_provider_def)
qed (simp add: fake_provider_def fake_StaleAfter_def go_defs)

text \<open>The jitter stays well within one per cent of 1.\<close>

lemma fake_jitter_bounds:
  assumes "k < 2 ^ 53"
  shows "1018 * 2 ^ 102 \<le> fst (fake_jitter k) \<and> fst (fake_jitter k) \<le> 1030 * 2 ^ 102"
proof -
  define x where "x = int k - 2 ^ 52"
  define p where "p = int (round53 (nat \<bar>x\<bar> * 5764607523034235))"
  have x: "nat \<bar>x\<bar> \<le> 2 ^ 52" using assms by (simp add: x_def)
  have "representable (5764607523034235 * 2 ^ 52)" by (rule representableI) simp
  then have "round53 (nat \<bar>x\<bar> * 5764607523034235) \<le> 5764607523034235 * 2 ^ 52"
    using x by (intro round53_le) simp_all
  then have p: "0 \<le> p" "p \<le> 5764607523034235 * 2 ^ 52" unfolding p_def by simp_all
  have "sgn x * p \<in> {- p, 0, p}" by (auto simp: sgn_if)
  then have n: "1018 * 2 ^ 102 \<le> nat (2 ^ 112 + sgn x * p)" "nat (2 ^ 112 + sgn x * p) \<le> 1030 * 2 ^ 102"
    using p by auto
  have "representable (1018 * 2 ^ 102)" "representable (1030 * 2 ^ 102)"
    by (rule representableI, simp)+
  from round53_ge [OF this(1) n(1)] round53_le [OF this(2) n(2)] show ?thesis
    unfolding fake_jitter_def Let_def x_def [symmetric] p_def [symmetric] fst_conv
    by (simp only: of_nat_le_iff [symmetric, where 'a = int] of_nat_mult of_nat_power of_nat_numeral)
qed

section \<open>The quota over a run\<close>

text \<open>The instants at which a run of calls passes the quota check.\<close>

fun quota_run :: "'c Clock_ops \<Rightarrow> nat \<Rightarrow> 'c FakeRateProvider \<Rightarrow> gotime list \<times> 'c FakeRateProvider" where
  "quota_run C 0 f = ([], f)"
| "quota_run C (Suc n) f =
     (let (res, f') = checkQuota C f; (admitted, f'') = quota_run C n f'
      in (if is_ok res then last (callTimes f') # admitted else admitted, f''))"

definition quota_inv :: "gotime list \<Rightarrow> gotime \<Rightarrow> 'c FakeRateProvider \<Rightarrow> bool" where
  "quota_inv A latest f \<longleftrightarrow>
     (\<forall>t \<in> set A. t \<le> latest)
     \<and> (\<exists>c. c \<le> latest - Minute \<and> callTimes f = filter (\<lambda>t. c < t) A)
     \<and> (\<forall>x. int (in_window A x Minute) \<le> rpmQuota f)"

lemma quota_inv_New:
  "0 < rpm \<Longrightarrow> quota_inv [] latest (NewFakeRateProvider c mind maxd rpm ttl draws)"
  by (auto simp: quota_inv_def NewFakeRateProvider_def in_window_def intro: exI [of _ "latest - Minute"])

lemma checkQuota_step:
  assumes inv: "quota_inv A latest f" and rpm: "0 < rpmQuota f"
    and now: "Now C (fk_clock f) = (now, c')" "latest \<le> now"
    and step: "checkQuota C f = (res, f')"
  shows "quota_inv (if is_ok res then A @ [now] else A) now f'" "rpmQuota f' = rpmQuota f"
    "fk_clock f' = c'" "is_ok res \<Longrightarrow> last (callTimes f') = now"
proof -
  let ?kept = "filter (\<lambda>t. time_After t (time_Add now (- Minute))) (callTimes f)"
  obtain c where c: "c \<le> latest - Minute" "callTimes f = filter (\<lambda>t. c < t) A"
    using inv by (auto simp: quota_inv_def)
  have A: "\<forall>t \<in> set A. t \<le> now" using inv now(2) by (auto simp: quota_inv_def)
  have kept: "?kept = filter (\<lambda>t. now - Minute < t) A"
    using c now(2) by (auto simp: go_defs intro!: filter_cong)
  have step': "res = (if rpmQuota f \<le> int (length ?kept) then res else Ok ())
    \<and> is_ok res = (\<not> rpmQuota f \<le> int (length ?kept))
    \<and> f' = f\<lparr>fk_clock := c', callTimes := (if is_ok res then ?kept @ [now] else ?kept)\<rparr>"
    using step rpm now(1) by (auto simp: checkQuota_def Let_def split: if_splits)
  then show "rpmQuota f' = rpmQuota f" "fk_clock f' = c'" "is_ok res \<Longrightarrow> last (callTimes f') = now"
    by auto
  have window: "\<forall>x. int (in_window (if is_ok res then A @ [now] else A) x Minute) \<le> rpmQuota f"
  proof (cases "is_ok res")
    case True
    with step' have "int (length (window A now Minute)) < rpmQuota f"
      by (simp add: kept window_def)
    then show ?thesis using in_window_snoc [OF A] inv True by (simp add: quota_inv_def)
  next
    case False
    with inv show ?thesis by (simp add: quota_inv_def)
  qed
  have calls: "callTimes f' = filter (\<lambda>t. now - Minute < t) (if is_ok res then A @ [now] else A)"
    using step' kept by auto
  have "\<exists>c. c \<le> now - Minute \<and> callTimes f' = filter (\<lambda>t. c < t) (if is_ok res then A @ [now] else A)"
    by (rule exI [of _ "now - Minute"]) (simp add: calls)
  with window A step' show "quota_inv (if is_ok res then A @ [now] else A) now f'"
    by (auto simp: quota_inv_def)
qed

context monotonic_clock
begin

lemma quota_run_inv:
  assumes "quota_inv A latest f" "0 < rpmQuota f" "at_least (fk_clock f) latest"
  shows "\<exists>latest'. quota_inv (A @ fst (quota_run C n f)) latest' (snd (quota_run C n f))
    \<and> rpmQuota (snd (quota_run C n f)) = rpmQuota f"
  using assms
proof (induction n arbitrary: A latest f)
  case 0
  then show ?case by auto
next
  case (Suc n)
  obtain now c' where now: "Now C (fk_clock f) = (now, c')" by fastforce
  with now_after [OF Suc.prems(3)] have le: "latest \<le> now" "at_least c' now" by blast+
  obtain res f' where step: "checkQuota C f = (res, f')" by fastforce
  note s = checkQuota_step [OF Suc.prems(1,2) now le(1) step]
  from Suc.IH [OF s(1)] s(2,3) Suc.prems(2) le(2) obtain latest' where
    "quota_inv ((if is_ok res then A @ [now] else A) @ fst (quota_run C n f')) latest'
       (snd (quota_run C n f'))" "rpmQuota (snd (quota_run C n f')) = rpmQuota f" by auto
  with s(4) show ?case
    by (intro exI [of _ latest']) (auto simp: step Let_def split: prod.splits)
qed

lemma quota_run_within:
  assumes "0 < rpm" "at_least c t"
  shows "int (in_window (fst (quota_run C n (NewFakeRateProvider c mind maxd rpm ttl draws))) x Minute)
    \<le> rpm"
proof -
  let ?f = "NewFakeRateProvider c mind maxd rpm ttl draws"
  have f: "0 < rpmQuota ?f" "at_least (fk_clock ?f) t" "rpmQuota ?f = rpm"
    using assms by (simp_all add: NewFakeRateProvider_def)
  have "quota_inv [] t ?f" using assms(1) by (rule quota_inv_New)
  from quota_run_inv [OF this f(1,2), where n = n] f(3) show ?thesis
    by (auto simp: quota_inv_def)
qed

end

end
