(* ===== verification/ExchangerateDev.thy ===== *)
theory ExchangerateDev
  imports RateProvider Json
begin

text \<open>
  \<open>internal/provider/exchangeratedev/adapter.go\<close>: the HTTP adapter of exchangerate.dev. The
  transport (\<open>http.Client.Do\<close>), the parsers of HTTP dates, of RFC 3339 instants and of decimals, and the texts
  of the errors of the JSON decoder are parameters; everything else the adapter decides is modelled.
\<close>

section \<open>What the adapter is given\<close>

record rateResponse =
  rr_Result :: string
  rr_Rate :: string
  rr_Source :: string
  rr_DataUpdatedAt :: gotime
  rr_Derived :: bool

record errorResponse =
  er_Result :: string
  er_Code :: string
  er_Message :: string

datatype http_body = BodyError string | Body string

text \<open>
  \<open>DoFailed ended msg\<close>: the call failed with \<open>msg\<close>, and \<open>ended\<close> says whether the
  caller's context was done by then. A \<open>Response\<close> has a status, its \<open>Retry-After\<close>
  header (empty when absent) and a body.
\<close>

datatype http_result =
  BuildFailed string
| DoFailed bool string
| Response int string http_body

record ('h, 'd) exchange_env =
  http_Do :: "'h \<Rightarrow> string \<Rightarrow> string option \<Rightarrow> http_result \<times> 'h"
  json_errtext :: "string \<Rightarrow> string"
  parse_rfc3339 :: "string \<Rightarrow> gotime option"
  http_ParseTime :: "string \<Rightarrow> gotime option"
  time_Now :: "'h \<Rightarrow> gotime"
  NewFromString :: "string \<Rightarrow> string + 'd"

record ExchangerateDevProvider =
  baseURL :: string
  apiKey :: string
  quoteTTL :: duration

definition maxResponseBodyBytes :: nat where "maxResponseBodyBytes = 1048576"

section \<open>Decoding a body\<close>

text \<open>An instant comes as a string, whose bytes are parsed as they stand, escapes included.\<close>

fun set_time :: "(string \<Rightarrow> gotime option) \<Rightarrow> json \<Rightarrow> gotime \<Rightarrow> gotime option" where
  "set_time P (JStr s) old = P s"
| "set_time P JNull old = Some old"
| "set_time P _ old = None"

definition rateResponse_field ::
  "(string \<Rightarrow> gotime option) \<Rightarrow> string \<times> json \<Rightarrow> rateResponse \<Rightarrow> rateResponse option" where
  "rateResponse_field P m r =
     (let (k, v) = m
      in if same_name k ''result'' then map_option (\<lambda>x. r\<lparr>rr_Result := x\<rparr>) (set_string v (rr_Result r))
         else if same_name k ''rate'' then map_option (\<lambda>x. r\<lparr>rr_Rate := x\<rparr>) (set_number v (rr_Rate r))
         else if same_name k ''source'' then map_option (\<lambda>x. r\<lparr>rr_Source := x\<rparr>) (set_string v (rr_Source r))
         else if same_name k ''data_updated_at''
         then map_option (\<lambda>x. r\<lparr>rr_DataUpdatedAt := x\<rparr>) (set_time P v (rr_DataUpdatedAt r))
         else if same_name k ''derived'' then map_option (\<lambda>x. r\<lparr>rr_Derived := x\<rparr>) (set_bool v (rr_Derived r))
         else Some r)"

definition errorResponse_field :: "string \<times> json \<Rightarrow> errorResponse \<Rightarrow> errorResponse option" where
  "errorResponse_field m r =
     (let (k, v) = m
      in if same_name k ''result'' then map_option (\<lambda>x. r\<lparr>er_Result := x\<rparr>) (set_string v (er_Result r))
         else if same_name k ''code'' then map_option (\<lambda>x. r\<lparr>er_Code := x\<rparr>) (set_string v (er_Code r))
         else if same_name k ''message'' then map_option (\<lambda>x. r\<lparr>er_Message := x\<rparr>) (set_string v (er_Message r))
         else Some r)"

text \<open>\<open>json.Unmarshal\<close> into a struct: its fields in the order of the members, an error if any of them is one.\<close>

definition unmarshal_struct :: "(string \<times> json \<Rightarrow> 'r \<Rightarrow> 'r option) \<Rightarrow> 'r \<Rightarrow> string \<Rightarrow> 'r option" where
  "unmarshal_struct field zero s =
     (case Unmarshal_value s of
        Some JNull \<Rightarrow> Some zero
      | Some (JObj ms) \<Rightarrow> fold (\<lambda>m acc. Option.bind acc (field m)) ms (Some zero)
      | _ \<Rightarrow> None)"

definition unmarshal_rateResponse :: "('h, 'd) exchange_env \<Rightarrow> string \<Rightarrow> rateResponse option" where
  "unmarshal_rateResponse E = unmarshal_struct (rateResponse_field (parse_rfc3339 E))
     \<lparr>rr_Result = [], rr_Rate = [], rr_Source = [], rr_DataUpdatedAt = 0, rr_Derived = False\<rparr>"

definition unmarshal_errorResponse :: "string \<Rightarrow> errorResponse option" where
  "unmarshal_errorResponse = unmarshal_struct errorResponse_field \<lparr>er_Result = [], er_Code = [], er_Message = []\<rparr>"

section \<open>The adapter\<close>

definition dev_StaleAfter :: "ExchangerateDevProvider \<Rightarrow> string \<Rightarrow> gotime \<Rightarrow> gotime" where
  "dev_StaleAfter e quality quotedAt =
     (if quality = ''live'' then time_Add quotedAt (60 * Second)
      else if quality = ''daily'' then time_Add quotedAt (24 * Hour)
      else time_Add quotedAt (quoteTTL e))"

definition mapQuality :: "string \<Rightarrow> string" where
  "mapQuality source =
     (if source = ''live'' then ''live''
      else if source = ''ecb_daily'' \<or> source = ''fred_daily'' then ''daily''
      else ''unknown'')"

text \<open>\<open>time.Duration(secs) * time.Second\<close> is an \<open>int64\<close> product.\<close>

definition parseRetryAfter :: "(string \<Rightarrow> gotime option) \<Rightarrow> gotime \<Rightarrow> string \<Rightarrow> duration" where
  "parseRetryAfter ParseTime now v =
     (if v = [] then 0
      else case strconv_Atoi v of
             Some secs \<Rightarrow> wrap64 (secs * Second)
           | None \<Rightarrow> (case ParseTime v of
                        Some t \<Rightarrow> time_Sub t now
                      | None \<Rightarrow> 0))"

record errorClass =
  class_code :: CurrencyRateErrorCode
  class_retryable :: bool

definition mk_class :: "CurrencyRateErrorCode \<Rightarrow> bool \<Rightarrow> errorClass" where
  "mk_class c b = \<lparr>class_code = c, class_retryable = b\<rparr>"

definition errorClassification :: "(string \<times> errorClass) list" where
  "errorClassification =
     [(''invalid_pair'', mk_class UnsupportedPairError False),
      (''unsupported_base'', mk_class UnsupportedPairError False),
      (''bad_date'', mk_class InvalidRequestError False),
      (''invalid_amount'', mk_class InvalidRequestError False),
      (''invalid_request'', mk_class InvalidRequestError False),
      (''missing_parameter'', mk_class InvalidRequestError False),
      (''no_data_for_date'', mk_class InvalidRequestError False),
      (''data_unavailable'', mk_class ProviderUnavailableError True),
      (''live_unavailable'', mk_class ProviderUnavailableError True),
      (''source_unavailable'', mk_class ProviderUnavailableError True),
      (''service_unavailable'', mk_class ProviderUnavailableError True),
      (''auth_unavailable'', mk_class ProviderUnavailableError True),
      (''invalid_api_key'', mk_class AuthError False),
      (''forbidden'', mk_class AuthError False),
      (''rate_limited'', mk_class RateLimitedError True),
      (''ip_rate_limited'', mk_class RateLimitedError True),
      (''quota_exceeded'', mk_class QuotaExceededError False),
      (''quota_unavailable'', mk_class ProviderUnavailableError True)]"

definition classifyError :: "string \<Rightarrow> string \<Rightarrow> duration \<Rightarrow> 'a go" where
  "classifyError providerCode message retryAfter =
     (let c = (case map_of errorClassification providerCode of
                 Some c \<Rightarrow> c
               | None \<Rightarrow> mk_class UnclassifiedProviderError True)
      in failRate (class_code c) message (class_retryable c) retryAfter providerCode)"

definition errorFromBody ::
  "('h, 'd) exchange_env \<Rightarrow> gotime \<Rightarrow> int \<Rightarrow> string \<Rightarrow> string \<Rightarrow> 'a go" where
  "errorFromBody E now status retryAfterHeader body =
     (case unmarshal_errorResponse body of
        Some er \<Rightarrow>
          if er_Code er \<noteq> []
          then classifyError (er_Code er) (er_Message er)
                 (parseRetryAfter (http_ParseTime E) now retryAfterHeader)
          else failRate MalformedResponseError
                 (''upstream returned status '' @ itoa status @ '' with an unparseable body'')
                 (500 \<le> status) 0 []
      | None \<Rightarrow> failRate MalformedResponseError
                 (''upstream returned status '' @ itoa status @ '' with an unparseable body'')
                 (500 \<le> status) 0 [])"

definition dev_GetCurrencyRate ::
  "('h, 'd) exchange_env \<Rightarrow> ExchangerateDevProvider \<Rightarrow> 'h \<Rightarrow> CurrencyPair
     \<Rightarrow> 'd ProviderQuote go \<times> 'h" where
  "dev_GetCurrencyRate E e h pair =
     (let url = baseURL e @ ''/v1/rate/'' @ Slug pair ''-'';
          auth = (if apiKey e \<noteq> [] then Some (''Bearer '' @ apiKey e) else None);
          (result, h') = http_Do E h url auth
      in case result of
           BuildFailed m \<Rightarrow> (Err (ErrWrap ''exchangeratedev: build request'' (ErrOther m)), h')
         | DoFailed ended m \<Rightarrow>
             if ended then (Err (ErrOther m), h')
             else (failRate ProviderUnavailableError (''request failed: '' @ m) True 0 [], h')
         | Response status retryAfter bodyResult \<Rightarrow>
             (case bodyResult of
                BodyError m \<Rightarrow>
                  (failRate MalformedResponseError (''reading response body: '' @ m) False 0 [], h')
              | Body full \<Rightarrow>
                  let body = take maxResponseBodyBytes full
                  in if status \<noteq> 200
                     then (errorFromBody E (time_Now E h') status retryAfter body, h')
                     else case unmarshal_rateResponse E body of
                            None \<Rightarrow>
                              (failRate MalformedResponseError (''decoding response: '' @ json_errtext E body)
                                 False 0 [], h')
                          | Some success \<Rightarrow>
                              if rr_Result success \<noteq> ''success''
                              then (errorFromBody E (time_Now E h') status retryAfter body, h')
                              else case NewFromString E (rr_Rate success) of
                                     Inl m \<Rightarrow>
                                       (failRate MalformedResponseError (''parsing rate: '' @ m) False 0 [], h')
                                   | Inr v \<Rightarrow>
                                       (Ok \<lparr>pq_Value = v, pq_Derived = rr_Derived success,
                                            pq_Quality = mapQuality (rr_Source success),
                                            pq_QuotedAt = rr_DataUpdatedAt success\<rparr>, h')))"

definition dev_provider ::
  "('h, 'd) exchange_env \<Rightarrow> ExchangerateDevProvider \<Rightarrow> ('h, 'd) RateProvider_ops" where
  "dev_provider E e = \<lparr>rp_GetCurrencyRate = dev_GetCurrencyRate E e,
     rp_Provider = ''exchangerate.dev'', rp_Indicative = True, rp_StaleAfter = dev_StaleAfter e\<rparr>"

section \<open>Lemmas\<close>

lemma classification_valid:
  "map_of errorClassification s = Some c \<Longrightarrow> ErrorCode_Valid (class_code c)"
  by (auto simp: errorClassification_def mk_class_def split: if_splits)

lemma classifyError_Err:
  "\<exists>c. classifyError code m d = Err (RateError \<lparr>err_code = class_code c, err_message = m,
      err_retryable = class_retryable c, err_retryAfter = d, err_providerCode = code\<rparr>)
    \<and> ErrorCode_Valid (class_code c)
    \<and> map_of errorClassification code \<in> {Some c, None}"
proof (cases "map_of errorClassification code")
  case None
  then show ?thesis
    by (intro exI [of _ "mk_class UnclassifiedProviderError True"])
       (simp add: classifyError_def mk_class_def)
next
  case (Some c)
  then show ?thesis
    using classification_valid [OF Some] by (intro exI [of _ c]) (simp add: classifyError_def)
qed

lemma errorFromBody_Err:
  "\<exists>r. errorFromBody E now status ra body = Err (RateError r) \<and> ErrorCode_Valid (err_code r)"
proof -
  have "\<exists>r. classifyError code m d = Err (RateError r) \<and> ErrorCode_Valid (err_code r)" for code m d
    using classifyError_Err [of code m d] by auto
  then show ?thesis by (auto simp: errorFromBody_def split: option.splits)
qed

text \<open>Every outcome of a fetch: a quote, a classified error, or the two that stay unclassified.\<close>

lemma dev_GetCurrencyRate_outcome:
  fixes E :: "('h, 'd) exchange_env"
  shows "(\<exists>q. fst (dev_GetCurrencyRate E e h pair) = Ok q)
   \<or> (\<exists>r. fst (dev_GetCurrencyRate E e h pair) = Err (RateError r) \<and> ErrorCode_Valid (err_code r))
   \<or> (\<exists>m. fst (dev_GetCurrencyRate E e h pair) = Err (ErrWrap ''exchangeratedev: build request'' (ErrOther m)))
   \<or> (\<exists>m. fst (dev_GetCurrencyRate E e h pair) = Err (ErrOther m)
        \<and> (\<exists>url auth. fst (http_Do E h url auth) = DoFailed True m))"
proof -
  obtain res h' where do: "http_Do E h (baseURL e @ ''/v1/rate/'' @ Slug pair ''-'')
      (if apiKey e \<noteq> [] then Some (''Bearer '' @ apiKey e) else None) = (res, h')"
    by fastforce
  show ?thesis
  proof (cases res)
    case (DoFailed ended m)
    note fails = do [unfolded DoFailed]
    then have "\<exists>url auth. fst (http_Do E h url auth) = DoFailed ended m" by (metis fst_conv)
    with fails show ?thesis by (cases ended) (auto simp: dev_GetCurrencyRate_def Let_def)
  next
    case (Response status ra b)
    show ?thesis
    proof (cases b)
      case (BodyError m)
      with do Response show ?thesis by (auto simp: dev_GetCurrencyRate_def Let_def)
    next
      case (Body full)
      obtain r where "(errorFromBody E (time_Now E h') status ra (take maxResponseBodyBytes full)
          :: 'd ProviderQuote go) = Err (RateError r)" "ErrorCode_Valid (err_code r)"
        using errorFromBody_Err by blast
      with do Response Body show ?thesis
        by (cases "status = 200") (auto simp: dev_GetCurrencyRate_def Let_def split: sum.splits option.splits)
    qed
  qed (use do in \<open>auto simp: dev_GetCurrencyRate_def Let_def\<close>)
qed

interpretation dev: rate_provider "dev_provider E e" for E e
proof
  fix p pair err p' r
  assume run: "rp_GetCurrencyRate (dev_provider E e) p pair = (Err err, p')"
    and r: "errors_As_rate err = Some r"
  then show "ErrorCode_Valid (err_code r)"
    using dev_GetCurrencyRate_outcome [of E e p pair] by (auto simp: dev_provider_def)
qed (simp add: dev_provider_def dev_StaleAfter_def go_defs)

section \<open>What the upstream writes is what the adapter reads\<close>

lemma unmarshal_struct_object:
  assumes "json_ok (JObj ms)" "json_depth (JObj ms) \<le> maxNestingDepth"
  shows "unmarshal_struct f z (print_json (JObj ms)) = fold (\<lambda>m acc. Option.bind acc (f m)) ms (Some z)"
  using Unmarshal_object [OF assms, of "[]"] by (simp add: unmarshal_struct_def)

text \<open>Members that name no field are skipped.\<close>

lemma fold_fields_skip:
  "(\<And>m a. m \<in> set ms \<Longrightarrow> f m a = Some a) \<Longrightarrow> fold (\<lambda>m acc. Option.bind acc (f m)) ms (Some z) = Some z"
  by (induction ms) auto

definition rate_names :: "string list" where
  "rate_names = [''result'', ''rate'', ''source'', ''data_updated_at'', ''derived'']"

definition error_names :: "string list" where
  "error_names = [''result'', ''code'', ''message'']"

lemma plain_names: "list_all plain_name (rate_names @ error_names)"
  by code_simp

lemma name_eqs:
  "k \<in> set (rate_names @ error_names) \<Longrightarrow> f \<in> set (rate_names @ error_names) \<Longrightarrow> same_name k f \<longleftrightarrow> k = f"
proof -
  assume k: "k \<in> set (rate_names @ error_names)" and f: "f \<in> set (rate_names @ error_names)"
  have "inj_on (map upper_char) (set (rate_names @ error_names))" 
  proof -
    have "distinct (map (map upper_char) (remdups (rate_names @ error_names)))" by code_simp
    then show ?thesis by (simp only: distinct_map set_remdups)
  qed
  moreover have "plain_name k" using k plain_names by (auto simp: list_all_iff)
  ultimately show ?thesis using k f by (simp only: same_name_plain inj_on_eq_iff)
qed

text \<open>The bodies of the upstream: a quote and a refusal, with whatever else the object holds.\<close>

definition rate_body :: "string \<Rightarrow> string \<Rightarrow> string \<Rightarrow> bool \<Rightarrow> (string \<times> json) list \<Rightarrow> json" where
  "rate_body rate source t derived extra =
     JObj ([(''result'', json_of_string ''success''), (''rate'', JNum rate), (''source'', json_of_string source),
            (''data_updated_at'', JStr t), (''derived'', JBool derived)] @ extra)"

definition error_body :: "string \<Rightarrow> string \<Rightarrow> (string \<times> json) list \<Rightarrow> json" where
  "error_body code message extra =
     JObj ([(''result'', json_of_string ''error''), (''code'', json_of_string code),
            (''message'', json_of_string message)] @ extra)"

definition extra_ok :: "string list \<Rightarrow> (string \<times> json) list \<Rightarrow> bool" where
  "extra_ok names extra \<longleftrightarrow> members_ok extra \<and> members_depth extra < maxNestingDepth
     \<and> list_all (\<lambda>m. list_all (\<lambda>f. \<not> same_name (fst m) f) names) extra"

lemma unmarshal_rate_body:
  assumes "number_ok rate" "raw_ok t" "parse_rfc3339 E t = Some at" "extra_ok rate_names extra"
  shows "unmarshal_rateResponse E (print_json (rate_body rate source t derived extra)) =
    Some \<lparr>rr_Result = ''success'', rr_Rate = rate, rr_Source = to_valid source, rr_DataUpdatedAt = at,
      rr_Derived = derived\<rparr>"
proof -
  have plain: "list_all plain_name rate_names" "plain_name ''success''" by code_simp+
  then have raw: "list_all raw_ok rate_names" by (auto simp: list_all_iff plain_string)
  have skip: "fold (\<lambda>m acc. Option.bind acc (rateResponse_field (parse_rfc3339 E) m)) extra (Some z) = Some z" for z
    by (rule fold_fields_skip) (use assms(4) in \<open>auto simp: extra_ok_def rate_names_def rateResponse_field_def list_all_iff\<close>)
  have sub: "f \<in> set rate_names \<Longrightarrow> f \<in> set (rate_names @ error_names)" for f by simp
  note n = name_eqs [OF sub sub, unfolded rate_names_def]
  show ?thesis
    unfolding unmarshal_rateResponse_def rate_body_def
    by (subst unmarshal_struct_object)
      (use assms raw plain(2) in \<open>auto simp: skip rateResponse_field_def n unquote_json_string plain_string extra_ok_def
         rate_names_def json_of_string_def raw_ok_quote maxNestingDepth_def\<close>)
qed

lemma unmarshal_error_body:
  assumes "extra_ok error_names extra"
  shows "unmarshal_errorResponse (print_json (error_body code message extra)) =
    Some \<lparr>er_Result = ''error'', er_Code = to_valid code, er_Message = to_valid message\<rparr>"
proof -
  have plain: "list_all plain_name error_names" "plain_name ''error''" by code_simp+
  then have raw: "list_all raw_ok error_names" by (auto simp: list_all_iff plain_string)
  have skip: "fold (\<lambda>m acc. Option.bind acc (errorResponse_field m)) extra (Some z) = Some z" for z
    by (rule fold_fields_skip) (use assms in \<open>auto simp: extra_ok_def error_names_def errorResponse_field_def list_all_iff\<close>)
  have sub: "f \<in> set error_names \<Longrightarrow> f \<in> set (rate_names @ error_names)" for f by simp
  note n = name_eqs [OF sub sub, unfolded error_names_def]
  show ?thesis
    unfolding unmarshal_errorResponse_def error_body_def
    by (subst unmarshal_struct_object)
      (use assms raw plain(2) in \<open>auto simp: skip errorResponse_field_def n unquote_json_string plain_string extra_ok_def
         error_names_def json_of_string_def raw_ok_quote maxNestingDepth_def\<close>)
qed

definition rate_url :: "ExchangerateDevProvider \<Rightarrow> CurrencyPair \<Rightarrow> string" where
  "rate_url e pair = baseURL e @ ''/v1/rate/'' @ Slug pair ''-''"

definition rate_auth :: "ExchangerateDevProvider \<Rightarrow> string option" where
  "rate_auth e = (if apiKey e \<noteq> [] then Some (''Bearer '' @ apiKey e) else None)"

text \<open>C36. A quote of the upstream is taken over field by field: whatever else the object of a 200 answer holds,
  the adapter returns the rate it names, its quality mapped, its time and whether it is derived.\<close>

theorem dev_reads_quote:
  assumes "http_Do E h (rate_url e pair) (rate_auth e)
      = (Response 200 ra (Body (print_json (rate_body rate source t derived extra))), h')"
    and "length (print_json (rate_body rate source t derived extra)) \<le> maxResponseBodyBytes"
    and "number_ok rate" "raw_ok t" "parse_rfc3339 E t = Some at" "extra_ok rate_names extra"
    and "NewFromString E rate = Inr v"
  shows "dev_GetCurrencyRate E e h pair =
    (Ok \<lparr>pq_Value = v, pq_Derived = derived, pq_Quality = mapQuality (to_valid source), pq_QuotedAt = at\<rparr>, h')"
  using assms(1,2,7) unmarshal_rate_body [OF assms(3-6), of source derived]
  by (simp add: dev_GetCurrencyRate_def rate_url_def rate_auth_def Let_def)

definition quoting_upstream :: "(unit, int) exchange_env" where
  "quoting_upstream = \<lparr>http_Do = (\<lambda>h url auth. (Response 200 [] (Body (print_json
       (rate_body ''12.5'' ''ecb_daily'' ''2026-01-02T00:00:00Z'' True [(''base'', JStr ''EUR'')]))), h)),
     json_errtext = (\<lambda>b. []), parse_rfc3339 = (\<lambda>s. Some (int (length s))),
     http_ParseTime = (\<lambda>s. None), time_Now = (\<lambda>h. 0), NewFromString = (\<lambda>s. Inr (int (length s)))\<rparr>"

theorem dev_reads_quote_witness:
  "dev_GetCurrencyRate quoting_upstream \<lparr>baseURL = ''u'', apiKey = ''k'', quoteTTL = Minute\<rparr> ()
     \<lparr>base = ''EUR'', quote = ''MXN''\<rparr>
   = (Ok \<lparr>pq_Value = 4, pq_Derived = True, pq_Quality = ''daily'', pq_QuotedAt = 20\<rparr>, ())"
proof -
  have nm: "plain_name ''2026-01-02T00:00:00Z''" "plain_name ''base''" "plain_name ''EUR''" "plain_name ''ecb_daily''"
    "number_ok ''12.5''" "list_all (\<lambda>f. \<not> same_name ''base'' f) rate_names"
    by code_simp+
  have extra: "extra_ok rate_names [(''base'', JStr ''EUR'')]"
    using nm(6) by (simp add: extra_ok_def plain_string nm maxNestingDepth_def)
  have "quote_json ''ecb_daily'' = ''ecb_daily''" "quote_json ''success'' = ''success''"
    by (rule plain_string, code_simp)+
  then have len: "length (print_json (rate_body ''12.5'' ''ecb_daily'' ''2026-01-02T00:00:00Z'' True
      [(''base'', JStr ''EUR'')])) \<le> maxResponseBodyBytes"
    by (simp add: rate_body_def json_of_string_def maxResponseBodyBytes_def)
  have "mapQuality (to_valid ''ecb_daily'') = ''daily''" by (simp add: plain_string nm mapQuality_def)
  with dev_reads_quote [OF _ len nm(5) plain_string(4) [OF nm(1)] _ extra, of quoting_upstream "()"
      "\<lparr>baseURL = ''u'', apiKey = ''k'', quoteTTL = Minute\<rparr>" "\<lparr>base = ''EUR'', quote = ''MXN''\<rparr>" "[]" "()" 20 4]
  show ?thesis by (simp add: quoting_upstream_def)
qed

text \<open>A refusal is classified by its code, with the upstream's message and the \<open>Retry-After\<close> of the answer.\<close>

theorem dev_reads_refusal:
  assumes "http_Do E h (rate_url e pair) (rate_auth e)
      = (Response status ra (Body (print_json (error_body code message extra))), h')"
    and "length (print_json (error_body code message extra)) \<le> maxResponseBodyBytes"
    and "status \<noteq> 200" "extra_ok error_names extra" "to_valid code \<noteq> []"
  shows "dev_GetCurrencyRate E e h pair =
    (classifyError (to_valid code) (to_valid message) (parseRetryAfter (http_ParseTime E) (time_Now E h') ra), h')"
  using assms(1-3,5) unmarshal_error_body [OF assms(4), of code message]
  by (simp add: dev_GetCurrencyRate_def errorFromBody_def rate_url_def rate_auth_def Let_def)

text \<open>A \<open>Retry-After\<close> that is no duration to wait: a negative number of seconds is taken as it is, a large
  one wraps around.\<close>

theorem retry_after_unchecked:
  "parseRetryAfter P now ''-5'' = - 5 * Second \<and> parseRetryAfter P now ''9223372037'' < 0"
proof -
  have five: "itoa (- 5) = ''-5''" by code_simp
  have digits: "itoa 9223372037 = map char_of [57 :: nat, 50, 50, 51, 51, 55, 50, 48, 51, 55]"
    by (simp add: itoa_def itoa_nat.simps)
  have word: "map char_of [57 :: nat, 50, 50, 51, 51, 55, 50, 48, 51, 55] = ''9223372037''" by code_simp
  have "strconv_Atoi (itoa (- 5)) = Some (- 5)" "strconv_Atoi (itoa 9223372037) = Some 9223372037"
    by (rule Atoi_itoa; simp add: minInt64_def maxInt64_def)+
  then have "strconv_Atoi ''-5'' = Some (- 5)" "strconv_Atoi ''9223372037'' = Some 9223372037"
    unfolding five digits word .
  then show ?thesis by (simp add: parseRetryAfter_def wrap64_def Second_def)
qed

end
