(* ===== verification/Service.thy ===== *)
theory Service
  imports DrainLoop HttpApi MemoryRepo FakeProvider ExchangerateDev
begin

text \<open>
  The whole service (\<open>cmd/server/main.go\<close> wires it): one state, stepped by HTTP requests,
  dispatcher passes and the passing of time, and its reachable states. Below the state machine the
  interfaces are interpreted: worker, dispatcher, drain loop and API on the in-memory repository
  and the two providers.
\<close>

section \<open>The state machine\<close>

record ('r, 'p, 'c) service =
  sc_server :: "('r, 'c) server"
  sc_prov :: 'p
  sc_limiter :: RateLimiter
  sc_rand :: "nat \<Rightarrow> nat"
  sc_turn :: nat

definition world_of :: "('r, 'p, 'c) service \<Rightarrow> ('r, 'p, 'c) world" where
  "world_of s = \<lparr>w_repo = sv_repo (sc_server s), w_prov = sc_prov s, w_clock = sv_clock (sc_server s),
     w_limiter = sc_limiter s, w_rand = sc_rand s, w_turn = sc_turn s\<rparr>"

definition put_world :: "('r, 'p, 'c) world \<Rightarrow> ('r, 'p, 'c) service \<Rightarrow> ('r, 'p, 'c) service" where
  "put_world w s = s\<lparr>sc_server := (sc_server s)\<lparr>sv_repo := w_repo w, sv_clock := w_clock w\<rparr>,
     sc_prov := w_prov w, sc_limiter := w_limiter w, sc_rand := w_rand w, sc_turn := w_turn w\<rparr>"

text \<open>
  \<open>used r i\<close>: the storage \<open>r\<close> holds the identifier \<open>i\<close>. A pass is run with any order of
  the batch; between steps the clock may be in any state.
\<close>

inductive service_step ::
  "('r, 'c, 'd) http_env \<Rightarrow> string list \<Rightarrow> ('r, 'p, 'c, 'd) Dispatcher
     \<Rightarrow> ('r \<Rightarrow> uuid \<Rightarrow> bool) \<Rightarrow> ('r, 'p, 'c) service \<Rightarrow> ('r, 'p, 'c) service \<Rightarrow> bool"
  for E origins D used where
  Step_request: "ids_fresh (used (sv_repo (sc_server s))) (sc_server s)
    \<Longrightarrow> NewRouter E origins rq (sc_server s) new_response = (res, sv', w)
    \<Longrightarrow> service_step E origins D used s (s\<lparr>sc_server := sv'\<rparr>)"
| Step_pass: "(\<And>xs. mset (order xs) = mset xs) \<Longrightarrow> runPassRecovered D order (world_of s) = (pres, w')
    \<Longrightarrow> service_step E origins D used s (put_world w' s)"
| Step_time: "service_step E origins D used s (s\<lparr>sc_server := (sc_server s)\<lparr>sv_clock := c\<rparr>\<rparr>)"

inductive_cases service_step_cases: "service_step E origins D used s s'"

inductive service_run ::
  "('r, 'c, 'd) http_env \<Rightarrow> string list \<Rightarrow> ('r, 'p, 'c, 'd) Dispatcher
     \<Rightarrow> ('r \<Rightarrow> uuid \<Rightarrow> bool) \<Rightarrow> ('r, 'p, 'c) service \<Rightarrow> ('r, 'p, 'c) service \<Rightarrow> bool"
  for E origins D used where
  Run_refl: "service_run E origins D used s s"
| Run_step: "service_run E origins D used s s' \<Longrightarrow> service_step E origins D used s' s''
    \<Longrightarrow> service_run E origins D used s s''"

lemma put_world_sel [simp]:
  "sv_repo (sc_server (put_world w s)) = w_repo w"
  "sv_ids (sc_server (put_world w s)) = sv_ids (sc_server s)"
  "sv_turn (sc_server (put_world w s)) = sv_turn (sc_server s)"
  by (simp_all add: put_world_def)

lemma world_of_sel [simp]: "w_repo (world_of s) = sv_repo (sc_server s)"
  by (simp add: world_of_def)

locale service =
  api E abs inv ct cr + dispatcher D abs inv ct cr
  for E :: "('r, 'c, 'd) http_env" and D :: "('r, 'p, 'c, 'd) Dispatcher" and abs :: "'r \<Rightarrow> 'd store"
    and inv :: "'r \<Rightarrow> bool" and ct :: "gotime \<Rightarrow> gotime"
    and cr :: "'d CurrencyRate \<Rightarrow> 'd CurrencyRate"
begin

abbreviation "store s \<equiv> abs (sv_repo (sc_server s))"

definition service_inv :: "('r, 'p, 'c) service \<Rightarrow> bool" where
  "service_inv s \<longleftrightarrow> inv (sv_repo (sc_server s)) \<and> store_ok (store s)"

abbreviation "stored \<equiv> \<lambda>r i. st_rows (abs r) i \<noteq> None"

lemma pass_inv:
  assumes "service_inv s" "\<And>xs. mset (order xs) = mset xs"
    and "runPassRecovered D order (world_of s) = (pres, w')"
  shows "service_inv (put_world w' s) \<and> evolves (store s) (abs (w_repo w'))"
proof -
  obtain res where p: "ClaimAndDispatch D order (world_of s) = (res, w')"
    using assms(3) by (auto simp: runPassRecovered_def split: prod.splits gores.splits)
  have i: "inv (w_repo (world_of s))" "store_ok (abs (w_repo (world_of s)))"
    using assms(1) by (simp_all add: service_inv_def)
  from pass_effect(1-3) [OF i assms(2) p] show ?thesis by (simp add: service_inv_def)
qed

lemma step_inv:
  assumes "service_step E origins D stored s s'" "service_inv s"
  shows "service_inv s' \<and> evolves (store s) (store s')"
  using assms(1)
proof (elim service_step_cases)
  fix rq res sv' w
  assume "s' = s\<lparr>sc_server := sv'\<rparr>"
    and "ids_fresh (stored (sv_repo (sc_server s))) (sc_server s)"
    and "NewRouter E origins rq (sc_server s) new_response = (res, sv', w)"
  with assms(2) NewRouter_keeps [OF _ _ this(2,3)] show ?thesis by (auto simp: service_inv_def)
next
  fix order pres w'
  assume "s' = put_world w' s" "\<And>xs. mset (order xs) = mset xs"
    and "runPassRecovered D order (world_of s) = (pres, w')"
  with pass_inv [OF assms(2) this(2,3)] show ?thesis by simp
next
  fix c
  assume "s' = s\<lparr>sc_server := (sc_server s)\<lparr>sv_clock := c\<rparr>\<rparr>"
  with assms(2) show ?thesis by (simp add: service_inv_def)
qed

lemma run_inv:
  assumes "service_run E origins D stored s s'" "service_inv s"
  shows "service_inv s' \<and> evolves (store s) (store s')"
  using assms
proof (induction rule: service_run.induct)
  case (Run_refl s)
  then show ?case by simp
next
  case (Run_step s s' s'')
  then show ?case using step_inv evolves_trans by blast
qed

end

section \<open>The interfaces on the code's own adapters\<close>

interpretation mem_fake: worker
  "NewWorker mem_ops (fake_provider K dec ttl) C baseB maxB attempts lifetime Sign F cvt"
  mem_abs mem_inv "\<lambda>t. t" "\<lambda>x. x"
  for K dec ttl C baseB maxB attempts lifetime Sign F cvt
  by (rule worker.intro) (simp_all add: NewWorker_def mem.repository_axioms fake.rate_provider_axioms)

interpretation mem_dev: worker
  "NewWorker mem_ops (dev_provider X e) C baseB maxB attempts lifetime Sign F cvt"
  mem_abs mem_inv "\<lambda>t. t" "\<lambda>x. x"
  for X e C baseB maxB attempts lifetime Sign F cvt
  by (rule worker.intro) (simp_all add: NewWorker_def mem.repository_axioms dev.rate_provider_axioms)

text \<open>A dispatcher on the in-memory repository and the fake provider.\<close>

definition mem_dispatcher ::
  "'k Clock_ops \<Rightarrow> 'd::zero decimal_ops \<Rightarrow> duration \<Rightarrow> 'c Clock_ops \<Rightarrow> duration \<Rightarrow> duration \<Rightarrow> int
     \<Rightarrow> duration \<Rightarrow> ('d \<Rightarrow> int) \<Rightarrow> fmt \<Rightarrow> duration \<Rightarrow> nat \<Rightarrow> nat
     \<Rightarrow> ('d MemRepo, 'k FakeRateProvider, 'c, 'd) Dispatcher" where
  "mem_dispatcher K dec ttl C baseB maxB attempts lifetime Sign F cvt batch vis =
     NewDispatcher mem_ops C
       (NewWorker mem_ops (fake_provider K dec ttl) C baseB maxB attempts lifetime Sign F cvt)
       (int batch) 8 (int vis) (90 * Second)"

lemma mem_dispatcher_sel [simp]:
  "dp_repo (mem_dispatcher K dec ttl C baseB maxB attempts lifetime Sign F cvt batch vis) = mem_ops"
  "dp_clock (mem_dispatcher K dec ttl C baseB maxB attempts lifetime Sign F cvt batch vis) = C"
  "dp_worker (mem_dispatcher K dec ttl C baseB maxB attempts lifetime Sign F cvt batch vis) =
     NewWorker mem_ops (fake_provider K dec ttl) C baseB maxB attempts lifetime Sign F cvt"
  "batchSize (mem_dispatcher K dec ttl C baseB maxB attempts lifetime Sign F cvt batch vis) = int batch"
  "visibilityTimeout (mem_dispatcher K dec ttl C baseB maxB attempts lifetime Sign F cvt batch vis)
     = int vis"
  by (simp_all add: mem_dispatcher_def NewDispatcher_def)

interpretation mem_disp: dispatcher
  "mem_dispatcher K dec ttl C baseB maxB attempts lifetime Sign F cvt batch vis"
  mem_abs mem_inv "\<lambda>t. t" "\<lambda>x. x"
  for K dec ttl C baseB maxB attempts lifetime Sign F cvt batch vis
  by (rule dispatcher.intro)
     (use mem_fake.worker_axioms in \<open>simp_all add: dispatcher_axioms_def NewWorker_def\<close>)

text \<open>
  A system clock whose remaining readings all fall within the visibility timeout of \<open>t0\<close>.
\<close>

definition clock_within :: "gotime \<Rightarrow> gotime \<Rightarrow> SystemClock \<Rightarrow> bool" where
  "clock_within t0 T c \<longleftrightarrow> t0 \<le> wall c \<and> wall c + int (sum_list (elapses c)) \<le> T"

lemma clock_within_Now:
  "clock_within t0 T c \<Longrightarrow> Now system_clock c = (t, c') \<Longrightarrow> t0 \<le> t \<and> t \<le> T \<and> clock_within t0 T c'"
  by (auto simp: clock_within_def system_clock_def SystemClock_Now_def split: list.splits)

interpretation mem_drain: drain_window
  "mem_dispatcher K dec ttl system_clock baseB maxB attempts lifetime Sign F cvt batch vis"
  mem_abs mem_inv "\<lambda>t. t" "\<lambda>x. x" "clock_within t0 (t0 + int vis)" t0 "t0 + int vis"
  for K dec ttl baseB maxB attempts lifetime Sign F cvt batch vis t0
  by (rule drain_window.intro [OF mem_disp.dispatcher_axioms], unfold_locales)
     (use clock_within_Now in \<open>auto simp: NewWorker_def\<close>)

interpretation mem_api: api "E\<lparr>he_repo := mem_ops\<rparr>" mem_abs mem_inv "\<lambda>t. t" "\<lambda>x. x" for E
  by (rule api.intro) (simp add: mem.repository_axioms)

interpretation mem_service: service "E\<lparr>he_repo := mem_ops\<rparr>"
  "mem_dispatcher K dec ttl C baseB maxB attempts lifetime Sign F cvt batch vis"
  mem_abs mem_inv "\<lambda>t. t" "\<lambda>x. x"
  for E K dec ttl C baseB maxB attempts lifetime Sign F cvt batch vis
  by (rule service.intro [OF mem_api.api_axioms mem_disp.dispatcher_axioms])

section \<open>The in-memory repository never fails on its own\<close>

lemma ParseCurrencyPair_not_infra: "ParseCurrencyPair U s ''/'' = Err e \<Longrightarrow> \<not> infra e"
  using ParseCurrencyPair_outcome [of U s] by (auto simp: infra_def)

lemma mem_RequestUpdate_not_infra:
  assumes "RequestUpdate mem_ops C U new r c raw key = (Err e, r', c')"
  shows "\<not> infra e"
proof (cases "ParseCurrencyPair U raw ''/''")
  case (Err e')
  with assms ParseCurrencyPair_not_infra [OF Err] show ?thesis by (simp add: RequestUpdate_def)
next
  case (Ok pair)
  with assms show ?thesis
    by (auto simp: RequestUpdate_def mem_ops_def mem_CreateUpdateRequest_def mem_GetByIdempotencyKey_def
        infra_def Let_def split: prod.splits option.splits if_splits)
qed simp

end
