(* ===== verification/Samples.thy ===== *)
theory Samples
  imports Service
begin

text \<open>
  Concrete values at which the properties are applied: a repository with one update request, the
  same repository after the request was claimed, a clock, a fake provider and a whole service.
\<close>

definition sample_pair :: CurrencyPair where
  "sample_pair = \<lparr>base = ''EUR'', quote = ''MXN''\<rparr>"

definition sample_req :: CurrencyRateUpdateRequest where
  "sample_req = NewCurrencyRateUpdateRequest 1 sample_pair 1000"

definition sample_pending :: "int MemRepo" where
  "sample_pending = snd (mem_CreateUpdateRequest NewRepository sample_req ''k'')"

definition sample_claimed :: "int MemRepo" where
  "sample_claimed = snd (mem_ClaimBatch sample_pending 10 2000 0)"

definition claimed_req :: CurrencyRateUpdateRequest where
  "claimed_req = sample_req\<lparr>Status := StatusInProgress, UpdatedAt := 2000, Attempts := 1\<rparr>"

definition sample_decimal :: "int decimal_ops" where
  "sample_decimal = \<lparr>dec_NewFromFloat = \<lambda>x. fst x, dec_Mul = (\<lambda>a b. a)\<rparr>"

definition sample_fmt :: fmt where
  "sample_fmt = \<lparr>fmt_q = (\<lambda>s. s), fmt_time = itoa, fmt_value = ''0''\<rparr>"

definition sample_unicode :: unicode where
  "sample_unicode = \<lparr>upper_uni = id, lower_uni = id, trim_uni = id, explode_uni = map (\<lambda>c. [c])\<rparr>"

definition sample_fake :: "FakeClock FakeRateProvider" where
  "sample_fake = NewFakeRateProvider (NewFakeClock 3000) 0 0 2 Minute
     (\<lambda>n. \<lparr>draw_delay = 0, draw_rate = 0, ctx_ends = False\<rparr>)"

definition sample_world ::
  "int MemRepo \<Rightarrow> (int MemRepo, FakeClock FakeRateProvider, FakeClock) world" where
  "sample_world r = \<lparr>w_repo = r, w_prov = sample_fake, w_clock = NewFakeClock 3000,
     w_limiter = NewRateLimiter 12 100, w_rand = (\<lambda>n. 0), w_turn = 0\<rparr>"

definition sample_worker :: "int \<Rightarrow> (int MemRepo, FakeClock FakeRateProvider, FakeClock, int) Worker" where
  "sample_worker attempts = NewWorker mem_ops (fake_provider fake_clock sample_decimal Minute) fake_clock
     (5 * Second) (5 * Minute) attempts Hour sgn sample_fmt 0"

lemma sample_pair_ok [simp]: "pair_ok sample_pair"
  by (simp add: sample_pair_def pair_ok_def Code_Valid_iff)

lemma sample_req_fresh: "fresh_request (mem_abs NewRepository) sample_req"
  unfolding sample_req_def by (rule fresh_requestI) (simp_all add: NewRepository_def)

lemma sample_pending_ok:
  "mem_inv sample_pending" "store_ok (mem_abs sample_pending)"
proof -
  have ok: "store_ok (mem_abs NewRepository)" by (simp add: mem_abs_New store_ok_empty)
  have "CreateUpdateRequest mem_ops NewRepository sample_req ''k''
      = (fst (mem_CreateUpdateRequest (NewRepository :: int MemRepo) sample_req ''k''), sample_pending)"
    by (simp add: mem_ops_def sample_pending_def)
  from mem.create_keeps [OF mem_inv_New ok sample_req_fresh this]
  show "mem_inv sample_pending" "store_ok (mem_abs sample_pending)" by simp_all
qed

lemma sample_claimed_ok:
  "mem_inv sample_claimed" "store_ok (mem_abs sample_claimed)"
proof -
  have "ClaimBatch mem_ops sample_pending 10 2000 0
      = (fst (mem_ClaimBatch sample_pending 10 2000 0), sample_claimed)"
    by (simp add: mem_ops_def sample_claimed_def)
  from mem.claim_keeps [OF sample_pending_ok _ this]
  show "mem_inv sample_claimed" "store_ok (mem_abs sample_claimed)" by simp_all
qed

lemma sample_pending_eq:
  "sample_pending = \<lparr>records = [(1, \<lparr>q_req = sample_req, q_key = ''k'', q_next = 1000, q_locked = 0,
     q_quoteID = 0\<rparr>)], idempotencyIndex = [''k'' \<mapsto> 1], quotes = [], nextQuoteID = 0\<rparr>"
  by (simp add: sample_pending_def mem_CreateUpdateRequest_def NewRepository_def sample_req_def
      NewCurrencyRateUpdateRequest_def)

lemma sample_claim:
  "mem_ClaimBatch sample_pending 10 2000 0 = (Ok [claimed_req], sample_claimed)"
  by (simp add: sample_claimed_def sample_pending_eq mem_ClaimBatch_def mem_candidate_def
      mem_claim_next_def TransitionTo_def sample_req_def NewCurrencyRateUpdateRequest_def
      claimed_req_def go_defs Let_def)

lemma sample_claimed_eq:
  "sample_claimed = \<lparr>records = [(1, \<lparr>q_req = claimed_req, q_key = ''k'', q_next = 1000,
     q_locked = 2000, q_quoteID = 0\<rparr>)], idempotencyIndex = [''k'' \<mapsto> 1], quotes = [], nextQuoteID = 0\<rparr>"
  by (simp add: sample_claimed_def sample_pending_eq mem_ClaimBatch_def mem_candidate_def
      mem_claim_next_def TransitionTo_def sample_req_def NewCurrencyRateUpdateRequest_def
      claimed_req_def go_defs Let_def)

lemma sample_held: "held (mem_abs sample_claimed) claimed_req"
  by (simp add: held_def sample_claimed_eq claimed_req_def sample_req_def NewCurrencyRateUpdateRequest_def)

text \<open>The claimed request is resolved by a fetch from the fake provider.\<close>

lemma sample_fetch:
  "fst (fake_GetCurrencyRate fake_clock sample_decimal sample_fake sample_pair)
     = Ok \<lparr>pq_Value = 19, pq_Derived = False, pq_Quality = ''live'', pq_QuotedAt = 3000\<rparr>"
  by (simp add: fake_GetCurrencyRate_def sample_fake_def NewFakeRateProvider_def checkQuota_def
      fake_clock_def FakeClock_Now_def NewFakeClock_def simulateDelay_def randomDelay_def
      baseRates_def Slug_def sample_pair_def sample_decimal_def Let_def)

lemma sample_process: "fst (Process (sample_worker n) (sample_world sample_claimed) claimed_req) = Ok ()"
proof -
  obtain f where f: "fake_GetCurrencyRate fake_clock sample_decimal sample_fake sample_pair
      = (Ok \<lparr>pq_Value = 19, pq_Derived = False, pq_Quality = ''live'', pq_QuotedAt = 3000\<rparr>, f)"
    using sample_fetch by (metis prod.collapse)
  have pair: "Pair claimed_req = sample_pair"
    by (simp add: claimed_req_def sample_req_def NewCurrencyRateUpdateRequest_def)
  have allow: "fst (Allow (NewRateLimiter 12 100) 3000) = (True, 0)"
    by (simp add: NewRateLimiter_def Allow_eq_spec Allow_spec_def window_def Let_def)
  then obtain l where l: "Allow (NewRateLimiter 12 100) 3000 = ((True, 0), l)" by (metis prod.collapse)
  show ?thesis
    by (simp add: Process_def fetch_def fetch_fresh_def sample_worker_def NewWorker_def sample_world_def
        mem_ops_def mem_GetLatestQuote_def pair read_clock_def fake_clock_def FakeClock_Now_def
        NewFakeClock_def fake_provider_def f [unfolded fake_clock_def] l NewCurrencyRate_def go_defs
        maxQuotedAtSkew_def Minute_def Second_def mem_CompleteSuccess_def transitionRecord_def
        sample_claimed_eq TransitionTo_def claimed_req_def sample_req_def
        NewCurrencyRateUpdateRequest_def findOrCreateQuote_def Let_def)
qed

text \<open>A repository whose journal has a fresh quote.\<close>

definition sample_rate :: "int CurrencyRate" where
  "sample_rate = \<lparr>Value = 19, Derived = False, Quality = ''live'', QuotedAt = 2000, Provider = ''fake'',
     Indicative = True, FetchedAt = 2000, StaleAfter = 60000002000\<rparr>"

definition sample_cached :: "int MemRepo" where
  "sample_cached = \<lparr>records = [], idempotencyIndex = Map.empty, quotes = [(1, (sample_pair, sample_rate))],
     nextQuoteID = 1\<rparr>"

lemma sample_cached_ok: "mem_inv sample_cached" "store_ok (mem_abs sample_cached)"
  by (auto simp: sample_cached_def mem_inv_def ids_ok_def index_ok_def store_ok_def split: if_splits)

lemma sample_cached_fetch:
  "fetch (sample_worker 10) (sample_world sample_cached) sample_pair
     = (Ok (sample_rate, 1), sample_world sample_cached)"
  by (simp add: fetch_def sample_worker_def NewWorker_def sample_world_def mem_ops_def
      mem_GetLatestQuote_def sample_cached_def read_clock_def fake_clock_def FakeClock_Now_def
      NewFakeClock_def sample_rate_def go_defs Let_def)

text \<open>The request that created \<open>sample_pending\<close>.\<close>

lemma sample_parse: "ParseCurrencyPair U ''eur/MXN'' ''/'' = Ok sample_pair"
proof -
  have "strings_TrimSpace U ''eur/MXN'' = ''eur/MXN''"
    by (simp add: strings_TrimSpace_def trim_ascii_def ascii_space_def byte_def)
  moreover have "strings_ToUpper U ''eur/MXN'' = Pair_String sample_pair"
  proof -
    have "map upper_char ''eur/MXN'' = ''EUR/MXN''" by code_simp
    moreover have "is_ascii ''eur/MXN''" by (simp add: byte_def)
    ultimately show ?thesis by (simp only: strings_ToUpper_def if_True)
        (simp add: Pair_String_shape sample_pair_def)
  qed
  ultimately show ?thesis by (simp add: ParseCurrencyPair_Ok_iff)
qed

lemma sample_request:
  "RequestUpdate mem_ops fake_clock U 1 NewRepository (NewFakeClock 1000) ''eur/MXN'' ''k''
     = (Ok \<lparr>Request = sample_req, Replayed = False\<rparr>, sample_pending, NewFakeClock 1000)"
  by (simp add: RequestUpdate_def sample_parse fake_clock_def FakeClock_Now_def NewFakeClock_def
      mem_ops_def sample_pending_eq mem_CreateUpdateRequest_def NewRepository_def sample_req_def
      NewCurrencyRateUpdateRequest_def Let_def)

definition sample_env :: "(int MemRepo, FakeClock, int) http_env" where
  "sample_env = \<lparr>he_repo = mem_ops, he_clock = fake_clock, he_unicode = sample_unicode,
     he_fmt = sample_fmt, he_parse_uuid = (\<lambda>s. if s = uuid_String 1 then Some 1 else None),
     he_StringFixed = itoa, he_ready = (\<lambda>s. True)\<rparr>"

definition sample_server :: "int MemRepo \<Rightarrow> (int MemRepo, FakeClock) server" where
  "sample_server r = \<lparr>sv_repo = r, sv_clock = NewFakeClock 1000, sv_nudge = Some (1, 0),
     sv_ids = (\<lambda>n. of_nat (n + 1)), sv_turn = 0, sv_log = []\<rparr>"

definition sample_post :: request where
  "sample_post = \<lparr>rq_method = ''POST'', rq_path = [''api'', ''v1'', ''quotes'', ''updates''],
     rq_query = (\<lambda>k. []), rq_header = (\<lambda>k. if k = ''Idempotency-Key'' then ''k'' else []),
     rq_body = print_json (JObj [(''pair'', JStr ''eur/MXN'')]), rq_id = []\<rparr>"

lemma sample_post_decoded [simp]: "decode_createUpdateRequest (rq_body sample_post) = Decoded ''eur/MXN''"
  by (simp add: sample_post_def) code_simp

lemma sample_post_key [simp]: "rq_header sample_post ''Idempotency-Key'' = ''k''"
  by (simp add: sample_post_def)

lemma sample_env_mem [simp]: "sample_env\<lparr>he_repo := mem_ops\<rparr> = sample_env"
  by (simp add: sample_env_def)

definition sample_service ::
  "int MemRepo \<Rightarrow> (int MemRepo, FakeClock FakeRateProvider, FakeClock) service" where
  "sample_service r = \<lparr>sc_server = sample_server r, sc_prov = sample_fake,
     sc_limiter = NewRateLimiter 12 100, sc_rand = (\<lambda>n. 0), sc_turn = 0\<rparr>"

definition sample_dispatcher ::
  "(int MemRepo, FakeClock FakeRateProvider, FakeClock, int) Dispatcher" where
  "sample_dispatcher = mem_dispatcher fake_clock sample_decimal Minute fake_clock (5 * Second)
     (5 * Minute) 10 Hour sgn sample_fmt 0 1 120000000000"

text \<open>A POST and then a dispatcher pass, from an empty repository.\<close>

definition sample_after_post :: "(int MemRepo, FakeClock FakeRateProvider, FakeClock) service" where
  "sample_after_post = (sample_service NewRepository)\<lparr>sc_server :=
     fst (snd (NewRouter sample_env [] sample_post (sample_server NewRepository) new_response))\<rparr>"

definition sample_after_pass :: "(int MemRepo, FakeClock FakeRateProvider, FakeClock) service" where
  "sample_after_pass = put_world (snd (runPassRecovered sample_dispatcher rev
     (world_of sample_after_post))) sample_after_post"

lemma sample_run:
  "service_run sample_env [] sample_dispatcher (\<lambda>r i. map_of (records r) i \<noteq> None)
     (sample_service NewRepository) sample_after_pass"
proof -
  have "service_step sample_env [] sample_dispatcher (\<lambda>r i. map_of (records r) i \<noteq> None)
      (sample_service NewRepository) sample_after_post"
    unfolding sample_after_post_def
  proof (rule Step_request)
    show "ids_fresh (\<lambda>i. map_of (records (sv_repo (sc_server (sample_service NewRepository)))) i \<noteq> None)
        (sc_server (sample_service NewRepository))"
      by (simp add: ids_fresh_def sample_service_def sample_server_def NewRepository_def)
    show "NewRouter sample_env [] sample_post (sc_server (sample_service NewRepository)) new_response
      = (fst (NewRouter sample_env [] sample_post (sample_server NewRepository) new_response),
         fst (snd (NewRouter sample_env [] sample_post (sample_server NewRepository) new_response)),
         snd (snd (NewRouter sample_env [] sample_post (sample_server NewRepository) new_response)))"
      by (simp add: sample_service_def)
  qed
  moreover have "service_step sample_env [] sample_dispatcher (\<lambda>r i. map_of (records r) i \<noteq> None)
      sample_after_post sample_after_pass"
    unfolding sample_after_pass_def
    by (rule Step_pass [where order = rev, OF _ prod.collapse [symmetric]]) simp
  ultimately show ?thesis by (blast intro: service_run.intros)
qed

end
