(* ===== verification/PostgresRepo.thy ===== *)
theory PostgresRepo
  imports Repository
begin

text \<open>
  \<open>internal/storage/postgres/repository.go\<close>: the repository against PostgreSQL. The tables are
  those of \<open>migrations/*.sql\<close>, with their constraints; every SQL statement of the source is
  one function on them, as PostgreSQL documents it. What the source cannot decide is in the
  environment \<open>pg_env\<close>: what \<open>TIMESTAMPTZ\<close> and \<open>NUMERIC(24,10)\<close> keep, which round
  trips fail (before or after they took effect), which rows another transaction holds locked, and
  the order in which the server takes rows that a query does not order.
\<close>

section \<open>Tables\<close>

record pg_update =
  c_base :: string
  c_quote :: string
  c_status :: CurrencyRateUpdateStatus
  c_key :: "string option"
  c_attempts :: int
  c_next :: gotime
  c_locked :: "gotime option"
  c_quote_id :: "int option"
  c_error_code :: "string option"
  c_error_message :: "string option"
  c_created :: gotime
  c_updated :: gotime
  c_reused :: "bool option"

record pg_quote =
  j_base :: string
  j_quote :: string
  j_rate :: string
  j_provider :: string
  j_quality :: string
  j_derived :: bool
  j_indicative :: bool
  j_quoted_at :: gotime
  j_fetched_at :: gotime
  j_stale_after :: gotime

text \<open>
  The tables as a connection sees them. \<open>seq_quotes\<close> is the sequence behind \<open>BIGSERIAL\<close>; \<open>own_updates\<close> and
  \<open>own_quotes\<close> are what the transaction in progress has written and not committed, the rows as they were
  and the entries it added; \<open>round_trips\<close> counts the statements sent so far.
\<close>

record PgRepo =
  tbl_updates :: "(uuid \<times> pg_update) list"
  tbl_quotes :: "(int \<times> pg_quote) list"
  seq_quotes :: int
  own_updates :: "(uuid \<times> pg_update) list"
  own_quotes :: "int list"
  round_trips :: nat

definition pg_migrated :: PgRepo where
  "pg_migrated = \<lparr>tbl_updates = [], tbl_quotes = [], seq_quotes = 0, own_updates = [], own_quotes = [],
     round_trips = 0\<rparr>"

record 'd pg_env =
  keep_time :: "gotime \<Rightarrow> gotime"
  num_text :: "'d \<Rightarrow> string"
  decimal_of_text :: "string \<Rightarrow> 'd option"
  failing :: "nat \<Rightarrow> string option"
  lost_reply :: "nat \<Rightarrow> bool"
  skip_locked :: "nat \<Rightarrow> uuid \<Rightarrow> bool"
  tie :: "nat \<Rightarrow> uuid \<Rightarrow> nat"

section \<open>One round trip\<close>

text \<open>An error of the server names the constraint it is about, if any.\<close>

datatype pg_error = Constraint string | Failure string

fun pg_text :: "pg_error \<Rightarrow> go_error" where
  "pg_text (Constraint c) = ErrOther (''violates constraint '' @ c)"
| "pg_text (Failure m) = ErrOther m"

type_synonym 'a sql = "PgRepo \<Rightarrow> (pg_error, 'a) gores \<times> PgRepo"

text \<open>What the other transactions committed before the \<open>n\<close>-th statement.\<close>

type_synonym interference = "nat \<Rightarrow> PgRepo \<Rightarrow> PgRepo"

definition quiet :: interference where
  "quiet n r = r"

lemma quiet_apply [simp]: "quiet n = (\<lambda>r. r)"
  by (simp add: quiet_def fun_eq_iff)

definition round_trip :: "interference \<Rightarrow> 'd pg_env \<Rightarrow> 'a sql \<Rightarrow> 'a sql" where
  "round_trip I K f r =
     (let n = round_trips r; r0 = (I n r)\<lparr>round_trips := n + 1\<rparr>
      in case failing K n of
           Some m \<Rightarrow> (Err (Failure m), if lost_reply K n then snd (f r0) else r0)
         | None \<Rightarrow> f r0)"

text \<open>
  \<open>CHAR(3)\<close> pads with spaces, drops excess spaces and refuses anything else that is longer;
  comparisons ignore trailing spaces.
\<close>

definition rstrip :: "string \<Rightarrow> string" where
  "rstrip s = rev (dropWhile (\<lambda>c. c = CHR '' '') (rev s))"

definition char3 :: "string \<Rightarrow> string option" where
  "char3 s = (let t = rstrip s
              in if 3 < length t then None else Some (t @ replicate (3 - length t) (CHR '' '')))"

definition bpchar_eq :: "string \<Rightarrow> string \<Rightarrow> bool" where
  "bpchar_eq a b \<longleftrightarrow> rstrip a = rstrip b"

definition nullif :: "string \<Rightarrow> string option" where
  "nullif s = (if s = [] then None else Some s)"

fun derefOrEmpty :: "string option \<Rightarrow> string" where
  "derefOrEmpty None = []"
| "derefOrEmpty (Some s) = s"

definition idempotencyKeyConstraint :: string where
  "idempotencyKeyConstraint = ''quote_updates_idem_idx''"

section \<open>Transactions\<close>

text \<open>
  \<open>Begin\<close>, the body and \<open>Commit\<close>, at READ COMMITTED: every statement sees what is committed by then and the
  transaction's own writes. The deferred \<open>Rollback\<close> takes those back, not the sequence, unless the commit
  took effect. A body that panics is rolled back as well.
\<close>

definition end_tx :: "PgRepo \<Rightarrow> PgRepo" where
  "end_tx r = r\<lparr>own_updates := [], own_quotes := []\<rparr>"

definition rollback :: "PgRepo \<Rightarrow> PgRepo" where
  "rollback r = end_tx (r\<lparr>tbl_updates := fold (\<lambda>(i, c). AList.update i c) (own_updates r) (tbl_updates r),
     tbl_quotes := filter (\<lambda>(k, j). k \<notin> set (own_quotes r)) (tbl_quotes r)\<rparr>)"

definition in_tx ::
  "interference \<Rightarrow> 'd pg_env \<Rightarrow> string \<Rightarrow> (PgRepo \<Rightarrow> unit go \<times> PgRepo) \<Rightarrow> PgRepo \<Rightarrow> unit go \<times> PgRepo" where
  "in_tx I K what body r =
     (case round_trip I K (\<lambda>r. (Ok (), r)) r of
        (Err e, r1) \<Rightarrow> (Err (ErrWrap (what @ '': begin'') (pg_text e)), r1)
      | (Panic, r1) \<Rightarrow> (Panic, r1)
      | (Ok _, r1) \<Rightarrow>
          (case body r1 of
             (Err e, r2) \<Rightarrow> (Err e, rollback r2)
           | (Panic, r2) \<Rightarrow> (Panic, rollback r2)
           | (Ok _, r2) \<Rightarrow>
               (case round_trip I K (\<lambda>r. (Ok (), end_tx r)) r2 of
                  (Ok _, r3) \<Rightarrow> (Ok (), r3)
                | (Panic, r3) \<Rightarrow> (Panic, rollback r3)
                | (Err e, r3) \<Rightarrow> (Err (ErrWrap (what @ '': commit'') (pg_text e)), rollback r3))))"

section \<open>Reading a queue row\<close>

text \<open>\<open>Ok None\<close> is \<open>pgx.ErrNoRows\<close>.\<close>

fun scanUpdateRequest ::
  "(pg_error, (uuid \<times> pg_update) option) gores \<Rightarrow> CurrencyRateUpdateRequest go" where
  "scanUpdateRequest (Err e) = Err (ErrWrap ''postgres: scan update request'' (pg_text e))"
| "scanUpdateRequest Panic = Panic"
| "scanUpdateRequest (Ok None) = Err ErrNotFound"
| "scanUpdateRequest (Ok (Some (i, c))) =
     (case NewCurrencyPair (c_base c) (c_quote c) of
        Err e \<Rightarrow> Err (ErrWrap ''postgres: invalid pair in row'' e)
      | Panic \<Rightarrow> Panic
      | Ok pair \<Rightarrow> Ok \<lparr>ID = i, Pair = pair, Status = c_status c, CreatedAt = c_created c,
          UpdatedAt = c_updated c, Attempts = c_attempts c, ErrorCode = derefOrEmpty (c_error_code c),
          ErrorMessage = derefOrEmpty (c_error_message c), Reused = False\<rparr>)"

section \<open>Accepting and finding requests\<close>

definition sql_insert_update :: "'d pg_env \<Rightarrow> CurrencyRateUpdateRequest \<Rightarrow> string \<Rightarrow> unit sql" where
  "sql_insert_update K req key r =
     (case (char3 (base (Pair req)), char3 (quote (Pair req))) of
        (Some b, Some q) \<Rightarrow>
          if map_of (tbl_updates r) (ID req) \<noteq> None then (Err (Constraint ''quote_updates_pkey''), r)
          else if nullif key \<noteq> None \<and> list_ex (\<lambda>ic. c_key (snd ic) = nullif key) (tbl_updates r)
          then (Err (Constraint idempotencyKeyConstraint), r)
          else (Ok (), r\<lparr>tbl_updates := (ID req,
                 \<lparr>c_base = b, c_quote = q, c_status = Status req, c_key = nullif key, c_attempts = 0,
                  c_next = keep_time K (CreatedAt req), c_locked = None, c_quote_id = None,
                  c_error_code = None, c_error_message = None, c_created = keep_time K (CreatedAt req),
                  c_updated = keep_time K (CreatedAt req), c_reused = None\<rparr>) # tbl_updates r\<rparr>)
      | _ \<Rightarrow> (Err (Failure ''value too long for type character(3)''), r))"

definition pg_CreateUpdateRequest ::
  "'d pg_env \<Rightarrow> PgRepo \<Rightarrow> CurrencyRateUpdateRequest \<Rightarrow> string \<Rightarrow> unit go \<times> PgRepo" where
  "pg_CreateUpdateRequest K r req key =
     (case round_trip quiet K (sql_insert_update K req key) r of
        (Ok _, r1) \<Rightarrow> (Ok (), r1)
      | (Panic, r1) \<Rightarrow> (Panic, r1)
      | (Err e, r1) \<Rightarrow>
          (Err (if e = Constraint idempotencyKeyConstraint then ErrIdempotencyKeyExists
                else ErrWrap ''postgres: create update request'' (pg_text e)), r1))"

definition pg_GetByIdempotencyKey ::
  "'d pg_env \<Rightarrow> PgRepo \<Rightarrow> string \<Rightarrow> CurrencyRateUpdateRequest go \<times> PgRepo" where
  "pg_GetByIdempotencyKey K r key =
     (let (row, r1) = round_trip quiet K (\<lambda>r. (Ok (List.find (\<lambda>ic. c_key (snd ic) = Some key) (tbl_updates r)), r)) r
      in (scanUpdateRequest row, r1))"

section \<open>Claiming a batch\<close>

text \<open>
  The two candidate lists, each limited on its own order; locked rows are skipped before the limit
  counts. Then the union in the order of \<open>next_attempt_at\<close>, limited again.
\<close>

definition pending_candidates ::
  "'d pg_env \<Rightarrow> nat \<Rightarrow> nat \<Rightarrow> gotime \<Rightarrow> (uuid \<times> pg_update) list \<Rightarrow> (uuid \<times> pg_update) list" where
  "pending_candidates K n limit now rows =
     take limit (sort_key (\<lambda>(i, c). (c_next c, tie K n i))
       (filter (\<lambda>(i, c). c_status c = StatusPending \<and> c_next c \<le> keep_time K now \<and> \<not> skip_locked K n i) rows))"

definition locked_time :: "pg_update \<Rightarrow> gotime" where
  "locked_time c = (case c_locked c of None \<Rightarrow> 0 | Some t \<Rightarrow> t)"

definition stuck_candidates ::
  "'d pg_env \<Rightarrow> nat \<Rightarrow> nat \<Rightarrow> gotime \<Rightarrow> (uuid \<times> pg_update) list \<Rightarrow> (uuid \<times> pg_update) list" where
  "stuck_candidates K n limit visibleSince rows =
     take limit (sort_key (\<lambda>(i, c). (locked_time c, tie K n i))
       (filter (\<lambda>(i, c). c_status c = StatusInProgress \<and> \<not> skip_locked K n i
          \<and> (case c_locked c of None \<Rightarrow> False | Some t \<Rightarrow> t < keep_time K visibleSince)) rows))"

definition claim_ids ::
  "'d pg_env \<Rightarrow> nat \<Rightarrow> nat \<Rightarrow> gotime \<Rightarrow> gotime \<Rightarrow> (uuid \<times> pg_update) list \<Rightarrow> (uuid \<times> bool) list" where
  "claim_ids K n limit now visibleSince rows =
     map (\<lambda>(t, i, is_pending). (i, is_pending))
       (take limit (sort_key (\<lambda>(t, i, is_pending). (t, tie K n i))
         (map (\<lambda>(i, c). (c_next c, i, True)) (pending_candidates K n limit now rows)
          @ map (\<lambda>(i, c). (c_next c, i, False)) (stuck_candidates K n limit visibleSince rows))))"

definition claim_columns :: "'d pg_env \<Rightarrow> gotime \<Rightarrow> bool \<Rightarrow> pg_update \<Rightarrow> pg_update" where
  "claim_columns K now is_pending c =
     c\<lparr>c_status := StatusInProgress, c_locked := Some (keep_time K now), c_updated := keep_time K now,
       c_attempts := c_attempts c + (if is_pending then 1 else 0)\<rparr>"

definition sql_claim :: "'d pg_env \<Rightarrow> int \<Rightarrow> gotime \<Rightarrow> gotime \<Rightarrow> (uuid \<times> pg_update) list sql" where
  "sql_claim K limit now visibleSince r =
     (let n = round_trips r;
          claimed = claim_ids K n (nat limit) now visibleSince (tbl_updates r);
          updated = map (\<lambda>(i, c). case map_of claimed i of
                                    None \<Rightarrow> (i, c)
                                  | Some p \<Rightarrow> (i, claim_columns K now p c)) (tbl_updates r);
          returned = sort_key (\<lambda>(i, c). tie K n i) (filter (\<lambda>(i, c). i \<in> fst ` set claimed) updated)
      in if limit < 0 then (Err (Failure ''LIMIT must not be negative''), r)
         else if list_ex (\<lambda>(i, c). 2 ^ 31 \<le> c_attempts c) returned
         then (Err (Failure ''integer out of range''), r)
         else (Ok returned, r\<lparr>tbl_updates := updated\<rparr>))"

text \<open>The loop over the returned rows.\<close>

fun scan_rows :: "(uuid \<times> pg_update) list \<Rightarrow> CurrencyRateUpdateRequest list go" where
  "scan_rows [] = Ok []"
| "scan_rows (row # rows) =
     (case scanUpdateRequest (Ok (Some row)) of
        Err e \<Rightarrow> Err e
      | Panic \<Rightarrow> Panic
      | Ok req \<Rightarrow> (case scan_rows rows of Err e \<Rightarrow> Err e | Panic \<Rightarrow> Panic | Ok out \<Rightarrow> Ok (req # out)))"

definition pg_ClaimBatch ::
  "'d pg_env \<Rightarrow> PgRepo \<Rightarrow> int \<Rightarrow> gotime \<Rightarrow> gotime \<Rightarrow> CurrencyRateUpdateRequest list go \<times> PgRepo" where
  "pg_ClaimBatch K r limit now visibleSince =
     (case round_trip quiet K (sql_claim K limit now visibleSince) r of
        (Err e, r1) \<Rightarrow> (Err (ErrWrap ''postgres: claim batch'' (pg_text e)), r1)
      | (Panic, r1) \<Rightarrow> (Panic, r1)
      | (Ok rows, r1) \<Rightarrow> (scan_rows rows, r1))"

section \<open>Closing a request\<close>

definition diagnoseTransitionFailure ::
  "interference \<Rightarrow> 'd pg_env \<Rightarrow> uuid \<Rightarrow> CurrencyRateUpdateStatus \<Rightarrow> PgRepo \<Rightarrow> go_error \<times> PgRepo" where
  "diagnoseTransitionFailure I K i next r =
     (case round_trip I K (\<lambda>r. (Ok (map_of (tbl_updates r) i), r)) r of
        (Ok None, r1) \<Rightarrow> (ErrNotFound, r1)
      | (Ok (Some c), r1) \<Rightarrow>
          (if \<not> CanTransitionTo (c_status c) next then ErrInvalidTransition (c_status c) next
           else ErrConcurrentChange i, r1)
      | (Err e, r1) \<Rightarrow> (ErrWrap ''read status after failed update'' (pg_text e), r1)
      | (Panic, r1) \<Rightarrow> (ErrOther [], r1))"

definition success_columns :: "'d pg_env \<Rightarrow> int \<Rightarrow> bool \<Rightarrow> gotime \<Rightarrow> pg_update \<Rightarrow> pg_update" where
  "success_columns K quoteID reused now c =
     c\<lparr>c_status := StatusSucceeded, c_quote_id := Some quoteID, c_reused := Some reused,
       c_updated := keep_time K now, c_error_code := None, c_error_message := None\<rparr>"

text \<open>The number of rows affected is 0 or 1, as \<open>id\<close> is the primary key.\<close>

definition sql_update_in_progress ::
  "uuid \<Rightarrow> (pg_update \<Rightarrow> pg_update) \<Rightarrow> (PgRepo \<Rightarrow> pg_error option) \<Rightarrow> nat sql" where
  "sql_update_in_progress i f check r =
     (case map_of (tbl_updates r) i of
        None \<Rightarrow> (Ok 0, r)
      | Some c \<Rightarrow>
          if c_status c \<noteq> StatusInProgress then (Ok 0, r)
          else case check r of
                 Some e \<Rightarrow> (Err e, r)
               | None \<Rightarrow> (Ok 1, r\<lparr>tbl_updates := AList.update i (f c) (tbl_updates r),
                             own_updates := (i, c) # own_updates r\<rparr>))"

definition quote_id_fkey :: "int \<Rightarrow> PgRepo \<Rightarrow> pg_error option" where
  "quote_id_fkey quoteID r =
     (if map_of (tbl_quotes r) quoteID = None then Some (Constraint ''quote_updates_quote_id_fkey'') else None)"

definition completeSuccessTx ::
  "interference \<Rightarrow> 'd pg_env \<Rightarrow> uuid \<Rightarrow> int \<Rightarrow> bool \<Rightarrow> gotime \<Rightarrow> PgRepo \<Rightarrow> unit go \<times> PgRepo" where
  "completeSuccessTx I K i quoteID reused now r =
     (case round_trip I K (sql_update_in_progress i (success_columns K quoteID reused now)
                           (quote_id_fkey quoteID)) r of
        (Err e, r1) \<Rightarrow> (Err (ErrWrap ''update queue row'' (pg_text e)), r1)
      | (Panic, r1) \<Rightarrow> (Panic, r1)
      | (Ok affected, r1) \<Rightarrow>
          if affected = 0
          then (let (e, r2) = diagnoseTransitionFailure I K i StatusSucceeded r1 in (Err e, r2))
          else (Ok (), r1))"

definition quote_matches :: "'d pg_env \<Rightarrow> CurrencyPair \<Rightarrow> 'd CurrencyRate \<Rightarrow> pg_quote \<Rightarrow> bool" where
  "quote_matches K pair rate j \<longleftrightarrow> j_provider j = Provider rate \<and> bpchar_eq (j_base j) (base pair)
     \<and> bpchar_eq (j_quote j) (quote pair) \<and> j_quoted_at j = keep_time K (QuotedAt rate)"

definition sql_insert_quote ::
  "'d pg_env \<Rightarrow> CurrencyPair \<Rightarrow> 'd CurrencyRate \<Rightarrow> int option sql" where
  "sql_insert_quote K pair rate r =
     (case (char3 (base pair), char3 (quote pair)) of
        (Some b, Some q) \<Rightarrow>
          let k = seq_quotes r + 1; r1 = r\<lparr>seq_quotes := k\<rparr>
          in if list_ex (\<lambda>kj. quote_matches K pair rate (snd kj)) (tbl_quotes r) then (Ok None, r1)
             else (Ok (Some k), r1\<lparr>tbl_quotes := (k,
                    \<lparr>j_base = b, j_quote = q, j_rate = num_text K (Value rate), j_provider = Provider rate,
                     j_quality = Quality rate, j_derived = Derived rate, j_indicative = Indicative rate,
                     j_quoted_at = keep_time K (QuotedAt rate), j_fetched_at = keep_time K (FetchedAt rate),
                     j_stale_after = keep_time K (StaleAfter rate)\<rparr>) # tbl_quotes r1,
                    own_quotes := k # own_quotes r1\<rparr>)
      | _ \<Rightarrow> (Err (Failure ''value too long for type character(3)''), r))"

definition sql_find_quote ::
  "'d pg_env \<Rightarrow> CurrencyPair \<Rightarrow> 'd CurrencyRate \<Rightarrow> int option sql" where
  "sql_find_quote K pair rate r =
     (Ok (map_option fst (List.find (\<lambda>kj. quote_matches K pair rate (snd kj)) (tbl_quotes r))), r)"

definition upsertQuote ::
  "interference \<Rightarrow> 'd pg_env \<Rightarrow> CurrencyPair \<Rightarrow> 'd CurrencyRate \<Rightarrow> PgRepo \<Rightarrow> int go \<times> PgRepo" where
  "upsertQuote I K pair rate r =
     (case round_trip I K (sql_insert_quote K pair rate) r of
        (Ok (Some k), r1) \<Rightarrow> (Ok k, r1)
      | (Err e, r1) \<Rightarrow> (Err (pg_text e), r1)
      | (Panic, r1) \<Rightarrow> (Panic, r1)
      | (Ok None, r1) \<Rightarrow>
          (case round_trip I K (sql_find_quote K pair rate) r1 of
             (Ok (Some k), r2) \<Rightarrow> (Ok k, r2)
           | (Ok None, r2) \<Rightarrow>
               (Err (ErrWrap ''read row that won the insert race'' (ErrOther ''no rows in result set'')), r2)
           | (Err e, r2) \<Rightarrow> (Err (ErrWrap ''read row that won the insert race'' (pg_text e)), r2)
           | (Panic, r2) \<Rightarrow> (Panic, r2)))"

definition wrap_go :: "string \<Rightarrow> 'a go \<times> PgRepo \<Rightarrow> 'a go \<times> PgRepo" where
  "wrap_go s x = (case x of (Err e, r) \<Rightarrow> (Err (ErrWrap s e), r) | _ \<Rightarrow> x)"

definition pg_CompleteSuccess ::
  "interference \<Rightarrow> 'd pg_env \<Rightarrow> PgRepo \<Rightarrow> uuid \<Rightarrow> CurrencyPair \<Rightarrow> 'd CurrencyRate \<Rightarrow> gotime \<Rightarrow> unit go \<times> PgRepo" where
  "pg_CompleteSuccess I K r i pair rate now =
     in_tx I K ''postgres: complete success''
       (\<lambda>r. case wrap_go ''postgres: complete success: upsert quote'' (upsertQuote I K pair rate r) of
              (Ok quoteID, r1) \<Rightarrow>
                wrap_go ''postgres: complete success'' (completeSuccessTx I K i quoteID False now r1)
            | (Err e, r1) \<Rightarrow> (Err e, r1)
            | (Panic, r1) \<Rightarrow> (Panic, r1)) r"

definition pg_CompleteSuccessReuse ::
  "interference \<Rightarrow> 'd pg_env \<Rightarrow> PgRepo \<Rightarrow> uuid \<Rightarrow> int \<Rightarrow> gotime \<Rightarrow> unit go \<times> PgRepo" where
  "pg_CompleteSuccessReuse I K r i quoteID now =
     in_tx I K ''postgres: complete success reuse''
       (\<lambda>r. wrap_go ''postgres: complete success reuse'' (completeSuccessTx I K i quoteID True now r)) r"

definition failure_columns ::
  "'d pg_env \<Rightarrow> CurrencyRateUpdateStatus \<Rightarrow> string \<Rightarrow> string \<Rightarrow> gotime \<Rightarrow> gotime \<Rightarrow> pg_update \<Rightarrow> pg_update" where
  "failure_columns K nextStatus errCode errMessage nextAttemptAt now c =
     c\<lparr>c_status := nextStatus,
       c_next := (if nextStatus = StatusPending then keep_time K nextAttemptAt else c_next c),
       c_error_code := Some errCode, c_error_message := Some errMessage, c_updated := keep_time K now\<rparr>"

definition pg_CompleteFailure ::
  "interference \<Rightarrow> 'd pg_env \<Rightarrow> PgRepo \<Rightarrow> uuid \<Rightarrow> string \<Rightarrow> string \<Rightarrow> bool \<Rightarrow> gotime \<Rightarrow> gotime \<Rightarrow> unit go \<times> PgRepo" where
  "pg_CompleteFailure I K r i errCode errMessage retryable nextAttemptAt now =
     (let nextStatus = (if retryable then StatusPending else StatusFailed)
      in in_tx I K ''postgres: complete failure''
           (\<lambda>r. case round_trip I K (sql_update_in_progress i
                       (failure_columns K nextStatus errCode errMessage nextAttemptAt now) (\<lambda>_. None)) r of
                  (Err e, r1) \<Rightarrow> (Err (ErrWrap ''postgres: complete failure'' (pg_text e)), r1)
                | (Panic, r1) \<Rightarrow> (Panic, r1)
                | (Ok affected, r1) \<Rightarrow>
                    if affected = 0
                    then (let (e, r2) = diagnoseTransitionFailure I K i nextStatus r1
                          in (Err (ErrWrap ''postgres: complete failure'' e), r2))
                    else (Ok (), r1)) r)"

section \<open>Reading results\<close>

definition read_rate :: "'d pg_env \<Rightarrow> pg_quote \<Rightarrow> 'd CurrencyRate go" where
  "read_rate K j =
     (case decimal_of_text K (j_rate j) of
        None \<Rightarrow> Err (ErrWrap ''postgres: parse rate'' (ErrOther (''can't convert '' @ j_rate j @ '' to decimal'')))
      | Some v \<Rightarrow> Ok \<lparr>Value = v, Derived = j_derived j, Quality = j_quality j, QuotedAt = j_quoted_at j,
          Provider = j_provider j, Indicative = j_indicative j, FetchedAt = j_fetched_at j,
          StaleAfter = j_stale_after j\<rparr>)"

text \<open>The queue row left-joined with the quote it points at.\<close>

definition sql_update_by_id :: "uuid \<Rightarrow> (pg_update \<times> pg_quote option) option sql" where
  "sql_update_by_id i r =
     (Ok (map_option (\<lambda>c. (c, Option.bind (c_quote_id c) (map_of (tbl_quotes r)))) (map_of (tbl_updates r) i)), r)"

definition pg_GetUpdateByID ::
  "'d pg_env \<Rightarrow> PgRepo \<Rightarrow> uuid \<Rightarrow> (CurrencyRateUpdateRequest \<times> 'd CurrencyRate option) go \<times> PgRepo" where
  "pg_GetUpdateByID K r i =
     (case round_trip quiet K (sql_update_by_id i) r of
        (Ok None, r1) \<Rightarrow> (Err ErrNotFound, r1)
      | (Err e, r1) \<Rightarrow> (Err (ErrWrap ''postgres: get update by id'' (pg_text e)), r1)
      | (Panic, r1) \<Rightarrow> (Panic, r1)
      | (Ok (Some (c, joined)), r1) \<Rightarrow>
          (case NewCurrencyPair (c_base c) (c_quote c) of
             Err e \<Rightarrow> Err (ErrWrap ''postgres: invalid pair in row'' e)
           | Panic \<Rightarrow> Panic
           | Ok pair \<Rightarrow>
               let req = \<lparr>ID = i, Pair = pair, Status = c_status c, CreatedAt = c_created c,
                     UpdatedAt = c_updated c, Attempts = c_attempts c,
                     ErrorCode = derefOrEmpty (c_error_code c),
                     ErrorMessage = derefOrEmpty (c_error_message c), Reused = (c_reused c = Some True)\<rparr>
               in case joined of
                    None \<Rightarrow> Ok (req, None)
                  | Some j \<Rightarrow> (case read_rate K j of
                                 Err e \<Rightarrow> Err e
                               | Panic \<Rightarrow> Panic
                               | Ok rate \<Rightarrow> Ok (req, Some rate)), r1))"

text \<open>\<open>ORDER BY quoted_at DESC, id DESC LIMIT 1\<close>.\<close>

definition sql_latest :: "CurrencyPair \<Rightarrow> (int \<times> pg_quote) option sql" where
  "sql_latest pair r =
     (let rows = filter (\<lambda>(k, j). bpchar_eq (j_base j) (base pair) \<and> bpchar_eq (j_quote j) (quote pair))
                   (tbl_quotes r)
      in (Ok (if rows = [] then None
              else Some (List.last (sort_key (\<lambda>(k, j). (j_quoted_at j, k)) rows))), r))"

definition pg_GetLatestQuote ::
  "'d pg_env \<Rightarrow> PgRepo \<Rightarrow> CurrencyPair \<Rightarrow> ('d CurrencyRate \<times> int) go \<times> PgRepo" where
  "pg_GetLatestQuote K r pair =
     (case round_trip quiet K (sql_latest pair) r of
        (Ok None, r1) \<Rightarrow> (Err ErrNotFound, r1)
      | (Err e, r1) \<Rightarrow> (Err (ErrWrap ''postgres: get latest quote'' (pg_text e)), r1)
      | (Panic, r1) \<Rightarrow> (Panic, r1)
      | (Ok (Some (k, j)), r1) \<Rightarrow>
          (case read_rate K j of Err e \<Rightarrow> Err e | Panic \<Rightarrow> Panic | Ok rate \<Rightarrow> Ok (rate, k), r1))"

definition pg_ops :: "'d pg_env \<Rightarrow> (PgRepo, 'd) Repository_ops" where
  "pg_ops K = \<lparr>CreateUpdateRequest = pg_CreateUpdateRequest K,
     GetByIdempotencyKey = pg_GetByIdempotencyKey K, ClaimBatch = pg_ClaimBatch K,
     CompleteSuccess = pg_CompleteSuccess quiet K, CompleteSuccessReuse = pg_CompleteSuccessReuse quiet K,
     CompleteFailure = pg_CompleteFailure quiet K, GetUpdateByID = pg_GetUpdateByID K,
     GetLatestQuote = pg_GetLatestQuote K\<rparr>"

section \<open>The representation\<close>

definition pg_row :: "uuid \<Rightarrow> pg_update \<Rightarrow> queue_row" where
  "pg_row i c =
     \<lparr>q_req = \<lparr>ID = i, Pair = \<lparr>base = c_base c, quote = c_quote c\<rparr>, Status = c_status c,
        CreatedAt = c_created c, UpdatedAt = c_updated c, Attempts = c_attempts c,
        ErrorCode = derefOrEmpty (c_error_code c), ErrorMessage = derefOrEmpty (c_error_message c),
        Reused = (c_reused c = Some True)\<rparr>,
      q_key = derefOrEmpty (c_key c), q_next = c_next c, q_locked = locked_time c,
      q_quoteID = (case c_quote_id c of None \<Rightarrow> 0 | Some k \<Rightarrow> k)\<rparr>"

definition text_value :: "'d::zero pg_env \<Rightarrow> string \<Rightarrow> 'd" where
  "text_value K s = (case decimal_of_text K s of None \<Rightarrow> 0 | Some v \<Rightarrow> v)"

definition pg_rate :: "'d::zero pg_env \<Rightarrow> pg_quote \<Rightarrow> 'd CurrencyRate" where
  "pg_rate K j = \<lparr>Value = text_value K (j_rate j), Derived = j_derived j, Quality = j_quality j,
     QuotedAt = j_quoted_at j, Provider = j_provider j, Indicative = j_indicative j,
     FetchedAt = j_fetched_at j, StaleAfter = j_stale_after j\<rparr>"

definition pg_pair :: "pg_quote \<Rightarrow> CurrencyPair" where
  "pg_pair j = \<lparr>base = j_base j, quote = j_quote j\<rparr>"

definition pg_abs :: "'d::zero pg_env \<Rightarrow> PgRepo \<Rightarrow> 'd store" where
  "pg_abs K r = \<lparr>st_rows = (\<lambda>i. map_option (pg_row i) (map_of (tbl_updates r) i)),
     st_quotes = (\<lambda>k. map_option (\<lambda>j. (pg_pair j, pg_rate K j)) (map_of (tbl_quotes r) k))\<rparr>"

text \<open>What the tables keep of a rate.\<close>

definition pg_kept :: "'d::zero pg_env \<Rightarrow> 'd CurrencyRate \<Rightarrow> 'd CurrencyRate" where
  "pg_kept K rate = rate\<lparr>Value := text_value K (num_text K (Value rate)),
     QuotedAt := keep_time K (QuotedAt rate), FetchedAt := keep_time K (FetchedAt rate),
     StaleAfter := keep_time K (StaleAfter rate)\<rparr>"

definition update_ok :: "pg_update \<Rightarrow> bool" where
  "update_ok c \<longleftrightarrow> (c_status c = StatusInProgress \<longrightarrow> c_locked c \<noteq> None) \<and> c_key c \<noteq> Some []"

definition pg_tables :: "PgRepo \<Rightarrow> bool" where
  "pg_tables r \<longleftrightarrow> distinct (map fst (tbl_updates r)) \<and> distinct (map fst (tbl_quotes r)) \<and> 0 \<le> seq_quotes r
     \<and> (\<forall>k j. map_of (tbl_quotes r) k = Some j \<longrightarrow> 0 < k \<and> k \<le> seq_quotes r \<and> pair_ok (pg_pair j))
     \<and> (\<forall>i c. map_of (tbl_updates r) i = Some c \<longrightarrow> update_ok c)"

text \<open>Between transactions nothing is uncommitted.\<close>

definition pg_inv :: "PgRepo \<Rightarrow> bool" where
  "pg_inv r \<longleftrightarrow> pg_tables r \<and> own_updates r = [] \<and> own_quotes r = []"

lemma pg_abs_sel [simp]:
  "st_rows (pg_abs K r) i = map_option (pg_row i) (map_of (tbl_updates r) i)"
  "st_quotes (pg_abs K r) k = map_option (\<lambda>j. (pg_pair j, pg_rate K j)) (map_of (tbl_quotes r) k)"
  by (simp_all add: pg_abs_def)

lemma pg_inv_migrated: "pg_inv pg_migrated"
  by (simp add: pg_inv_def pg_tables_def pg_migrated_def)

lemma pg_abs_migrated: "pg_abs K pg_migrated = empty_store"
  by (simp add: pg_abs_def pg_migrated_def empty_store_def)

text \<open>Counting round trips and advancing the sequence change no table.\<close>

lemma pg_abs_round_trips [simp]: "pg_abs K (r\<lparr>round_trips := n\<rparr>) = pg_abs K r"
  by (simp add: pg_abs_def)

lemma pg_inv_round_trips [simp]: "pg_inv (r\<lparr>round_trips := n\<rparr>) = pg_inv r"
  by (simp add: pg_inv_def pg_tables_def)

lemma pg_abs_seq [simp]: "pg_abs K (r\<lparr>seq_quotes := k\<rparr>) = pg_abs K r"
  by (simp add: pg_abs_def)

lemma pg_row_steps:
  "pg_row i (success_columns K k b now c) = succeeded_row (keep_time K now) k b (pg_row i c)"
  "pg_row i (failure_columns K (if retry then StatusPending else StatusFailed) code msg nxt now c)
     = failed_row (keep_time K now) code msg retry (keep_time K nxt) (pg_row i c)"
  "pg_row i (claim_columns K now (c_status c = StatusPending) c) = claimed_row (keep_time K now) (pg_row i c)"
  by (simp_all add: pg_row_def success_columns_def failure_columns_def claim_columns_def succeeded_row_def
      failed_row_def claimed_row_def locked_time_def)

lemma pg_row_sel [simp]:
  "ID (q_req (pg_row i c)) = i" "Status (q_req (pg_row i c)) = c_status c" "q_next (pg_row i c) = c_next c"
  "q_key (pg_row i c) = derefOrEmpty (c_key c)" "q_locked (pg_row i c) = locked_time c"
  "Pair (q_req (pg_row i c)) = \<lparr>base = c_base c, quote = c_quote c\<rparr>"
  by (simp_all add: pg_row_def)

section \<open>Errors of the connection\<close>

lemma infra_simps [simp]:
  "infra (ErrWrap s e) = infra e" "infra (ErrOther m)" "infra (pg_text x)"
  by (cases x; simp add: infra_def)+

lemma round_trip_cases:
  assumes "round_trip quiet K f r = (x, r')"
  obtains (sent) "failing K (round_trips r) = None" "f (r\<lparr>round_trips := Suc (round_trips r)\<rparr>) = (x, r')"
  | (failed) m where "x = Err (Failure m)" "r' = r\<lparr>round_trips := Suc (round_trips r)\<rparr>"
  | (lost) m y where "lost_reply K (round_trips r)" "x = Err (Failure m)"
      "f (r\<lparr>round_trips := Suc (round_trips r)\<rparr>) = (y, r')"
  using assms
  by (cases "f (r\<lparr>round_trips := Suc (round_trips r)\<rparr>)")
    (auto simp: round_trip_def Let_def split: option.splits if_splits)

text \<open>
  What a method may do: what its specification says, or fail and leave the tables alone, or, when
  replies can be lost, fail although it took effect.
\<close>

definition pg_outcome ::
  "'d::zero pg_env \<Rightarrow> ('a go \<Rightarrow> 'd store \<Rightarrow> bool) \<Rightarrow> PgRepo \<Rightarrow> 'a go \<Rightarrow> PgRepo \<Rightarrow> bool" where
  "pg_outcome K spec r res r' \<longleftrightarrow> pg_inv r' \<and>
     (spec res (pg_abs K r') \<or> fault (pg_abs K r) res (pg_abs K r')
      \<or> ((\<exists>n. lost_reply K n) \<and> (\<exists>e. res = Err e \<and> infra e) \<and> (\<exists>x. spec (Ok x) (pg_abs K r'))))"

lemma pg_outcome_spec: "pg_inv r' \<Longrightarrow> spec res (pg_abs K r') \<Longrightarrow> pg_outcome K spec r res r'"
  by (simp add: pg_outcome_def)

lemma pg_outcome_fault:
  "pg_inv r' \<Longrightarrow> pg_abs K r' = pg_abs K r \<Longrightarrow> infra e \<Longrightarrow> pg_outcome K spec r (Err e) r'"
  by (simp add: pg_outcome_def fault_def)

lemma pg_outcome_lost:
  "pg_inv r' \<Longrightarrow> lost_reply K n \<Longrightarrow> infra e \<Longrightarrow> spec (Ok x) (pg_abs K r') \<Longrightarrow> pg_outcome K spec r (Err e) r'"
  by (auto simp: pg_outcome_def)

lemma pg_outcome_reliable:
  "pg_outcome K spec r res r' \<Longrightarrow> lost_reply K = (\<lambda>_. False)
    \<Longrightarrow> pg_inv r' \<and> (spec res (pg_abs K r') \<or> fault (pg_abs K r) res (pg_abs K r'))"
  by (auto simp: pg_outcome_def)

section \<open>The contract, operation by operation\<close>

subsection \<open>Currency codes in \<open>CHAR(3)\<close> columns\<close>

lemma code_column:
  assumes "Code_Valid c"
  shows "rstrip c = c" "char3 c = Some c"
  using assms by (auto simp: Code_Valid_iff rstrip_def char3_def)

lemma pair_columns:
  assumes "pair_ok p"
  shows "char3 (base p) = Some (base p)" "char3 (quote p) = Some (quote p)"
  using assms by (simp_all add: pair_ok_def code_column)

lemma bpchar_codes: "Code_Valid a \<Longrightarrow> Code_Valid b \<Longrightarrow> bpchar_eq a b \<longleftrightarrow> a = b"
  by (simp add: bpchar_eq_def code_column)

lemma pair_eq_columns:
  assumes "pair_ok (pg_pair j)" "pair_ok p"
  shows "bpchar_eq (j_base j) (base p) \<and> bpchar_eq (j_quote j) (quote p) \<longleftrightarrow> pg_pair j = p"
  using assms by (cases p) (auto simp: pair_ok_def pg_pair_def bpchar_codes)

lemma quote_matches_same:
  assumes "pair_ok (pg_pair j)" "pair_ok p"
  shows "quote_matches K p rate j \<longleftrightarrow> same_quote p (pg_kept K rate) (pg_pair j, pg_rate K j)"
  using pair_eq_columns [OF assms]
  by (auto simp: quote_matches_def same_quote_def pg_kept_def pg_rate_def)

subsection \<open>Accepting and finding requests\<close>

lemma pg_key_used:
  assumes "pg_inv r"
  shows "key_used (pg_abs K r) key
    \<longleftrightarrow> nullif key \<noteq> None \<and> list_ex (\<lambda>ic. c_key (snd ic) = nullif key) (tbl_updates r)"
proof -
  have d: "distinct (map fst (tbl_updates r))"
    and ok: "\<And>i c. map_of (tbl_updates r) i = Some c \<Longrightarrow> c_key c \<noteq> Some []"
    using assms by (auto simp: pg_inv_def pg_tables_def update_ok_def)
  have deref: "derefOrEmpty k = key \<longleftrightarrow> k = nullif key" if "key \<noteq> []" for k
    using that by (cases k) (auto simp: nullif_def)
  have "key_used (pg_abs K r) key
      \<longleftrightarrow> key \<noteq> [] \<and> (\<exists>i c. map_of (tbl_updates r) i = Some c \<and> derefOrEmpty (c_key c) = key)"
    unfolding key_used_def pg_abs_sel map_option_eq_Some by (metis pg_row_sel(4))
  also have "\<dots> \<longleftrightarrow> key \<noteq> [] \<and> (\<exists>i c. (i, c) \<in> set (tbl_updates r) \<and> c_key c = nullif key)"
    using d deref by (metis set_map_of)
  also have "\<dots> \<longleftrightarrow> nullif key \<noteq> None \<and> list_ex (\<lambda>ic. c_key (snd ic) = nullif key) (tbl_updates r)"
    by (cases "key = []") (simp_all add: nullif_def list_ex_iff Bex_def)
  finally show ?thesis .
qed

lemma pg_create_outcome:
  assumes inv: "pg_inv r" and fresh: "fresh_request (pg_abs K r) req"
    and run: "pg_CreateUpdateRequest K r req key = (res, r')"
  shows "pg_outcome K (create_spec (keep_time K) (pg_abs K r) req key) r res r'"
proof -
  let ?spec = "create_spec (keep_time K) (pg_abs K r) req key"
  from fresh obtain i p t where req: "req = NewCurrencyRateUpdateRequest i p t" and p: "pair_ok p"
    and new: "map_of (tbl_updates r) (ID req) = None"
    by (auto simp: fresh_request_def)
  have pair: "pair_ok (Pair req)" using p req by (simp add: NewCurrencyRateUpdateRequest_def)
  have sql: "(key_used (pg_abs K r) key \<and> y = Err (Constraint idempotencyKeyConstraint) \<and> r1 = r0)
      \<or> (\<not> key_used (pg_abs K r) key \<and> y = Ok () \<and> pg_inv r1 \<and> ?spec (Ok ()) (pg_abs K r1))"
    if r0: "r0 = r\<lparr>round_trips := n\<rparr>" and y: "sql_insert_update K req key r0 = (y, r1)" for r0 y r1 n
  proof (cases "key_used (pg_abs K r) key")
    case True
    with y r0 new pg_key_used [OF inv, of K key] show ?thesis
      by (auto simp: sql_insert_update_def pair_columns [OF pair])
  next
    case False
    define c where "c = \<lparr>c_base = base (Pair req), c_quote = quote (Pair req), c_status = Status req,
      c_key = nullif key, c_attempts = 0, c_next = keep_time K (CreatedAt req), c_locked = None,
      c_quote_id = None, c_error_code = None, c_error_message = None,
      c_created = keep_time K (CreatedAt req), c_updated = keep_time K (CreatedAt req), c_reused = None\<rparr>"
    have y: "y = Ok ()" "r1 = r0\<lparr>tbl_updates := (ID req, c) # tbl_updates r0\<rparr>"
      using False y r0 new pg_key_used [OF inv, of K key]
      by (auto simp: sql_insert_update_def pair_columns [OF pair] c_def)
    have row: "pg_row (ID req) c = new_row (keep_time K) req key"
      by (simp add: pg_row_def c_def new_row_def req NewCurrencyRateUpdateRequest_def locked_time_def nullif_def)
    have "update_ok c" by (simp add: update_ok_def c_def req NewCurrencyRateUpdateRequest_def nullif_def)
    then have "pg_inv r1"
      using inv new by (auto simp: y(2) r0 pg_inv_def pg_tables_def map_of_eq_None_iff)
    moreover have "pg_abs K r1 = (pg_abs K r)\<lparr>st_rows := (st_rows (pg_abs K r))(ID req \<mapsto> new_row (keep_time K) req key)\<rparr>"
      by (auto simp: pg_abs_def y(2) r0 row)
    ultimately show ?thesis using False y by (simp add: create_spec_def)
  qed
  obtain x r1 where x: "round_trip quiet K (sql_insert_update K req key) r = (x, r1)" by fastforce
  then show ?thesis
  proof (cases rule: round_trip_cases)
    case sent
    with sql [OF refl sent(2)] run x inv show ?thesis
      by (auto simp: pg_CreateUpdateRequest_def create_spec_def intro!: pg_outcome_spec)
  next
    case (failed m)
    with run x inv show ?thesis
      by (auto simp: pg_CreateUpdateRequest_def idempotencyKeyConstraint_def intro!: pg_outcome_fault)
  next
    case (lost m y)
    with run x have "res = Err (ErrWrap ''postgres: create update request'' (ErrOther m))" "r' = r1"
      by (auto simp: pg_CreateUpdateRequest_def)
    with sql [OF refl lost(3)] lost(1) inv show ?thesis
      by (auto intro: pg_outcome_fault pg_outcome_lost)
  qed
qed

lemma scan_plain:
  assumes "pair_ok \<lparr>base = c_base c, quote = c_quote c\<rparr>"
  shows "scanUpdateRequest (Ok (Some (i, c))) = Ok ((q_req (pg_row i c))\<lparr>Reused := False\<rparr>)"
proof -
  have "NewCurrencyPair (c_base c) (c_quote c) = Ok \<lparr>base = c_base c, quote = c_quote c\<rparr>"
    using assms by simp
  then show ?thesis unfolding scanUpdateRequest.simps by (simp only: gores.case) (simp add: pg_row_def)
qed

lemma pg_pair_ok:
  "store_ok (pg_abs K r) \<Longrightarrow> map_of (tbl_updates r) i = Some c \<Longrightarrow> pair_ok \<lparr>base = c_base c, quote = c_quote c\<rparr>"
  using store_ok_rowD [of "pg_abs K r" i "pg_row i c"] by (simp add: row_ok_def)

lemma scan_row:
  assumes "store_ok (pg_abs K r)" "map_of (tbl_updates r) i = Some c"
  shows "scanUpdateRequest (Ok (Some (i, c))) = Ok ((q_req (pg_row i c))\<lparr>Reused := False\<rparr>)"
  using scan_plain [OF pg_pair_ok [OF assms]] .

text \<open>A statement that only reads: the answer, or a failure.\<close>

lemma read_outcome:
  assumes inv: "pg_inv r" and run: "round_trip quiet K (\<lambda>r. (Ok (f r), r)) r = (x, r1)"
    and counts: "f (r\<lparr>round_trips := Suc (round_trips r)\<rparr>) = f r"
  shows "pg_inv r1 \<and> pg_abs K r1 = pg_abs K r \<and> tbl_updates r1 = tbl_updates r \<and> tbl_quotes r1 = tbl_quotes r
    \<and> seq_quotes r1 = seq_quotes r \<and> (x = Ok (f r) \<or> (\<exists>m. x = Err (Failure m)))"
  using run by (rule round_trip_cases) (use inv counts in auto)

lemma pg_by_key_outcome:
  assumes inv: "pg_inv r" and ok: "store_ok (pg_abs K r)"
    and run: "pg_GetByIdempotencyKey K r key = (res, r')"
  shows "pg_inv r' \<and> (by_key_spec (pg_abs K r) key res (pg_abs K r') \<or> fault (pg_abs K r) res (pg_abs K r'))"
proof -
  let ?f = "\<lambda>r. List.find (\<lambda>ic. c_key (snd ic) = Some key) (tbl_updates r)"
  obtain x r1 where x: "round_trip quiet K (\<lambda>r. (Ok (?f r), r)) r = (x, r1)" by fastforce
  with run have res: "res = scanUpdateRequest x" "r' = r1" by (auto simp: pg_GetByIdempotencyKey_def)
  note R = read_outcome [OF inv x]
  have d: "distinct (map fst (tbl_updates r))" using inv by (simp add: pg_inv_def pg_tables_def)
  show ?thesis
  proof (cases "x = Ok (?f r)")
    case False
    with R obtain m where "x = Err (Failure m)" by auto
    with R res show ?thesis by (auto simp: fault_def)
  next
    case True
    show ?thesis
    proof (cases "?f r")
      case None
      then have no: "c_key c \<noteq> Some key" if "(i, c) \<in> set (tbl_updates r)" for i c
        using that by (force simp: find_None_iff)
      then have "\<not> key_used (pg_abs K r) key"
        by (auto simp: pg_key_used [OF inv] list_ex_iff nullif_def)
      with True None R res show ?thesis by (simp add: by_key_spec_def)
    next
      case (Some ic)
      obtain i c where ic: "ic = (i, c)" by (cases ic)
      have "ic \<in> set (tbl_updates r)" "c_key (snd ic) = Some key"
        using Some by (auto simp: find_Some_iff)
      with ic d have c: "map_of (tbl_updates r) i = Some c" "c_key c = Some key" by simp_all
      then have "key \<noteq> []" using inv by (auto simp: pg_inv_def pg_tables_def update_ok_def)
      with c have "key_used (pg_abs K r) key"
        unfolding key_used_def pg_abs_sel by (metis derefOrEmpty.simps(2) option.simps(9) pg_row_sel(4))
      moreover have "res = Ok ((q_req (pg_row i c))\<lparr>Reused := False\<rparr>)"
        using True Some res ic scan_row [OF ok c(1)] by simp
      ultimately have "by_key_spec (pg_abs K r) key res (pg_abs K r)"
        using c unfolding by_key_spec_def pg_abs_sel
        by (metis derefOrEmpty.simps(2) option.simps(9) pg_row_sel(4))
      with R res show ?thesis by simp
    qed
  qed
qed

subsection \<open>Claiming a batch\<close>

text \<open>Like \<open>claim_spec\<close>, among the rows that no other transaction holds.\<close>

definition claimed_from ::
  "(gotime \<Rightarrow> gotime) \<Rightarrow> uuid set \<Rightarrow> 'd store \<Rightarrow> int \<Rightarrow> gotime \<Rightarrow> CurrencyRateUpdateRequest list
     \<Rightarrow> 'd store \<Rightarrow> bool" where
  "claimed_from ct due S limit now claimed S' \<longleftrightarrow>
     distinct (map ID claimed) \<and> ID ` set claimed \<subseteq> due \<and> length claimed = min (nat limit) (card due)
     \<and> st_rows S' = (\<lambda>i. if i \<in> ID ` set claimed then map_option (claimed_row (ct now)) (st_rows S i)
                        else st_rows S i)
     \<and> st_quotes S' = st_quotes S
     \<and> (\<forall>req \<in> set claimed. \<exists>q. st_rows S' (ID req) = Some q \<and> req\<lparr>Reused := Reused (q_req q)\<rparr> = q_req q)
     \<and> (\<forall>i \<in> ID ` set claimed. \<forall>j \<in> due - ID ` set claimed. \<forall>q q'.
            st_rows S i = Some q \<longrightarrow> st_rows S j = Some q'
            \<longrightarrow> Status (q_req q) = StatusPending \<longrightarrow> Status (q_req q') = StatusPending
            \<longrightarrow> q_next q \<le> q_next q')"

definition claim_due ::
  "(gotime \<Rightarrow> gotime) \<Rightarrow> (uuid \<Rightarrow> bool) \<Rightarrow> 'd store \<Rightarrow> gotime \<Rightarrow> gotime \<Rightarrow> uuid set" where
  "claim_due ct skipped S now vis =
     {i. \<not> skipped i \<and> (\<exists>q. st_rows S i = Some q \<and> claimable (ct now) (ct vis) q)}"

definition pg_claim_spec ::
  "(gotime \<Rightarrow> gotime) \<Rightarrow> (uuid \<Rightarrow> bool) \<Rightarrow> 'd store \<Rightarrow> int \<Rightarrow> gotime \<Rightarrow> gotime
     \<Rightarrow> CurrencyRateUpdateRequest list go \<Rightarrow> 'd store \<Rightarrow> bool" where
  "pg_claim_spec ct skipped S limit now vis res S' \<longleftrightarrow>
     (\<exists>claimed. res = Ok claimed \<and> claimed_from ct (claim_due ct skipped S now vis) S limit now claimed S')"

lemma pg_claim_spec_no_skip:
  "pg_claim_spec ct (\<lambda>_. False) S limit now vis res S' = claim_spec ct S limit now vis res S'"
  by (simp add: pg_claim_spec_def claim_spec_def claimed_from_def claim_due_def Let_def)

lemma claimed_from_keeps:
  assumes "claimed_from ct (claim_due ct skipped S now vis) S limit now claimed S'" "store_ok S"
  shows "store_ok S' \<and> evolves S S'"
proof -
  have "ID ` set claimed \<subseteq> {i. \<exists>q. st_rows S i = Some q \<and> claimable (ct now) (ct vis) q}"
    using assms(1) by (auto simp: claimed_from_def claim_due_def)
  from store_ok_claimed [OF assms(2) this] evolves_claimed [OF this] assms(1) show ?thesis
    by (simp add: claimed_from_def)
qed

text \<open>Taking the best \<open>m\<close> of a list by a key.\<close>

lemma take_sorted_le:
  fixes f :: "'a \<Rightarrow> 'k :: linorder"
  assumes "x \<in> set (take m (sort_key f xs))" "y \<in> set xs" "y \<notin> set (take m (sort_key f xs))"
  shows "f x \<le> f y"
proof -
  have "y \<in> set (drop m (sort_key f xs))"
    using assms(2,3) by (metis Un_iff append_take_drop_id set_append set_sort)
  moreover have "sorted (map f (take m (sort_key f xs) @ drop m (sort_key f xs)))" by simp
  ultimately show ?thesis
    using assms(1) unfolding map_append sorted_append by (metis image_eqI list.set_map)
qed

lemma distinct_take_sort:
  "distinct (map g xs) \<Longrightarrow> distinct (map g (take m (sort_key f xs)))"
  by (simp add: take_map [symmetric] distinct_map)

lemma pg_claimable:
  assumes "update_ok c"
  shows "claimable n v (pg_row i c) \<longleftrightarrow> (c_status c = StatusPending \<and> c_next c \<le> n)
    \<or> (c_status c = StatusInProgress \<and> (case c_locked c of None \<Rightarrow> False | Some t \<Rightarrow> t < v))"
  using assms by (auto simp: claimable_def update_ok_def locked_time_def)

text \<open>The two candidate lists cut by the limit, and the claim: who is taken, and how many.\<close>

definition due_pending :: "'d pg_env \<Rightarrow> nat \<Rightarrow> gotime \<Rightarrow> (uuid \<times> pg_update) list \<Rightarrow> (uuid \<times> pg_update) list" where
  "due_pending K n now rows =
     filter (\<lambda>(i, c). c_status c = StatusPending \<and> c_next c \<le> keep_time K now \<and> \<not> skip_locked K n i) rows"

definition due_stuck :: "'d pg_env \<Rightarrow> nat \<Rightarrow> gotime \<Rightarrow> (uuid \<times> pg_update) list \<Rightarrow> (uuid \<times> pg_update) list" where
  "due_stuck K n vis rows =
     filter (\<lambda>(i, c). c_status c = StatusInProgress \<and> \<not> skip_locked K n i
          \<and> (case c_locked c of None \<Rightarrow> False | Some t \<Rightarrow> t < keep_time K vis)) rows"

lemma candidates_eq:
  "pending_candidates K n m now rows = take m (sort_key (\<lambda>(i, c). (c_next c, tie K n i)) (due_pending K n now rows))"
  "stuck_candidates K n m vis rows = take m (sort_key (\<lambda>(i, c). (locked_time c, tie K n i)) (due_stuck K n vis rows))"
  by (simp_all add: pending_candidates_def due_pending_def stuck_candidates_def due_stuck_def)

definition candidates ::
  "'d pg_env \<Rightarrow> nat \<Rightarrow> nat \<Rightarrow> gotime \<Rightarrow> gotime \<Rightarrow> (uuid \<times> pg_update) list \<Rightarrow> (gotime \<times> uuid \<times> bool) list" where
  "candidates K n m now vis rows =
     map (\<lambda>(i, c). (c_next c, i, True)) (pending_candidates K n m now rows)
     @ map (\<lambda>(i, c). (c_next c, i, False)) (stuck_candidates K n m vis rows)"

lemma claim_ids_eq:
  "claim_ids K n m now vis rows = map (\<lambda>(t, i, p). (i, p))
     (take m (sort_key (\<lambda>(t, i, p). (t, tie K n i)) (candidates K n m now vis rows)))"
  by (simp add: claim_ids_def candidates_def)

lemma candidates_facts:
  assumes d: "distinct (map fst rows)"
  shows "distinct (map (\<lambda>(t, i, p). i) (candidates K n m now vis rows))"
    and "\<And>t i p. (t, i, p) \<in> set (candidates K n m now vis rows) \<Longrightarrow>
      \<exists>c. (i, c) \<in> set (if p then due_pending K n now rows else due_stuck K n vis rows) \<and> t = c_next c
        \<and> p = (c_status c = StatusPending)"
    and "length (candidates K n m now vis rows)
      = min m (length (due_pending K n now rows)) + min m (length (due_stuck K n vis rows))"
proof -
  let ?P = "pending_candidates K n m now rows" and ?T = "stuck_candidates K n m vis rows"
  have P: "set ?P \<subseteq> set (due_pending K n now rows)" and T: "set ?T \<subseteq> set (due_stuck K n vis rows)"
    by (auto simp: candidates_eq dest: in_set_takeD)
  have dP: "distinct (map fst ?P)" "distinct (map fst ?T)"
    unfolding candidates_eq using d
    by (auto intro!: distinct_take_sort simp: due_pending_def due_stuck_def distinct_map_filter)
  have disj: "c = c'" if "(i, c) \<in> set rows" "(i, c') \<in> set rows" for i c c'
    using d that by (metis eq_key_imp_eq_value)
  have "fst ` set ?P \<inter> fst ` set ?T = {}"
  proof (rule ccontr)
    assume "\<not> ?thesis"
    then obtain i c c' where "(i, c) \<in> set ?P" "(i, c') \<in> set ?T" by fastforce
    with P T have "(i, c) \<in> set (due_pending K n now rows)" "(i, c') \<in> set (due_stuck K n vis rows)" by auto
    with disj [of i c c'] show False by (auto simp: due_pending_def due_stuck_def)
  qed
  then show "distinct (map (\<lambda>(t, i, p). i) (candidates K n m now vis rows))"
    using dP by (simp add: candidates_def comp_def case_prod_unfold)
  show "\<exists>c. (i, c) \<in> set (if p then due_pending K n now rows else due_stuck K n vis rows) \<and> t = c_next c
        \<and> p = (c_status c = StatusPending)"
    if "(t, i, p) \<in> set (candidates K n m now vis rows)" for t i p
    using that P T by (fastforce simp: candidates_def due_pending_def due_stuck_def)
  show "length (candidates K n m now vis rows)
      = min m (length (due_pending K n now rows)) + min m (length (due_stuck K n vis rows))"
    by (simp add: candidates_def candidates_eq min.commute)
qed

lemma claim_ids_facts:
  fixes K :: "'d pg_env" and n :: nat and now vis :: gotime
  assumes d: "distinct (map fst rows)"
  defines "ids m \<equiv> claim_ids K n m now vis rows"
    and "due \<equiv> due_pending K n now rows @ due_stuck K n vis rows"
  shows "distinct (map fst (ids m))"
    and "\<And>i p. map_of (ids m) i = Some p \<Longrightarrow> \<exists>c. (i, c) \<in> set due \<and> p = (c_status c = StatusPending)"
    and "length (ids m) = min m (length due)"
    and "\<And>i j c c'. i \<in> fst ` set (ids m) \<Longrightarrow> (i, c) \<in> set (due_pending K n now rows)
      \<Longrightarrow> j \<notin> fst ` set (ids m) \<Longrightarrow> (j, c') \<in> set (due_pending K n now rows) \<Longrightarrow> c_next c \<le> c_next c'"
proof -
  let ?C = "candidates K n m now vis rows" and ?k = "\<lambda>(t, i, p). (t :: gotime, tie K n i)"
  let ?S = "take m (sort_key ?k ?C)" and ?g = "\<lambda>(t :: gotime, i :: uuid, p :: bool). i"
  note C = candidates_facts [OF d, where K = K and n = n and m = m and now = now and vis = vis]
  have ids: "ids m = map (\<lambda>(t, i, p). (i, p)) ?S" by (simp add: ids_def claim_ids_eq)
  have fst_ids: "map fst (ids m) = map ?g ?S" by (simp add: ids case_prod_unfold comp_def)
  then show dist: "distinct (map fst (ids m))" using distinct_take_sort [OF C(1)] by simp
  show "\<exists>c. (i, c) \<in> set due \<and> p = (c_status c = StatusPending)" if "map_of (ids m) i = Some p" for i p
  proof -
    from that have "(i, p) \<in> set (ids m)" by (rule map_of_SomeD)
    then obtain t where "(t, i, p) \<in> set ?S" by (auto simp: ids)
    then have "(t, i, p) \<in> set ?C" by (metis in_set_takeD set_sort)
    from C(2) [OF this] show ?thesis by (auto simp: due_def split: if_splits)
  qed
  show "length (ids m) = min m (length due)" by (simp add: ids C(3) due_def)
  show "c_next c \<le> c_next c'"
    if "i \<in> fst ` set (ids m)" "(i, c) \<in> set (due_pending K n now rows)"
      "j \<notin> fst ` set (ids m)" "(j, c') \<in> set (due_pending K n now rows)" for i j c c'
  proof -
    let ?p = "\<lambda>(i, c). (c_next c, tie K n i)"
    from that(1) obtain t p where t: "(t, i, p) \<in> set ?S" by (auto simp: ids)
    then have tC: "(t, i, p) \<in> set ?C" by (metis in_set_takeD set_sort)
    from C(2) [OF tC] obtain c0 where c0: "t = c_next c0" "p = (c_status c0 = StatusPending)"
      and "(i, c0) \<in> set rows" by (auto simp: due_pending_def due_stuck_def split: if_splits)
    moreover from that(2) have c: "(i, c) \<in> set rows" "c_status c = StatusPending"
      by (auto simp: due_pending_def)
    ultimately have "c0 = c" using d eq_key_imp_eq_value by metis
    with c0 c have ip: "p" "t = c_next c" by simp_all
    with tC obtain c1 where c1: "(i, c1) \<in> set (pending_candidates K n m now rows)"
      by (auto simp: candidates_def)
    then have "(i, c1) \<in> set rows" by (auto simp: candidates_eq due_pending_def dest!: in_set_takeD)
    with c(1) d eq_key_imp_eq_value have "c1 = c" by metis
    note pc = c1 [unfolded this]
    show ?thesis
    proof (cases "(j, c') \<in> set (pending_candidates K n m now rows)")
      case True
      then have jC: "(c_next c', j, True) \<in> set ?C" by (force simp: candidates_def)
      have "(c_next c', j, True) \<notin> set ?S" using that(3) by (force simp: ids)
      from take_sorted_le [OF t jC this] ip show ?thesis by auto
    next
      case False
      from take_sorted_le [OF pc [unfolded candidates_eq] that(4)] False show ?thesis
        unfolding candidates_eq by auto
    qed
  qed
qed

lemma due_rows:
  fixes K :: "'d::zero pg_env" and n :: nat and now vis :: gotime
  assumes inv: "pg_inv r"
  defines "due \<equiv> due_pending K n now (tbl_updates r) @ due_stuck K n vis (tbl_updates r)"
  shows "fst ` set due = claim_due (keep_time K) (skip_locked K n) (pg_abs K r) now vis"
    and "length due = card (claim_due (keep_time K) (skip_locked K n) (pg_abs K r) now vis)"
    and "\<And>i c. (i, c) \<in> set due \<Longrightarrow> map_of (tbl_updates r) i = Some c"
    and "\<And>i c. (i, c) \<in> set due \<Longrightarrow> c_status c = StatusPending \<Longrightarrow> (i, c) \<in> set (due_pending K n now (tbl_updates r))"
proof -
  have d: "distinct (map fst (tbl_updates r))" using inv by (simp add: pg_inv_def pg_tables_def)
  have ok: "update_ok c" if "map_of (tbl_updates r) i = Some c" for i c
    using that inv by (simp add: pg_inv_def pg_tables_def)
  show m: "map_of (tbl_updates r) i = Some c" if "(i, c) \<in> set due" for i c
    using that d by (auto simp: due_def due_pending_def due_stuck_def)
  show "(i, c) \<in> set (due_pending K n now (tbl_updates r))"
    if "(i, c) \<in> set due" "c_status c = StatusPending" for i c
    using that by (auto simp: due_def due_stuck_def)
  have in_due: "(i, c) \<in> set due \<longleftrightarrow> map_of (tbl_updates r) i = Some c \<and> \<not> skip_locked K n i
      \<and> claimable (keep_time K now) (keep_time K vis) (pg_row i c)" for i c
    using d pg_claimable [OF ok] by (auto simp: due_def due_pending_def due_stuck_def)
  show eq: "fst ` set due = claim_due (keep_time K) (skip_locked K n) (pg_abs K r) now vis"
  proof (rule set_eqI)
    fix i
    have "i \<in> fst ` set due \<longleftrightarrow> (\<exists>c. (i, c) \<in> set due)" by force
    then show "i \<in> fst ` set due \<longleftrightarrow> i \<in> claim_due (keep_time K) (skip_locked K n) (pg_abs K r) now vis"
      by (auto simp: in_due claim_due_def)
  qed
  have "distinct (map fst due)"
    using d m by (auto simp: due_def due_pending_def due_stuck_def distinct_map_filter)
      (metis (mono_tags, lifting) CurrencyRateUpdateStatus.distinct(1) eq_key_imp_eq_value)
  then show "length due = card (claim_due (keep_time K) (skip_locked K n) (pg_abs K r) now vis)"
    by (metis eq distinct_card length_map list.set_map)
qed

lemma scan_rows_plain:
  "\<forall>(i, c) \<in> set rows. pair_ok \<lparr>base = c_base c, quote = c_quote c\<rparr> \<Longrightarrow>
   scan_rows rows = Ok (map (\<lambda>(i, c). (q_req (pg_row i c))\<lparr>Reused := False\<rparr>) rows)"
  by (induction rows) (auto simp: scan_plain simp del: scanUpdateRequest.simps)

text \<open>The rows as the statement leaves and returns them.\<close>

definition claim_updated ::
  "'d pg_env \<Rightarrow> gotime \<Rightarrow> (uuid \<times> bool) list \<Rightarrow> (uuid \<times> pg_update) list \<Rightarrow> (uuid \<times> pg_update) list" where
  "claim_updated K now ids rows =
     map (\<lambda>(i, c). case map_of ids i of None \<Rightarrow> (i, c) | Some p \<Rightarrow> (i, claim_columns K now p c)) rows"

lemma claim_updated_fst [simp]: "map fst (claim_updated K now ids rows) = map fst rows"
  by (auto simp: claim_updated_def split: option.splits)

lemma claim_updated_map_of:
  "map_of (claim_updated K now ids rows) i
   = map_option (\<lambda>c. case map_of ids i of None \<Rightarrow> c | Some p \<Rightarrow> claim_columns K now p c) (map_of rows i)"
  by (induction rows) (auto simp: claim_updated_def split: option.splits)

lemma sql_claim_effect:
  fixes K :: "'d::zero pg_env"
  assumes inv: "pg_inv r" and ok: "store_ok (pg_abs K r)"
    and run: "sql_claim K limit now vis r = (x, r')"
  shows "(r' = r \<and> (\<exists>m. x = Err (Failure m)))
    \<or> (\<exists>rows claimed. x = Ok rows \<and> scan_rows rows = Ok claimed \<and> pg_inv r'
         \<and> claimed_from (keep_time K) (claim_due (keep_time K) (skip_locked K (round_trips r)) (pg_abs K r) now vis)
             (pg_abs K r) limit now claimed (pg_abs K r'))"
proof -
  define n where "n = round_trips r"
  define m where "m = nat limit"
  define ids where "ids = claim_ids K n m now vis (tbl_updates r)"
  define due where "due = due_pending K n now (tbl_updates r) @ due_stuck K n vis (tbl_updates r)"
  define upd where "upd = claim_updated K now ids (tbl_updates r)"
  define rows where "rows = sort_key (\<lambda>(i, c). tie K n i) (filter (\<lambda>(i, c). i \<in> fst ` set ids) upd)"
  have d: "distinct (map fst (tbl_updates r))" using inv by (simp add: pg_inv_def pg_tables_def)
  note I = claim_ids_facts [OF d, where K = K and n = n and m = m and now = now and vis = vis,
      folded ids_def due_def]
  note D = due_rows [OF inv, where K = K and n = n and now = now and vis = vis, folded due_def]
  have sql: "sql_claim K limit now vis r =
     (if limit < 0 then (Err (Failure ''LIMIT must not be negative''), r)
      else if list_ex (\<lambda>(i, c). 2 ^ 31 \<le> c_attempts c) rows
      then (Err (Failure ''integer out of range''), r)
      else (Ok rows, r\<lparr>tbl_updates := upd\<rparr>))"
    unfolding sql_claim_def Let_def claim_updated_def [symmetric] n_def [symmetric] m_def [symmetric]
      ids_def [symmetric] upd_def [symmetric] rows_def [symmetric] ..
  show ?thesis
  proof (cases "limit < 0 \<or> list_ex (\<lambda>(i, c). 2 ^ 31 \<le> c_attempts c) rows")
    case True
    with run sql show ?thesis by (auto split: if_splits)
  next
    case False
    with run sql have x: "x = Ok rows" and r': "r' = r\<lparr>tbl_updates := upd\<rparr>" by (auto split: if_splits)
    have status: "p = (c_status c = StatusPending)"
      if "map_of ids i = Some p" "map_of (tbl_updates r) i = Some c" for i p c
      using I(2) [OF that(1)] D(3) that(2) by fastforce
    have taken: "i \<in> fst ` set ids \<longleftrightarrow> map_of ids i \<noteq> None" for i
      by (simp add: map_of_eq_None_iff)
    have upd: "map_of upd i = (if i \<in> fst ` set ids
        then map_option (\<lambda>c. claim_columns K now (c_status c = StatusPending) c) (map_of (tbl_updates r) i)
        else map_of (tbl_updates r) i)" for i
      using status [of i]
      by (cases "map_of (tbl_updates r) i"; cases "map_of ids i")
        (auto simp: upd_def claim_updated_map_of taken)
    let ?claimed = "map (\<lambda>(i, c). (q_req (pg_row i c))\<lparr>Reused := False\<rparr>) rows"
    have dU: "distinct (map fst upd)" using d by (simp add: upd_def)
    have sub: "fst ` set ids \<subseteq> fst ` set due"
    proof
      fix i assume "i \<in> fst ` set ids"
      then obtain p where "map_of ids i = Some p" by (auto simp: taken)
      from I(2) [OF this] show "i \<in> fst ` set due" by force
    qed
    have in_rows: "(i, c) \<in> set rows \<longleftrightarrow> i \<in> fst ` set ids \<and> map_of upd i = Some c" for i c
      using dU by (auto simp: rows_def)
    have scan: "scan_rows rows = Ok ?claimed"
    proof (rule scan_rows_plain, clarify)
      fix i c assume "(i, c) \<in> set rows"
      then have "map_of upd i = Some c" by (simp add: in_rows)
      then obtain c0 where "map_of (tbl_updates r) i = Some c0" "c_base c = c_base c0" "c_quote c = c_quote c0"
        unfolding upd by (auto simp: claim_columns_def split: if_split_asm)
      with pg_pair_ok [OF ok] show "pair_ok \<lparr>base = c_base c, quote = c_quote c\<rparr>" by simp
    qed
    have fst_rows: "fst ` set rows = fst ` set ids"
    proof
      show "fst ` set rows \<subseteq> fst ` set ids" by (force simp: rows_def)
      show "fst ` set ids \<subseteq> fst ` set rows"
      proof
        fix i assume i: "i \<in> fst ` set ids"
        with sub D(3) obtain c where "map_of (tbl_updates r) i = Some c" by fastforce
        with i have "(i, claim_columns K now (c_status c = StatusPending) c) \<in> set rows"
          by (simp add: in_rows upd)
        then show "i \<in> fst ` set rows" by force
      qed
    qed
    have "distinct (map fst (sort_key (\<lambda>(i, c). tie K n i) xs)) = distinct (map fst xs)"
      for xs :: "(uuid \<times> pg_update) list" by (simp add: distinct_map)
    then have dR: "distinct (map fst rows)" using dU by (simp add: rows_def distinct_map_filter)
    have IDs: "map ID ?claimed = map fst rows" by auto
    have IDset: "ID ` set ?claimed = fst ` set ids"
      using IDs fst_rows by (metis list.set_map)
    have "length rows = card (fst ` set ids)" using dR fst_rows by (metis distinct_card length_map list.set_map)
    also have "\<dots> = length ids" using I(1) by (metis distinct_card length_map list.set_map)
    finally have len: "length ?claimed = min m (length due)" using I(3) by simp
    have "pg_inv r'"
      using inv dU by (auto simp: r' pg_inv_def pg_tables_def upd update_ok_def claim_columns_def split: if_splits)
    moreover have "claimed_from (keep_time K)
        (claim_due (keep_time K) (skip_locked K n) (pg_abs K r) now vis) (pg_abs K r) limit now ?claimed (pg_abs K r')"
      unfolding claimed_from_def
    proof (intro conjI ballI allI impI)
      show "distinct (map ID ?claimed)" unfolding IDs by (rule dR)
      show "ID ` set ?claimed \<subseteq> claim_due (keep_time K) (skip_locked K n) (pg_abs K r) now vis"
        using IDset sub D(1) by simp
      show "length ?claimed = min (nat limit) (card (claim_due (keep_time K) (skip_locked K n) (pg_abs K r) now vis))"
        using len D(2) by (simp add: m_def)
      show "st_rows (pg_abs K r') = (\<lambda>i. if i \<in> ID ` set ?claimed
          then map_option (claimed_row (keep_time K now)) (st_rows (pg_abs K r) i) else st_rows (pg_abs K r) i)"
        unfolding IDset by (rule ext) (simp add: r' upd option.map_comp comp_def pg_row_steps(3))
      show "st_quotes (pg_abs K r') = st_quotes (pg_abs K r)" by (simp add: r' pg_abs_def)
      show "\<exists>q. st_rows (pg_abs K r') (ID req) = Some q \<and> req\<lparr>Reused := Reused (q_req q)\<rparr> = q_req q"
        if "req \<in> set ?claimed" for req
        using that by (auto simp: in_rows r')
      show "q_next q \<le> q_next q'"
        if "i \<in> ID ` set ?claimed"
          "j \<in> claim_due (keep_time K) (skip_locked K n) (pg_abs K r) now vis - ID ` set ?claimed"
          "st_rows (pg_abs K r) i = Some q" "st_rows (pg_abs K r) j = Some q'"
          "Status (q_req q) = StatusPending" "Status (q_req q') = StatusPending" for i j q q'
      proof -
        from that obtain c c' where c: "map_of (tbl_updates r) i = Some c" "q = pg_row i c"
          "map_of (tbl_updates r) j = Some c'" "q' = pg_row j c'" by auto
        from that(1) sub IDset have "i \<in> fst ` set due" by blast
        with c(1) D(3) have "(i, c) \<in> set due" by force
        with D(4) that(5) c(2) have i: "(i, c) \<in> set (due_pending K n now (tbl_updates r))" by simp
        from that(2) D(1) have "j \<in> fst ` set due" by blast
        with c(3) D(3) have "(j, c') \<in> set due" by force
        with D(4) that(6) c(4) have "(j, c') \<in> set (due_pending K n now (tbl_updates r))" by simp
        from I(4) [OF _ i _ this] that(1,2) show ?thesis unfolding IDset c(2,4) by simp
      qed
    qed
    ultimately show ?thesis using x scan unfolding n_def by blast
  qed
qed

lemma pg_claim_outcome:
  fixes K :: "'d::zero pg_env"
  assumes inv: "pg_inv r" and ok: "store_ok (pg_abs K r)"
    and run: "pg_ClaimBatch K r limit now vis = (res, r')"
  shows "pg_outcome K (pg_claim_spec (keep_time K) (skip_locked K (Suc (round_trips r))) (pg_abs K r) limit now vis)
    r res r'"
proof -
  let ?r0 = "r\<lparr>round_trips := Suc (round_trips r)\<rparr>"
  have r0: "pg_inv ?r0" "store_ok (pg_abs K ?r0)" using inv ok by simp_all
  note sql = sql_claim_effect [OF r0, where limit = limit and now = now and vis = vis]
  obtain x r1 where x: "round_trip quiet K (sql_claim K limit now vis) r = (x, r1)" by fastforce
  then show ?thesis
  proof (cases rule: round_trip_cases)
    case sent
    from sql [OF sent(2)] run x inv show ?thesis
      by (auto simp: pg_ClaimBatch_def pg_claim_spec_def pg_outcome_def fault_def)
  next
    case (failed m)
    with run x inv show ?thesis by (auto simp: pg_ClaimBatch_def intro!: pg_outcome_fault)
  next
    case (lost m y)
    with run x have r: "res = Err (ErrWrap ''postgres: claim batch'' (ErrOther m))" "r' = r1"
      by (auto simp: pg_ClaimBatch_def)
    from sql [OF lost(3)] lost(1) inv show ?thesis
      unfolding r by (auto simp: pg_claim_spec_def pg_outcome_def fault_def)
  qed
qed

subsection \<open>Reading results\<close>

lemma read_rate_cases: "read_rate K j = Ok (pg_rate K j) \<or> (\<exists>e. read_rate K j = Err e \<and> infra e)"
  by (auto simp: read_rate_def pg_rate_def text_value_def split: option.splits)

lemma pg_by_id_outcome:
  fixes K :: "'d::zero pg_env"
  assumes inv: "pg_inv r" and ok: "store_ok (pg_abs K r)" and run: "pg_GetUpdateByID K r i = (res, r')"
  shows "pg_inv r' \<and> (by_id_spec (pg_abs K r) i res (pg_abs K r') \<or> fault (pg_abs K r) res (pg_abs K r'))"
proof -
  let ?f = "\<lambda>r. map_option (\<lambda>c. (c, Option.bind (c_quote_id c) (map_of (tbl_quotes r)))) (map_of (tbl_updates r) i)"
  have sql: "sql_update_by_id i = (\<lambda>r. (Ok (?f r), r))" by (rule ext) (simp add: sql_update_by_id_def)
  obtain x r1 where x: "round_trip quiet K (\<lambda>r. (Ok (?f r), r)) r = (x, r1)" by fastforce
  note R = read_outcome [OF inv x]
  show ?thesis
  proof (cases "x = Ok (?f r)")
    case False
    with R obtain m where "x = Err (Failure m)" by auto
    with run x R show ?thesis by (auto simp: pg_GetUpdateByID_def sql fault_def)
  next
    case True
    show ?thesis
    proof (cases "map_of (tbl_updates r) i")
      case None
      with run x True R show ?thesis by (simp add: pg_GetUpdateByID_def sql by_id_spec_def)
    next
      case (Some c)
      let ?j = "Option.bind (c_quote_id c) (map_of (tbl_quotes r))"
      have "NewCurrencyPair (c_base c) (c_quote c) = Ok \<lparr>base = c_base c, quote = c_quote c\<rparr>"
        using pg_pair_ok [OF ok Some] by simp
      with run x True Some have res: "r' = r1"
        "res = (case ?j of None \<Rightarrow> Ok (q_req (pg_row i c), None)
           | Some j \<Rightarrow> (case read_rate K j of Err e \<Rightarrow> Err e | Panic \<Rightarrow> Panic
                         | Ok rate \<Rightarrow> Ok (q_req (pg_row i c), Some rate)))"
        by (auto simp: pg_GetUpdateByID_def sql pg_row_def Let_def simp del: NewCurrencyPair_Ok_iff
            split: option.split gores.split)
      have zero: "map_of (tbl_quotes r) 0 = None"
        using inv unfolding pg_inv_def pg_tables_def by (metis less_irrefl not_None_eq)
      have quote: "(if q_quoteID (pg_row i c) = 0 then None
          else map_option snd (st_quotes (pg_abs K r) (q_quoteID (pg_row i c)))) = map_option (pg_rate K) ?j"
        using zero by (auto simp: pg_row_def option.map_comp comp_def split: option.split)
      show ?thesis
      proof (cases ?j)
        case None
        with res quote R Some show ?thesis by (simp add: by_id_spec_def)
      next
        case j: (Some j)
        from read_rate_cases [of K j] show ?thesis
        proof
          assume "read_rate K j = Ok (pg_rate K j)"
          with res quote R Some j show ?thesis by (simp add: by_id_spec_def)
        next
          assume "\<exists>e. read_rate K j = Err e \<and> infra e"
          with res R j show ?thesis by (auto simp: fault_def)
        qed
      qed
    qed
  qed
qed

lemma last_sort_key:
  fixes f :: "'a \<Rightarrow> 'k :: linorder"
  assumes "xs \<noteq> []"
  shows "List.last (sort_key f xs) \<in> set xs" "y \<in> set xs \<Longrightarrow> f y \<le> f (List.last (sort_key f xs))"
proof -
  have ne: "sort_key f xs \<noteq> []" using assms by (metis length_0_conv length_sort)
  then show "List.last (sort_key f xs) \<in> set xs" using last_in_set by fastforce
  show "f y \<le> f (List.last (sort_key f xs))" if "y \<in> set xs"
  proof -
    from that ne have "y \<in> set (butlast (sort_key f xs)) \<or> y = List.last (sort_key f xs)"
      by (metis append_butlast_last_id set_append set_sort Un_iff set_ConsD empty_iff list.set(1))
    moreover have "sorted (map f (butlast (sort_key f xs) @ [List.last (sort_key f xs)]))"
      using ne by simp
    ultimately show ?thesis unfolding map_append sorted_append by auto
  qed
qed

lemma pg_latest_outcome:
  fixes K :: "'d::zero pg_env"
  assumes inv: "pg_inv r" and p: "pair_ok p" and run: "pg_GetLatestQuote K r p = (res, r')"
  shows "pg_inv r' \<and> (latest_spec (pg_abs K r) p res (pg_abs K r') \<or> fault (pg_abs K r) res (pg_abs K r'))"
proof -
  let ?rows = "\<lambda>r. filter (\<lambda>(k, j). bpchar_eq (j_base j) (base p) \<and> bpchar_eq (j_quote j) (quote p)) (tbl_quotes r)"
  let ?key = "\<lambda>(k, j). (j_quoted_at j, k)"
  let ?f = "\<lambda>r. if ?rows r = [] then None else Some (List.last (sort_key ?key (?rows r)))"
  have sql: "sql_latest p = (\<lambda>r. (Ok (?f r), r))" by (rule ext) (simp add: sql_latest_def Let_def)
  obtain x r1 where x: "round_trip quiet K (\<lambda>r. (Ok (?f r), r)) r = (x, r1)" by fastforce
  have "?f (r\<lparr>round_trips := Suc (round_trips r)\<rparr>) = ?f r" by simp
  note R = read_outcome [OF inv x this]
  have rows: "(k, j) \<in> set (?rows r) \<longleftrightarrow> st_quotes (pg_abs K r) k = Some (p, pg_rate K j) \<and> map_of (tbl_quotes r) k = Some j" for k j
  proof -
    have d: "distinct (map fst (tbl_quotes r))" using inv by (simp add: pg_inv_def pg_tables_def)
    have "pair_ok (pg_pair j)" if "map_of (tbl_quotes r) k = Some j"
      using that inv by (auto simp: pg_inv_def pg_tables_def)
    then have "(k, j) \<in> set (?rows r) \<longleftrightarrow> map_of (tbl_quotes r) k = Some j \<and> pg_pair j = p"
      using pair_eq_columns [OF _ p, of j]
      by (cases "map_of (tbl_quotes r) k = Some j")
        (auto simp: set_map_of [OF d] simp del: map_of_eq_Some_iff)
    also have "\<dots> \<longleftrightarrow> st_quotes (pg_abs K r) k = Some (p, pg_rate K j) \<and> map_of (tbl_quotes r) k = Some j"
      by (auto simp del: map_of_eq_Some_iff)
    finally show ?thesis .
  qed
  show ?thesis
  proof (cases "x = Ok (?f r)")
    case False
    with R obtain m where "x = Err (Failure m)" by auto
    with run x R show ?thesis by (auto simp: pg_GetLatestQuote_def sql fault_def)
  next
    case True
    show ?thesis
    proof (cases "?rows r = []")
      case empty: True
      have "st_quotes (pg_abs K r) k \<noteq> Some (p, rate)" for k rate
      proof
        assume a: "st_quotes (pg_abs K r) k = Some (p, rate)"
        then obtain j where "map_of (tbl_quotes r) k = Some j" "rate = pg_rate K j" by auto
        with a rows empty show False by (metis list.set(1) empty_iff)
      qed
      moreover have "res = Err ErrNotFound" "r' = r1"
        using run x True empty by (auto simp: pg_GetLatestQuote_def sql)
      ultimately show ?thesis using R by (simp add: latest_spec_def)
    next
      case False
      obtain k j where kj: "List.last (sort_key ?key (?rows r)) = (k, j)" by fastforce
      note L = last_sort_key [OF False, where f = ?key, unfolded kj]
      from L(1) rows have st: "st_quotes (pg_abs K r) k = Some (p, pg_rate K j)" by blast
      have best: "(QuotedAt rate', k') \<le> (QuotedAt (pg_rate K j), k)"
        if "st_quotes (pg_abs K r) k' = Some (p, rate')" for k' rate'
      proof -
        from that obtain j' where j': "map_of (tbl_quotes r) k' = Some j'" "rate' = pg_rate K j'" by auto
        have "(k', j') \<in> set (?rows r)"
          unfolding rows using that unfolding j'(2) by (intro conjI j'(1))
        from L(2) [OF this] show ?thesis by (simp add: j' pg_rate_def)
      qed
      have res: "res = (case read_rate K j of Err e \<Rightarrow> Err e | Panic \<Rightarrow> Panic | Ok rate \<Rightarrow> Ok (rate, k))" "r' = r1"
        using run x True False kj by (auto simp: pg_GetLatestQuote_def sql)
      from read_rate_cases [of K j] show ?thesis
      proof
        assume "read_rate K j = Ok (pg_rate K j)"
        with res st best R show ?thesis unfolding latest_spec_def by auto
      next
        assume "\<exists>e. read_rate K j = Err e \<and> infra e"
        with res R show ?thesis by (auto simp: fault_def)
      qed
    qed
  qed
qed

end
