(* ===== verification/PostgresTx.thy ===== *)
theory PostgresTx
  imports PostgresRepo
begin

text \<open>
  The transactions of \<open>internal/storage/postgres/repository.go\<close> among other transactions. Between two statements
  others may commit; the locale \<open>tx_env\<close> says what PostgreSQL keeps them from, and its lemmas show that each
  method takes effect at one moment all the same. Alone on the database (\<open>quiet\<close>) is one instance.
\<close>

section \<open>Other transactions\<close>

definition same_entry :: "pg_quote \<Rightarrow> pg_quote \<Rightarrow> bool" where
  "same_entry j j' \<longleftrightarrow> j_provider j = j_provider j' \<and> pg_pair j = pg_pair j' \<and> j_quoted_at j = j_quoted_at j'"

definition own_ok :: "PgRepo \<Rightarrow> bool" where
  "own_ok r \<longleftrightarrow> (\<forall>(i, c) \<in> set (own_updates r). update_ok c \<and> map_of (tbl_updates r) i \<noteq> None)
     \<and> (\<forall>k \<in> set (own_quotes r). map_of (tbl_quotes r) k \<noteq> None)"

text \<open>
  The rows this transaction has updated are locked. The entries it has added are invisible to others, who wait
  if they would add the same one. No statement of the program deletes or changes a journal entry.
\<close>

definition respects_locks :: "'d::zero pg_env \<Rightarrow> PgRepo \<Rightarrow> PgRepo \<Rightarrow> bool" where
  "respects_locks K r r' \<longleftrightarrow> own_updates r' = own_updates r \<and> own_quotes r' = own_quotes r
     \<and> (\<forall>i \<in> fst ` set (own_updates r). map_of (tbl_updates r') i = map_of (tbl_updates r) i)
     \<and> (\<forall>k \<in> set (own_quotes r). map_of (tbl_quotes r') k = map_of (tbl_quotes r) k
          \<and> (\<forall>l j j'. map_of (tbl_quotes r') k = Some j \<longrightarrow> map_of (tbl_quotes r') l = Some j'
               \<longrightarrow> same_entry j j' \<longrightarrow> map_of (tbl_quotes r) l = Some j'))
     \<and> st_quotes (pg_abs K (rollback r)) \<subseteq>\<^sub>m st_quotes (pg_abs K (rollback r'))"

text \<open>What others do before a statement keeps the tables well formed, respects the locks, and moves what is
  committed by \<open>Q\<close>, where what is committed is in the domain of \<open>Q\<close>.\<close>

definition isolated :: "('d::zero store \<Rightarrow> 'd store \<Rightarrow> bool) \<Rightarrow> 'd pg_env \<Rightarrow> interference \<Rightarrow> bool" where
  "isolated Q K I \<longleftrightarrow> (\<forall>n r. pg_tables r \<longrightarrow> own_ok r \<longrightarrow>
     Q (pg_abs K (rollback r)) (pg_abs K (rollback r)) \<longrightarrow>
     pg_tables (I n r) \<and> respects_locks K r (I n r)
     \<and> Q (pg_abs K (rollback r)) (pg_abs K (rollback (I n r))))"

lemma respects_locks_own:
  "respects_locks K r r' \<Longrightarrow> own_updates r' = own_updates r" "respects_locks K r r' \<Longrightarrow> own_quotes r' = own_quotes r"
  by (simp_all add: respects_locks_def)

lemma no_quotes_stable: "own_quotes r = [] \<Longrightarrow> respects_locks K r r' \<Longrightarrow> own_quotes r' = []"
  by (simp add: respects_locks_own(2))

lemma isolated_quiet: "isolated (=) K quiet"
  by (auto simp: isolated_def respects_locks_def)

section \<open>What is committed\<close>

lemma pg_tables_sel [simp]:
  "pg_tables (r\<lparr>round_trips := n\<rparr>) = pg_tables r" "pg_tables (end_tx r) = pg_tables r"
  "pg_tables (r\<lparr>own_updates := us, own_quotes := qs\<rparr>) = pg_tables r"
  by (simp_all add: pg_tables_def end_tx_def)

lemma pg_abs_end_tx [simp]: "pg_abs K (end_tx r) = pg_abs K r"
  by (simp add: pg_abs_def end_tx_def)

lemma pg_inv_end_tx [simp]: "pg_inv (end_tx r) = pg_tables r"
  by (simp add: pg_inv_def) (simp add: end_tx_def)

lemma rollback_round_trips [simp]: "rollback (r\<lparr>round_trips := n\<rparr>) = (rollback r)\<lparr>round_trips := n\<rparr>"
  by (simp add: rollback_def end_tx_def)

lemma own_ok_round_trips [simp]: "own_ok (r\<lparr>round_trips := n\<rparr>) = own_ok r"
  by (simp add: own_ok_def)

lemma map_of_filter_keys: "map_of (filter (\<lambda>(k, j). k \<notin> S) xs) k = (if k \<in> S then None else map_of xs k)"
  by (induction xs) auto

lemma distinct_restore: "distinct (map fst xs) \<Longrightarrow> distinct (map fst (fold (\<lambda>(i, c). AList.update i c) us xs))"
  by (induction us arbitrary: xs) (auto simp: distinct_update)

lemma map_of_restore:
  "map_of (fold (\<lambda>(i, c). AList.update i c) us xs) j = Some d
   \<Longrightarrow> map_of xs j = Some d \<or> (j, d) \<in> set us"
  by (induction us arbitrary: xs) (fastforce simp: map_of_update split: if_splits)+

lemma pg_inv_rollback:
  assumes "pg_tables r" "own_ok r"
  shows "pg_inv (rollback r)"
proof -
  let ?rows = "fold (\<lambda>(i, c). AList.update i c) (own_updates r) (tbl_updates r)"
  let ?quotes = "filter (\<lambda>(k, j). k \<notin> set (own_quotes r)) (tbl_quotes r)"
  have t: "tbl_updates (rollback r) = ?rows" "tbl_quotes (rollback r) = ?quotes" "seq_quotes (rollback r) = seq_quotes r"
    "own_updates (rollback r) = []" "own_quotes (rollback r) = []"
    by (simp_all add: rollback_def end_tx_def)
  have "distinct (map fst ?rows)" "distinct (map fst ?quotes)"
    using assms(1) by (auto simp: pg_tables_def distinct_restore distinct_map_filter)
  moreover have "update_ok d" if "map_of ?rows j = Some d" for j d
    using map_of_restore [OF that] assms by (auto simp: pg_tables_def own_ok_def)
  ultimately show ?thesis
    using assms(1) by (auto simp: pg_inv_def pg_tables_def t map_of_filter_keys)
qed

lemma rollback_idle: "own_updates r = [] \<Longrightarrow> own_quotes r = [] \<Longrightarrow> rollback r = r"
  by (simp add: rollback_def end_tx_def)

lemma rollback_inv [simp]: "pg_inv r \<Longrightarrow> rollback r = r"
  by (simp add: rollback_idle pg_inv_def)

lemma pg_abs_rollback_rows:
  "own_updates r = [] \<Longrightarrow> st_rows (pg_abs K (rollback r)) = st_rows (pg_abs K r)"
  "own_updates r = [(i, c)] \<Longrightarrow> st_rows (pg_abs K (rollback r)) = (st_rows (pg_abs K r))(i \<mapsto> pg_row i c)"
  by (auto simp: rollback_def end_tx_def map_of_update)

lemma pg_abs_rollback_quotes:
  "st_quotes (pg_abs K (rollback r)) = (\<lambda>k. if k \<in> set (own_quotes r) then None else st_quotes (pg_abs K r) k)"
  by (auto simp: rollback_def end_tx_def map_of_filter_keys)

lemma respects_locks_round_trips [simp]: "respects_locks K r (r'\<lparr>round_trips := n\<rparr>) = respects_locks K r r'"
  by (simp add: respects_locks_def)

lemma own_ok_respects:
  assumes "respects_locks K r r'" "own_ok r"
  shows "own_ok r'"
  unfolding own_ok_def
proof (intro conjI ballI, clarify, intro conjI)
  fix k assume "k \<in> set (own_quotes r')"
  with assms show "map_of (tbl_quotes r') k \<noteq> None" unfolding own_ok_def respects_locks_def by metis
next
  fix i c
  assume a: "(i, c) \<in> set (own_updates r')"
  have own: "own_updates r' = own_updates r"
    "\<And>i. i \<in> fst ` set (own_updates r) \<Longrightarrow> map_of (tbl_updates r') i = map_of (tbl_updates r) i"
    using assms(1) unfolding respects_locks_def by blast+
  with a assms(2) show "update_ok c" by (auto simp: own_ok_def)
  from a own(1) have "i \<in> fst ` set (own_updates r)" by force
  with a own assms(2) show "map_of (tbl_updates r') i \<noteq> None" by (auto simp: own_ok_def)
qed

text \<open>The state a statement finds.\<close>

definition stmt_state :: "interference \<Rightarrow> PgRepo \<Rightarrow> PgRepo" where
  "stmt_state I r = (I (round_trips r) r)\<lparr>round_trips := Suc (round_trips r)\<rparr>"

lemma round_trip_split:
  assumes "round_trip I K f r = (x, r')"
  obtains (sent) "f (stmt_state I r) = (x, r')"
  | (failed) m where "failing K (round_trips r) \<noteq> None" "x = Err (Failure m)" "r' = stmt_state I r"
  | (lost) m y where "failing K (round_trips r) \<noteq> None" "lost_reply K (round_trips r)" "x = Err (Failure m)" "f (stmt_state I r) = (y, r')"
  using assms
  by (cases "f (stmt_state I r)") (auto simp: round_trip_def stmt_state_def Let_def split: option.splits if_splits)

definition reached :: "('d::zero store \<Rightarrow> 'd store \<Rightarrow> bool) \<Rightarrow> 'd pg_env \<Rightarrow> 'd store \<Rightarrow> PgRepo \<Rightarrow> bool" where
  "reached Q K S r \<longleftrightarrow> pg_tables r \<and> own_ok r \<and> Q S (pg_abs K (rollback r))"

lemma reached_idle: "pg_inv r \<Longrightarrow> reached Q K S r = Q S (pg_abs K r)"
  by (simp add: reached_def own_ok_def) (simp add: pg_inv_def)

section \<open>What the statements write\<close>

text \<open>The row is locked and holds the new columns.\<close>

definition row_ready :: "uuid \<Rightarrow> (pg_update \<Rightarrow> pg_update) \<Rightarrow> PgRepo \<Rightarrow> bool" where
  "row_ready i f r \<longleftrightarrow> (\<exists>c. own_updates r = [(i, c)] \<and> c_status c = StatusInProgress
     \<and> map_of (tbl_updates r) i = Some (f c))"

text \<open>The journal holds the quote under \<open>k\<close>: committed by someone, or added here and by nobody else.\<close>

definition quote_ready :: "'d::zero pg_env \<Rightarrow> CurrencyPair \<Rightarrow> 'd CurrencyRate \<Rightarrow> int \<Rightarrow> PgRepo \<Rightarrow> bool" where
  "quote_ready K p rate k r \<longleftrightarrow> 0 < k \<and>
     (if own_quotes r = [] then \<exists>x. st_quotes (pg_abs K r) k = Some x \<and> same_quote p (pg_kept K rate) x
      else own_quotes r = [k] \<and> st_quotes (pg_abs K r) k = Some (p, pg_kept K rate)
        \<and> (\<forall>l x. st_quotes (pg_abs K r) l = Some x \<longrightarrow> same_quote p (pg_kept K rate) x \<longrightarrow> l = k))"

lemma quote_ready_found:
  "own_quotes r = [] \<Longrightarrow> quote_ready K p rate k r \<longleftrightarrow>
     0 < k \<and> (\<exists>x. st_quotes (pg_abs K r) k = Some x \<and> same_quote p (pg_kept K rate) x)"
  unfolding quote_ready_def by (simp only: simp_thms if_True)

lemma quote_ready_added:
  "own_quotes r \<noteq> [] \<Longrightarrow> quote_ready K p rate k r \<longleftrightarrow>
     0 < k \<and> own_quotes r = [k] \<and> st_quotes (pg_abs K r) k = Some (p, pg_kept K rate)
     \<and> (\<forall>l x. st_quotes (pg_abs K r) l = Some x \<longrightarrow> same_quote p (pg_kept K rate) x \<longrightarrow> l = k)"
  unfolding quote_ready_def by (simp only: simp_thms if_False)

lemma row_ready_stable: "row_ready i f r \<Longrightarrow> respects_locks K r r' \<Longrightarrow> row_ready i f r'"
  by (auto simp: row_ready_def respects_locks_def)

lemma pg_abs_rollback_idle:
  "own_quotes r = [] \<Longrightarrow> st_quotes (pg_abs K (rollback r)) = st_quotes (pg_abs K r)"
  by (simp add: pg_abs_rollback_quotes fun_eq_iff)

lemma quote_ready_stable:
  assumes ready: "quote_ready K p rate k r" and locks: "respects_locks K r r'"
  shows "quote_ready K p rate k r'"
proof (cases "own_quotes r = []")
  case True
  with locks have "own_quotes r' = []" by (simp add: respects_locks_def)
  moreover have "st_quotes (pg_abs K (rollback r)) \<subseteq>\<^sub>m st_quotes (pg_abs K (rollback r'))"
    using locks by (simp add: respects_locks_def)
  ultimately have own: "own_quotes r' = []" "st_quotes (pg_abs K r) \<subseteq>\<^sub>m st_quotes (pg_abs K r')"
    using True by (simp_all add: pg_abs_rollback_idle)
  then have "st_quotes (pg_abs K r') k = Some x" if "st_quotes (pg_abs K r) k = Some x" for x
    using that unfolding map_le_def by (metis domI)
  with ready show ?thesis unfolding quote_ready_found [OF True] quote_ready_found [OF own(1)] by blast
next
  case False
  with ready have own: "0 < k" "own_quotes r = [k]" "st_quotes (pg_abs K r) k = Some (p, pg_kept K rate)"
    and only: "\<And>l x. st_quotes (pg_abs K r) l = Some x \<Longrightarrow> same_quote p (pg_kept K rate) x \<Longrightarrow> l = k"
    unfolding quote_ready_added [OF False] by blast+
  have own': "own_quotes r' = [k]" using locks own(2) by (simp add: respects_locks_def)
  from locks own(2) have kept: "map_of (tbl_quotes r') k = map_of (tbl_quotes r) k"
    and seen: "\<And>l j j'. map_of (tbl_quotes r') k = Some j \<Longrightarrow> map_of (tbl_quotes r') l = Some j'
      \<Longrightarrow> same_entry j j' \<Longrightarrow> map_of (tbl_quotes r) l = Some j'"
    unfolding respects_locks_def by (metis list.set_intros(1))+
  from own(3) obtain j where j: "map_of (tbl_quotes r) k = Some j" "pg_pair j = p" "pg_rate K j = pg_kept K rate"
    by auto
  have "l = k" if x: "st_quotes (pg_abs K r') l = Some x" "same_quote p (pg_kept K rate) x" for l x
  proof -
    from x(1) obtain j' where j': "map_of (tbl_quotes r') l = Some j'" "x = (pg_pair j', pg_rate K j')" by auto
    have "same_entry j j'"
      using x(2) j(2) unfolding j(3) [symmetric] by (simp add: same_entry_def same_quote_def j'(2) pg_rate_def)
    with seen [of j l j'] kept j(1) j'(1) have "map_of (tbl_quotes r) l = Some j'" by simp
    then have "st_quotes (pg_abs K r) l = Some x" by (simp add: j'(2))
    from only [OF this x(2)] show ?thesis .
  qed
  moreover have "own_quotes r' \<noteq> []" "st_quotes (pg_abs K r') k = Some (p, pg_kept K rate)"
    using own' kept j by simp_all
  ultimately show ?thesis using own(1) own' quote_ready_added by blast
qed

lemma quote_ready_same:
  "quote_ready K p rate k r \<Longrightarrow> tbl_quotes r' = tbl_quotes r \<Longrightarrow> own_quotes r' = own_quotes r
    \<Longrightarrow> quote_ready K p rate k r'"
  unfolding quote_ready_def pg_abs_sel by (simp only: simp_thms) blast

text \<open>What the commit of such writes adds to what is committed.\<close>

lemma row_ready_commit:
  assumes "row_ready i f r"
  obtains c where "c_status c = StatusInProgress" "st_rows (pg_abs K (rollback r)) i = Some (pg_row i c)"
    "st_rows (pg_abs K r) = (st_rows (pg_abs K (rollback r)))(i \<mapsto> pg_row i (f c))"
proof -
  from assms obtain c where c: "own_updates r = [(i, c)]" "c_status c = StatusInProgress"
    "map_of (tbl_updates r) i = Some (f c)" by (auto simp: row_ready_def)
  show thesis
  proof (rule that [OF c(2)])
    show "st_rows (pg_abs K (rollback r)) i = Some (pg_row i c)"
      by (simp only: pg_abs_rollback_rows(2) [OF c(1)] fun_upd_same)
    show "st_rows (pg_abs K r) = (st_rows (pg_abs K (rollback r)))(i \<mapsto> pg_row i (f c))"
      unfolding pg_abs_rollback_rows(2) [OF c(1)] by (rule ext) (simp add: c(3))
  qed
qed

lemma quote_ready_commit:
  assumes "quote_ready K p rate k r"
  shows "if \<exists>l x. st_quotes (pg_abs K (rollback r)) l = Some x \<and> same_quote p (pg_kept K rate) x
    then st_quotes (pg_abs K r) = st_quotes (pg_abs K (rollback r))
      \<and> (\<exists>x. st_quotes (pg_abs K (rollback r)) k = Some x \<and> same_quote p (pg_kept K rate) x)
    else st_quotes (pg_abs K (rollback r)) k = None
      \<and> st_quotes (pg_abs K r) = (st_quotes (pg_abs K (rollback r)))(k \<mapsto> (p, pg_kept K rate))"
proof (cases "own_quotes r = []")
  case True
  with assms have "\<exists>x. st_quotes (pg_abs K r) k = Some x \<and> same_quote p (pg_kept K rate) x"
    by (simp only: quote_ready_found)
  then show ?thesis unfolding pg_abs_rollback_idle [OF True] by (simp only: simp_thms) metis
next
  case False
  with assms have own: "own_quotes r = [k]" "st_quotes (pg_abs K r) k = Some (p, pg_kept K rate)"
    "\<And>l x. st_quotes (pg_abs K r) l = Some x \<Longrightarrow> same_quote p (pg_kept K rate) x \<Longrightarrow> l = k"
    unfolding quote_ready_added [OF False] by blast+
  have C: "st_quotes (pg_abs K (rollback r)) = (st_quotes (pg_abs K r))(k := None)"
    by (auto simp: pg_abs_rollback_quotes own(1) simp del: pg_abs_sel)
  have "\<not> (\<exists>l x. st_quotes (pg_abs K (rollback r)) l = Some x \<and> same_quote p (pg_kept K rate) x)"
    unfolding C using own(3) by (auto simp del: pg_abs_sel split: if_splits)
  moreover have "st_quotes (pg_abs K r) = ((st_quotes (pg_abs K r))(k := None))(k \<mapsto> (p, pg_kept K rate))"
    using own(2) by (auto simp del: pg_abs_sel)
  ultimately show ?thesis unfolding C by (simp del: pg_abs_sel)
qed

text \<open>The guarded update, which locks the row it writes.\<close>

lemma sql_update_effect:
  fixes K :: "'d::zero pg_env"
  assumes tables: "pg_tables r" and own: "own_ok r" "own_updates r = []"
    and run: "sql_update_in_progress i f check r = (x, r')"
    and f: "\<And>c. update_ok c \<Longrightarrow> c_status c = StatusInProgress \<Longrightarrow> update_ok (f c)"
  shows "(r' = r \<and> (x = Ok 0 \<or> (\<exists>e. x = Err e)))
    \<or> (x = Ok 1 \<and> row_ready i f r' \<and> pg_tables r' \<and> own_ok r' \<and> tbl_quotes r' = tbl_quotes r
         \<and> own_quotes r' = own_quotes r \<and> pg_abs K (rollback r') = pg_abs K (rollback r))"
proof (cases "map_of (tbl_updates r) i")
  case None
  with run show ?thesis by (simp add: sql_update_in_progress_def)
next
  case (Some c)
  show ?thesis
  proof (cases "c_status c = StatusInProgress \<and> check r = None")
    case False
    with run Some show ?thesis by (auto simp: sql_update_in_progress_def split: option.splits if_splits)
  next
    case True
    with run Some own(2) have r': "x = Ok 1"
      "r' = r\<lparr>tbl_updates := AList.update i (f c) (tbl_updates r), own_updates := [(i, c)]\<rparr>"
      by (auto simp: sql_update_in_progress_def)
    have c: "update_ok c" using tables Some by (auto simp: pg_tables_def)
    then have "pg_tables r'"
      using tables f True by (auto simp: r' pg_tables_def map_of_update distinct_update)
    moreover have "own_ok r'" using c own(1) by (simp add: own_ok_def r' map_of_update)
    moreover have "row_ready i f r'" using True by (simp add: row_ready_def r' map_of_update)
    moreover have "st_rows (pg_abs K (rollback r')) = st_rows (pg_abs K r)"
      using pg_abs_rollback_rows(2) [of r' i c K] Some by (auto simp: r' map_of_update simp del: pg_abs_sel simp: pg_abs_def)
    moreover have "st_quotes (pg_abs K (rollback r')) = st_quotes (pg_abs K (rollback r))"
      unfolding pg_abs_rollback_quotes pg_abs_sel by (simp add: r' cong: if_cong)
    ultimately show ?thesis using r' pg_abs_rollback_rows(1) [OF own(2), of K] by simp
  qed
qed

text \<open>The insert that keeps the journal free of duplicates.\<close>

lemma sql_insert_quote_effect:
  fixes K :: "'d::zero pg_env"
  assumes inv: "pg_inv r" and p: "pair_ok p" and run: "sql_insert_quote K p rate r = (x, r')"
  shows "pg_tables r' \<and> own_ok r' \<and> own_updates r' = [] \<and> pg_abs K (rollback r') = pg_abs K r
    \<and> (case x of Ok (Some k) \<Rightarrow> quote_ready K p rate k r'
        | Ok None \<Rightarrow> own_quotes r' = [] \<and> (\<exists>l x. st_quotes (pg_abs K r') l = Some x \<and> same_quote p (pg_kept K rate) x)
        | Err e \<Rightarrow> False | Panic \<Rightarrow> False)"
proof -
  let ?dup = "list_ex (\<lambda>kj. quote_matches K p rate (snd kj)) (tbl_quotes r)"
  define k where "k = seq_quotes r + 1"
  define j where "j = \<lparr>j_base = base p, j_quote = quote p, j_rate = num_text K (Value rate),
    j_provider = Provider rate, j_quality = Quality rate, j_derived = Derived rate,
    j_indicative = Indicative rate, j_quoted_at = keep_time K (QuotedAt rate),
    j_fetched_at = keep_time K (FetchedAt rate), j_stale_after = keep_time K (StaleAfter rate)\<rparr>"
  have d: "distinct (map fst (tbl_quotes r))" and own: "own_updates r = []" "own_quotes r = []" and range:
    "\<And>l j. map_of (tbl_quotes r) l = Some j \<Longrightarrow> 0 < l \<and> l \<le> seq_quotes r \<and> pair_ok (pg_pair j)" "0 \<le> seq_quotes r"
    using inv by (auto simp: pg_inv_def pg_tables_def)
  have j: "pg_pair j = p" "pg_rate K j = pg_kept K rate"
    by (simp_all add: pg_pair_def j_def pg_rate_def pg_kept_def)
  have dup: "?dup \<longleftrightarrow> (\<exists>l x. st_quotes (pg_abs K r) l = Some x \<and> same_quote p (pg_kept K rate) x)"
  proof -
    have "?dup \<longleftrightarrow> (\<exists>l x. map_of (tbl_quotes r) l = Some x \<and> quote_matches K p rate x)"
      using d by (simp add: list_ex_iff Bex_def)
    also have "\<dots> \<longleftrightarrow> (\<exists>l x. st_quotes (pg_abs K r) l = Some x \<and> same_quote p (pg_kept K rate) x)"
      using quote_matches_same [OF _ p] range(1) unfolding pg_abs_sel map_option_eq_Some by metis
    finally show ?thesis .
  qed
  have new: "map_of (tbl_quotes r) k = None"
    using range(1) [of k] by (cases "map_of (tbl_quotes r) k") (auto simp: k_def)
  show ?thesis
  proof (cases ?dup)
    case True
    with run pair_columns [OF p] have x: "x = Ok None" "r' = r\<lparr>seq_quotes := k\<rparr>"
      by (auto simp: sql_insert_quote_def k_def Let_def)
    have "pg_inv r'"
      using inv range by (force simp: x(2) pg_inv_def pg_tables_def k_def simp del: map_of_eq_Some_iff)
    with True dup x own show ?thesis by (simp add: pg_inv_def own_ok_def rollback_idle del: pg_abs_sel)
  next
    case False
    with run pair_columns [OF p] own have x: "x = Ok (Some k)"
      and r': "r' = r\<lparr>seq_quotes := k, tbl_quotes := (k, j) # tbl_quotes r, own_quotes := [k]\<rparr>"
      by (auto simp: sql_insert_quote_def k_def j_def Let_def)
    have "k \<notin> fst ` set (tbl_quotes r)" using new by (simp add: map_of_eq_None_iff)
    moreover have "0 < l \<and> l \<le> k \<and> pair_ok (pg_pair x)" if "map_of ((k, j) # tbl_quotes r) l = Some x" for l x
      using that range(1) [of l x] range(2) j(1) p by (cases "l = k") (auto simp: k_def)
    ultimately have "pg_tables r'" using inv range(2) by (simp add: r' pg_inv_def pg_tables_def) (simp add: k_def)
    moreover have "own_ok r'" "own_updates r' = []" using own by (simp_all add: own_ok_def r')
    moreover have "pg_abs K (rollback r') = pg_abs K r"
    proof -
      have "filter (\<lambda>(l, x). l \<noteq> k) (tbl_quotes r) = tbl_quotes r"
        using \<open>k \<notin> _\<close> by (force simp: filter_id_conv)
      then show ?thesis using own by (simp add: rollback_def end_tx_def pg_abs_def r')
    qed
    moreover have "quote_ready K p rate k r'"
    proof -
      have q: "st_quotes (pg_abs K r') = (st_quotes (pg_abs K r))(k \<mapsto> (p, pg_kept K rate))"
        by (auto simp: r' pg_abs_def j)
      have "own_quotes r' \<noteq> []" "own_quotes r' = [k]" by (simp_all add: r')
      with False dup range(2) show ?thesis unfolding quote_ready_added [OF \<open>own_quotes r' \<noteq> []\<close>] q
        by (auto simp: k_def simp del: pg_abs_sel split: if_splits)
    qed
    ultimately show ?thesis using x by simp
  qed
qed

text \<open>The \<open>SELECT\<close> finds an entry that is there.\<close>

lemma quote_found:
  assumes inv: "pg_inv r" and p: "pair_ok p"
    and l: "st_quotes (pg_abs K r) l = Some x" "same_quote p (pg_kept K rate) x"
  obtains k where "map_option fst (List.find (\<lambda>kj. quote_matches K p rate (snd kj)) (tbl_quotes r)) = Some k"
    "quote_ready K p rate k r"
proof -
  let ?find = "List.find (\<lambda>kj. quote_matches K p rate (snd kj)) (tbl_quotes r)"
  have d: "distinct (map fst (tbl_quotes r))" and own: "own_quotes r = []" and ok:
    "\<And>l j. map_of (tbl_quotes r) l = Some j \<Longrightarrow> 0 < l \<and> pair_ok (pg_pair j)"
    using inv by (auto simp: pg_inv_def pg_tables_def)
  from l(1) obtain j where j: "map_of (tbl_quotes r) l = Some j" "x = (pg_pair j, pg_rate K j)" by auto
  with l(2) ok [OF j(1)] have "quote_matches K p rate j" by (simp add: quote_matches_same p)
  with j(1) have "?find \<noteq> None" by (auto simp: find_None_iff dest: map_of_SomeD)
  then obtain k z where f: "?find = Some (k, z)" by auto
  then obtain n where "n < length (tbl_quotes r)" "quote_matches K p rate (snd (tbl_quotes r ! n))"
    "(k, z) = tbl_quotes r ! n" unfolding find_Some_iff by blast
  then have "(k, z) \<in> set (tbl_quotes r)" and m: "quote_matches K p rate z" by (metis nth_mem, metis snd_conv)
  with d have k: "map_of (tbl_quotes r) k = Some z" by simp
  with ok [OF k] m have "quote_ready K p rate k r"
    unfolding quote_ready_found [OF own] by (simp add: quote_matches_same p)
  with f that show thesis by simp
qed

lemma transition_refused_wrap [simp]:
  "transition_refused S i (Err (ErrWrap s e)) S' \<longleftrightarrow> transition_refused S i (Err e) S'"
  by (auto simp: transition_refused_def split: option.split)

lemma wrap_go_simps [simp]:
  "wrap_go s (Ok v, r) = (Ok v, r)" "wrap_go s (Err e, r) = (Err (ErrWrap s e), r)"
  "wrap_go s (Panic, r) = (Panic, r)"
  by (simp_all add: wrap_go_def)

section \<open>One moment\<close>

text \<open>The transaction of \<open>CompleteSuccess\<close>.\<close>

abbreviation success_body ::
  "interference \<Rightarrow> 'd pg_env \<Rightarrow> uuid \<Rightarrow> CurrencyPair \<Rightarrow> 'd CurrencyRate \<Rightarrow> gotime \<Rightarrow> PgRepo \<Rightarrow> unit go \<times> PgRepo" where
  "success_body I K i pair rate now \<equiv>
     (\<lambda>r. case wrap_go ''postgres: complete success: upsert quote'' (upsertQuote I K pair rate r) of
              (Ok quoteID, r1) \<Rightarrow>
                wrap_go ''postgres: complete success'' (completeSuccessTx I K i quoteID False now r1)
            | (Err e, r1) \<Rightarrow> (Err e, r1)
            | (Panic, r1) \<Rightarrow> (Panic, r1))"

lemma pg_CompleteSuccess_tx:
  "pg_CompleteSuccess I K r i pair rate now = in_tx I K ''postgres: complete success'' (success_body I K i pair rate now) r"
  by (simp add: pg_CompleteSuccess_def)

text \<open>What is committed when the last statement of a transaction is executed: without its own writes, with what
  others have committed by then.\<close>

definition tx_moment :: "interference \<Rightarrow> 'd pg_env \<Rightarrow> (PgRepo \<Rightarrow> unit go \<times> PgRepo) \<Rightarrow> PgRepo \<Rightarrow> PgRepo" where
  "tx_moment I K body r =
     (case round_trip I K (\<lambda>r. (Ok (), r)) r of
        (Ok _, r1) \<Rightarrow> (case body r1 of
            (Ok _, r2) \<Rightarrow> rollback (stmt_state I r2)
          | (_, r2) \<Rightarrow> rollback r2)
      | (_, r1) \<Rightarrow> r1)"

locale tx_env =
  fixes Q :: "'d::zero store \<Rightarrow> 'd store \<Rightarrow> bool" and K :: "'d pg_env" and I :: interference
  assumes Q_dom: "Q S T \<Longrightarrow> Q T T" and Q_trans: "Q S T \<Longrightarrow> Q T U \<Longrightarrow> Q S U" and isolation: "isolated Q K I"
begin

lemma stmt_reached:
  assumes "reached Q K S r"
  shows "reached Q K S (stmt_state I r)" "respects_locks K r (stmt_state I r)"
proof -
  let ?r = "I (round_trips r) r"
  have r: "pg_tables r" "own_ok r" "Q S (pg_abs K (rollback r))" using assms by (simp_all add: reached_def)
  then have iso: "pg_tables ?r" "respects_locks K r ?r" "Q (pg_abs K (rollback r)) (pg_abs K (rollback ?r))"
    using isolation Q_dom [OF r(3)] by (simp_all add: isolated_def)
  show "respects_locks K r (stmt_state I r)" using iso(2) by (simp add: stmt_state_def)
  have "own_ok ?r" using iso(2) r(2) own_ok_respects by blast
  with iso(1) Q_trans [OF r(3) iso(3)] show "reached Q K S (stmt_state I r)"
    by (simp add: reached_def stmt_state_def)
qed

lemma stmt_inv:
  assumes "pg_inv r" "Q S (pg_abs K r)"
  shows "pg_inv (stmt_state I r)" "Q S (pg_abs K (stmt_state I r))"
proof -
  from assms have "reached Q K S r" by (simp add: reached_idle)
  from stmt_reached [OF this] assms show "pg_inv (stmt_state I r)"
    by (auto simp: reached_def pg_inv_def respects_locks_def)
  with \<open>reached Q K S r\<close> stmt_reached(1) show "Q S (pg_abs K (stmt_state I r))"
    by (metis reached_idle)
qed

text \<open>
  A transaction whose body, at its end, is ready to commit whatever others do in between, and whose writes are
  then one step of \<open>spec\<close> from what is committed at that moment, is that step, or fails and leaves what is
  committed alone, or loses the reply.
\<close>

lemma in_tx_moment_at:
  assumes inv: "pg_inv r" and start: "Q (pg_abs K r) (pg_abs K r)" and run: "in_tx I K what body r = (res, r')"
    and body: "\<And>r1 x r2. pg_inv r1 \<Longrightarrow> Q (pg_abs K r) (pg_abs K r1) \<Longrightarrow> body r1 = (x, r2) \<Longrightarrow>
      reached Q K (pg_abs K r) r2 \<and>
      (case x of Ok _ \<Rightarrow> ready r2
         | Err e \<Rightarrow> infra e \<or> spec (pg_abs K (rollback r2)) (Err e) (pg_abs K (rollback r2)) | Panic \<Rightarrow> False)"
    and stable: "\<And>r1 r2. ready r1 \<Longrightarrow> respects_locks K r1 r2 \<Longrightarrow> ready r2"
    and commit: "\<And>r1. ready r1 \<Longrightarrow> pg_tables r1 \<Longrightarrow> own_ok r1 \<Longrightarrow> spec (pg_abs K (rollback r1)) (Ok ()) (pg_abs K r1)"
  shows "Q (pg_abs K r) (pg_abs K (tx_moment I K body r))
    \<and> pg_outcome K (spec (pg_abs K (tx_moment I K body r))) (tx_moment I K body r) res r'"
proof -
  let ?nop = "\<lambda>r. (Ok () :: (pg_error, unit) gores, r :: PgRepo)"
  obtain x1 r1 where b: "round_trip I K ?nop r = (x1, r1)" by fastforce
  then have r1: "r1 = stmt_state I r" "x1 = Ok () \<or> (\<exists>m. x1 = Err (Failure m))"
    by (auto elim: round_trip_split)
  with stmt_inv [OF inv start] have inv1: "pg_inv r1" "Q (pg_abs K r) (pg_abs K r1)" by simp_all
  show ?thesis
  proof (cases "x1 = Ok ()")
    case False
    with r1 obtain m where m: "x1 = Err (Failure m)" by auto
    with run b have "res = Err (ErrWrap (what @ '': begin'') (ErrOther m))" "r' = r1" by (simp_all add: in_tx_def)
    moreover have "tx_moment I K body r = r1" using b m by (simp add: tx_moment_def)
    ultimately show ?thesis using inv1 by (auto intro: pg_outcome_fault)
  next
    case True
    obtain x r2 where c: "body r1 = (x, r2)" by fastforce
    note B = body [OF inv1 c]
    then have reach: "reached Q K (pg_abs K r) r2" by blast
    then have inv2: "pg_inv (rollback r2)" "Q (pg_abs K r) (pg_abs K (rollback r2))"
      by (simp_all add: reached_def pg_inv_rollback)
    show ?thesis
    proof (cases x)
      case Panic
      with B show ?thesis by simp
    next
      case (Err e)
      with run b True c have "res = Err e" "r' = rollback r2" by (simp_all add: in_tx_def)
      moreover have "tx_moment I K body r = rollback r2" using b True c Err by (simp add: tx_moment_def)
      ultimately show ?thesis using B Err inv2 by (auto simp: pg_outcome_def fault_def)
    next
      case (Ok u)
      let ?V = "stmt_state I r2" and ?commit = "\<lambda>r. (Ok () :: (pg_error, unit) gores, end_tx r)"
      note V = stmt_reached [OF reach]
      with B Ok stable have ready: "ready ?V" by auto
      from V have tables: "pg_tables ?V" "own_ok ?V" and Q: "Q (pg_abs K r) (pg_abs K (rollback ?V))"
        by (simp_all add: reached_def)
      note spec = commit [OF ready tables]
      have C: "pg_inv (rollback ?V)" by (rule pg_inv_rollback [OF tables])
      have e: "rollback (end_tx ?V) = end_tx ?V" using tables by simp
      obtain x3 r3 where d: "round_trip I K ?commit r2 = (x3, r3)" by fastforce
      then have "pg_outcome K (spec (pg_abs K (rollback ?V))) (rollback ?V) res r'"
      proof (cases rule: round_trip_split)
        case sent
        with run b True c Ok d have "res = Ok ()" "r' = end_tx ?V" by (auto simp: in_tx_def)
        with spec tables show ?thesis by (auto intro: pg_outcome_spec)
      next
        case (failed m)
        with run b True c Ok d have "res = Err (ErrWrap (what @ '': commit'') (ErrOther m))" "r' = rollback ?V"
          by (auto simp: in_tx_def)
        with C show ?thesis by (auto intro: pg_outcome_fault)
      next
        case (lost m y)
        with run b True c Ok d e have res: "res = Err (ErrWrap (what @ '': commit'') (ErrOther m))" "r' = end_tx ?V"
          by (auto simp: in_tx_def)
        from lost(2) spec tables show ?thesis unfolding res by (intro pg_outcome_lost [where x = "()"]) auto
      qed
      moreover have "tx_moment I K body r = rollback ?V" using b True c Ok by (simp add: tx_moment_def)
      ultimately show ?thesis using Q by simp
    qed
  qed
qed

lemma in_tx_moment:
  assumes inv: "pg_inv r" and start: "Q (pg_abs K r) (pg_abs K r)" and run: "in_tx I K what body r = (res, r')"
    and body: "\<And>r1 x r2. pg_inv r1 \<Longrightarrow> Q (pg_abs K r) (pg_abs K r1) \<Longrightarrow> body r1 = (x, r2) \<Longrightarrow>
      reached Q K (pg_abs K r) r2 \<and>
      (case x of Ok _ \<Rightarrow> ready r2
         | Err e \<Rightarrow> infra e \<or> spec (pg_abs K (rollback r2)) (Err e) (pg_abs K (rollback r2)) | Panic \<Rightarrow> False)"
    and stable: "\<And>r1 r2. ready r1 \<Longrightarrow> respects_locks K r1 r2 \<Longrightarrow> ready r2"
    and commit: "\<And>r1. ready r1 \<Longrightarrow> pg_tables r1 \<Longrightarrow> own_ok r1 \<Longrightarrow> spec (pg_abs K (rollback r1)) (Ok ()) (pg_abs K r1)"
  shows "\<exists>C. Q (pg_abs K r) (pg_abs K C) \<and> pg_outcome K (spec (pg_abs K C)) C res r'"
  by (intro exI)
    (rule in_tx_moment_at [where spec = spec and ready = ready and body = body, OF inv start run],
      erule (2) body, erule (1) stable, erule (2) commit)

text \<open>Why an update matched no row: the answer is true of the moment the status is read.\<close>

lemma diagnose_run:
  assumes reach: "reached Q K S r" and own: "own_updates r = []"
    and run: "diagnoseTransitionFailure I K i next r = (e, r')"
    and nx: "next \<in> {StatusSucceeded, StatusFailed, StatusPending}"
  shows "reached Q K S r'
    \<and> (infra e \<or> transition_refused (pg_abs K (rollback r')) i (Err e) (pg_abs K (rollback r')))"
proof -
  let ?f = "\<lambda>r. (Ok (map_of (tbl_updates r) i) :: (pg_error, pg_update option) gores, r)" and ?V = "stmt_state I r"
  note V = stmt_reached [OF reach]
  then have "own_updates ?V = []" using own by (simp add: respects_locks_own)
  note rows = pg_abs_rollback_rows(1) [OF this, of K]
  obtain x r1 where x: "round_trip I K ?f r = (x, r1)" by fastforce
  then have r1: "r1 = ?V" "x = Ok (map_of (tbl_updates ?V) i) \<or> (\<exists>m. x = Err (Failure m))"
    by (auto elim: round_trip_split)
  have "infra e \<or> transition_refused (pg_abs K (rollback ?V)) i (Err e) (pg_abs K (rollback ?V))"
    if x': "x = Ok (map_of (tbl_updates ?V) i)"
  proof (cases "map_of (tbl_updates ?V) i")
    case None
    with run x x' r1 show ?thesis
      by (auto simp: diagnoseTransitionFailure_def transition_refused_def rows errors_Is.simps simp del: pg_abs_sel)
        (simp_all add: None)
  next
    case (Some c)
    have no: "\<not> CanTransitionTo (c_status c) next" if "c_status c \<noteq> StatusInProgress"
      using that nx by (cases "c_status c") (auto simp: CanTransitionTo_def)
    have q: "st_rows (pg_abs K ?V) i = Some (pg_row i c)" by (simp add: Some)
    show ?thesis
    proof (cases "c_status c = StatusInProgress")
      case True
      with run x x' Some nx show ?thesis
        by (auto simp: diagnoseTransitionFailure_def CanTransitionTo_def infra_def)
    next
      case False
      with run x x' Some no have "e = ErrInvalidTransition (c_status c) next"
        by (auto simp: diagnoseTransitionFailure_def)
      with False q show ?thesis unfolding transition_refused_def rows by (auto simp del: pg_abs_sel)
    qed
  qed
  moreover have "r' = r1" "(\<exists>m. x = Err (Failure m)) \<Longrightarrow> infra e"
    using run x by (auto simp: diagnoseTransitionFailure_def split: gores.splits option.splits)
  ultimately show ?thesis using r1 V(1) by auto
qed

text \<open>
  An update inside a transaction: the row is written and locked, or it failed for want of a connection, or the
  row is not in progress and the error says so. What else the transaction has ready stays ready.
\<close>

lemma closing_run:
  assumes reach: "reached Q K S r" and own: "own_updates r = []" and P: "P r"
    and run: "(case round_trip I K (sql_update_in_progress i f check) r of
        (Err e, r1) \<Rightarrow> (Err (ErrWrap s (pg_text e)), r1)
      | (Panic, r1) \<Rightarrow> (Panic, r1)
      | (Ok affected, r1) \<Rightarrow>
          if affected = 0 then (let (e, r2) = diagnoseTransitionFailure I K i next r1 in (Err (g e), r2))
          else (Ok (), r1)) = (res, r')"
    and f: "\<And>c. update_ok c \<Longrightarrow> c_status c = StatusInProgress \<Longrightarrow> update_ok (f c)"
    and nx: "next \<in> {StatusSucceeded, StatusFailed, StatusPending}"
    and stable: "\<And>r1 r2. P r1 \<Longrightarrow> respects_locks K r1 r2 \<Longrightarrow> P r2"
    and same: "\<And>r1 r2. P r1 \<Longrightarrow> tbl_quotes r2 = tbl_quotes r1 \<Longrightarrow> own_quotes r2 = own_quotes r1 \<Longrightarrow> P r2"
    and g: "\<And>e. infra (g e) = infra e"
      "\<And>S e. transition_refused S i (Err (g e)) S = transition_refused (S :: 'd store) i (Err e) S"
  shows "reached Q K S r' \<and>
    (case res of Ok _ \<Rightarrow> row_ready i f r' \<and> P r'
       | Err e \<Rightarrow> infra e \<or> transition_refused (pg_abs K (rollback r')) i (Err e) (pg_abs K (rollback r'))
       | Panic \<Rightarrow> False)"
proof -
  let ?V = "stmt_state I r"
  note V = stmt_reached [OF reach]
  then have tables: "pg_tables ?V" "own_ok ?V" "own_updates ?V = []" "P ?V"
    using own stable [OF P V(2)] by (simp_all add: reached_def respects_locks_own)
  note sql = sql_update_effect [OF tables(1-3), of i f check, OF _ f, where K = K]
  have after: "reached Q K S r1" if "sql_update_in_progress i f check ?V = (y, r1)" for y r1
    using sql [OF that] V(1) unfolding reached_def by metis
  obtain x r1 where x: "round_trip I K (sql_update_in_progress i f check) r = (x, r1)" by fastforce
  then show ?thesis
  proof (cases rule: round_trip_split)
    case sent
    note after = after [OF sent]
    from sql [OF sent] consider (none) "r1 = ?V" "x = Ok 0" | (error) e where "x = Err e"
      | (one) "x = Ok 1" "row_ready i f r1" "P r1"
      using same tables(4) by blast
    then show ?thesis
    proof cases
      case none
      obtain e r2 where e: "diagnoseTransitionFailure I K i next r1 = (e, r2)" by fastforce
      with run x none have "res = Err (g e)" "r' = r2" by (auto simp: Let_def)
      with diagnose_run [OF after _ e nx] none tables(3) g show ?thesis by auto
    next
      case error
      with run x after show ?thesis by auto
    next
      case one
      with run x after show ?thesis by auto
    qed
  next
    case (failed m)
    with run x V(1) show ?thesis by auto
  next
    case (lost m y)
    with run x after [OF lost(4)] show ?thesis by auto
  qed
qed

lemma completeSuccessTx_run:
  assumes "reached Q K S r" "own_updates r = []" "P r" "completeSuccessTx I K i qid reused now r = (res, r')"
    and "\<And>r1 r2. P r1 \<Longrightarrow> respects_locks K r1 r2 \<Longrightarrow> P r2"
    and "\<And>r1 r2. P r1 \<Longrightarrow> tbl_quotes r2 = tbl_quotes r1 \<Longrightarrow> own_quotes r2 = own_quotes r1 \<Longrightarrow> P r2"
  shows "reached Q K S r' \<and>
    (case res of Ok _ \<Rightarrow> row_ready i (success_columns K qid reused now) r' \<and> P r'
       | Err e \<Rightarrow> infra e \<or> transition_refused (pg_abs K (rollback r')) i (Err e) (pg_abs K (rollback r'))
       | Panic \<Rightarrow> False)"
  by (rule closing_run [where g = "\<lambda>e. e" and P = P, OF assms(1-3) assms(4) [unfolded completeSuccessTx_def]])
    ((rule assms(5,6); assumption) | simp add: update_ok_def success_columns_def)+

text \<open>Whoever added the quote first, the transaction has its identifier, and it stays in the journal.\<close>

lemma upsertQuote_run:
  assumes inv: "pg_inv r" and S: "Q S (pg_abs K r)" and p: "pair_ok p" and run: "upsertQuote I K p rate r = (res, r')"
  shows "reached Q K S r' \<and> own_updates r' = [] \<and>
    (case res of Ok k \<Rightarrow> quote_ready K p rate k r' | Err e \<Rightarrow> infra e \<and> (\<exists>n. failing K n \<noteq> None) | Panic \<Rightarrow> False)"
proof -
  let ?V = "stmt_state I r"
  have V: "pg_inv ?V" "Q S (pg_abs K ?V)" using stmt_inv [OF inv S] by blast+
  note sql = sql_insert_quote_effect [OF V(1) p, where rate = rate and K = K]
  have after: "reached Q K S r1" "own_updates r1 = []" if "sql_insert_quote K p rate ?V = (y, r1)" for y r1
    using sql [OF that] V(2) by (auto simp: reached_def)
  obtain x r1 where x: "round_trip I K (sql_insert_quote K p rate) r = (x, r1)" by fastforce
  then show ?thesis
  proof (cases rule: round_trip_split)
    case (failed m)
    with run x have "res = Err (ErrOther m)" "r' = ?V" by (auto simp: upsertQuote_def)
    with V failed(1) show ?thesis by (simp add: reached_idle) (auto simp: pg_inv_def)
  next
    case (lost m y)
    with run x have "res = Err (ErrOther m)" "r' = r1" by (auto simp: upsertQuote_def)
    with after [OF lost(4)] lost(1) show ?thesis by auto
  next
    case sent
    note E = sql [OF sent] and after = after [OF sent]
    from E consider (new) k where "x = Ok (Some k)" "quote_ready K p rate k r1"
      | (found) l z where "x = Ok None" "own_quotes r1 = []" "st_quotes (pg_abs K r1) l = Some z"
          "same_quote p (pg_kept K rate) z"
      by (cases x) (auto split: option.splits)
    then show ?thesis
    proof cases
      case new
      with run x after show ?thesis by (auto simp: upsertQuote_def)
    next
      case found
      let ?f = "\<lambda>r. map_option fst (List.find (\<lambda>kj. quote_matches K p rate (snd kj)) (tbl_quotes r))"
      let ?W = "stmt_state I r1"
      have sf: "sql_find_quote K p rate = (\<lambda>r. (Ok (?f r), r))" by (rule ext) (simp add: sql_find_quote_def)
      obtain y r2 where y: "round_trip I K (\<lambda>r. (Ok (?f r), r)) r1 = (y, r2)" by fastforce
      then have r2: "r2 = ?W \<and> (y = Ok (?f ?W) \<or> (\<exists>m n. y = Err (Failure m) \<and> failing K n \<noteq> None))"
        by (cases rule: round_trip_split) blast+
      have "pg_inv r1" using after found(2) by (simp add: reached_def pg_inv_def)
      moreover from this after(1) have "Q S (pg_abs K r1)" by (simp add: reached_idle)
      ultimately have W: "pg_inv ?W" by (rule stmt_inv)
      note reach = stmt_reached [OF after(1)]
      have own: "own_quotes ?W = []" "own_updates ?W = []" using W by (simp_all add: pg_inv_def)
      show ?thesis
      proof (cases "y = Ok (?f ?W)")
        case False
        with r2 obtain m n where m: "y = Err (Failure m)" "failing K n \<noteq> None" by auto
        with run x found(1) y r2 have "r' = ?W"
          "res = Err (ErrWrap ''read row that won the insert race'' (ErrOther m))" by (auto simp: upsertQuote_def sf)
        with reach own m(2) show ?thesis by (simp only: gores.case infra_simps) blast
      next
        case True
        have "quote_ready K p rate l r1" unfolding quote_ready_found [OF found(2)]
          using found(3,4) after(1) by (auto simp: reached_def pg_tables_def simp del: map_of_eq_Some_iff)
        from quote_ready_stable [OF this reach(2)] obtain z where "st_quotes (pg_abs K ?W) l = Some z"
          "same_quote p (pg_kept K rate) z" unfolding quote_ready_found [OF own(1)] by blast
        with quote_found [OF W p this] obtain k where "?f ?W = Some k" "quote_ready K p rate k ?W" by blast
        with True run x found(1) y r2 reach own show ?thesis by (auto simp: upsertQuote_def sf)
      qed
    qed
  qed
qed

text \<open>The three methods.\<close>

lemma success_moment_at:
  assumes inv: "pg_inv r" and start: "Q (pg_abs K r) (pg_abs K r)" and p: "pair_ok p"
    and run: "pg_CompleteSuccess I K r i p rate now = (res, r')"
  shows "Q (pg_abs K r) (pg_abs K (tx_moment I K (success_body I K i p rate now) r))
    \<and> pg_outcome K (success_spec (keep_time K) (pg_kept K) (pg_abs K (tx_moment I K (success_body I K i p rate now) r)) i p rate now)
        (tx_moment I K (success_body I K i p rate now) r) res r'"
  using inv start run [unfolded pg_CompleteSuccess_tx]
proof (rule in_tx_moment_at [where spec = "\<lambda>S. success_spec (keep_time K) (pg_kept K) S i p rate now"
      and ready = "\<lambda>r. \<exists>k. row_ready i (success_columns K k False now) r \<and> quote_ready K p rate k r"], goal_cases)
  case (1 r1 x r2)
  obtain u ra where u: "upsertQuote I K p rate r1 = (u, ra)" by fastforce
  note U = upsertQuote_run [OF 1(1,2) p u]
  show ?case
  proof (cases u)
    case Panic
    with U show ?thesis by simp
  next
    case (Err e)
    with 1(3) u U show ?thesis by auto
  next
    case (Ok k)
    obtain v rb where v: "completeSuccessTx I K i k False now ra = (v, rb)" by fastforce
    from U Ok have ra: "reached Q K (pg_abs K r) ra" "own_updates ra = []" "quote_ready K p rate k ra" by simp_all
    have T: "reached Q K (pg_abs K r) rb \<and>
        (case v of Ok _ \<Rightarrow> row_ready i (success_columns K k False now) rb \<and> quote_ready K p rate k rb
           | Err e \<Rightarrow> infra e \<or> transition_refused (pg_abs K (rollback rb)) i (Err e) (pg_abs K (rollback rb))
           | Panic \<Rightarrow> False)"
      by (rule completeSuccessTx_run [where P = "quote_ready K p rate k", OF ra v])
        (blast intro: quote_ready_stable quote_ready_same)+
    from 1(3) u Ok v have x: "wrap_go ''postgres: complete success'' (v, rb) = (x, r2)" by simp
    from T x show ?thesis by (cases v) (auto simp: success_spec_def)
  qed
next
  case (2 r1 r2)
  then show ?case using row_ready_stable quote_ready_stable by blast
next
  case (3 r1)
  then obtain k where k: "row_ready i (success_columns K k False now) r1" "quote_ready K p rate k r1" by blast
  from row_ready_commit [OF k(1)] obtain c where c: "c_status c = StatusInProgress"
    "st_rows (pg_abs K (rollback r1)) i = Some (pg_row i c)"
    "st_rows (pg_abs K r1) = (st_rows (pg_abs K (rollback r1)))(i \<mapsto> succeeded_row (keep_time K now) k False (pg_row i c))"
    unfolding pg_row_steps(1) by blast
  have "0 < k" using k(2) by (simp add: quote_ready_def)
  with c quote_ready_commit [OF k(2)] show ?case
    unfolding success_spec_def by (intro disjI2 exI [of _ "pg_row i c"] exI [of _ k] conjI) simp_all
qed

lemma success_moment:
  assumes inv: "pg_inv r" and start: "Q (pg_abs K r) (pg_abs K r)" and p: "pair_ok p"
    and run: "pg_CompleteSuccess I K r i p rate now = (res, r')"
  shows "\<exists>C. Q (pg_abs K r) (pg_abs K C)
    \<and> pg_outcome K (success_spec (keep_time K) (pg_kept K) (pg_abs K C) i p rate now) C res r'"
  using success_moment_at [OF assms] by blast

text \<open>The two methods whose transaction is one guarded update.\<close>

lemma guarded_moment:
  assumes inv: "pg_inv r" and start: "Q (pg_abs K r) (pg_abs K r)" and run: "in_tx I K what body r = (res, r')"
    and body: "\<And>r1 x r2. reached Q K (pg_abs K r) r1 \<Longrightarrow> own_updates r1 = [] \<Longrightarrow> own_quotes r1 = []
      \<Longrightarrow> body r1 = (x, r2) \<Longrightarrow> reached Q K (pg_abs K r) r2 \<and>
        (case x of Ok _ \<Rightarrow> row_ready i f r2 \<and> own_quotes r2 = []
           | Err e \<Rightarrow> infra e \<or> transition_refused (pg_abs K (rollback r2)) i (Err e) (pg_abs K (rollback r2))
           | Panic \<Rightarrow> False)"
    and f: "\<And>c. pg_row i (f c) = h (pg_row i c)"
  shows "\<exists>C. Q (pg_abs K r) (pg_abs K C) \<and> pg_outcome K (\<lambda>res S'. transition_refused (pg_abs K C) i res S'
      \<or> (\<exists>q. st_rows (pg_abs K C) i = Some q \<and> Status (q_req q) = StatusInProgress \<and> res = Ok ()
           \<and> S' = (pg_abs K C)\<lparr>st_rows := (st_rows (pg_abs K C))(i \<mapsto> h q)\<rparr>)) C res r'"
  using inv start run
proof (rule in_tx_moment [where spec = "\<lambda>S res S'. transition_refused S i res S'
      \<or> (\<exists>q. st_rows S i = Some q \<and> Status (q_req q) = StatusInProgress \<and> res = Ok ()
           \<and> S' = S\<lparr>st_rows := (st_rows S)(i \<mapsto> h q)\<rparr>)"
      and ready = "\<lambda>r. row_ready i f r \<and> own_quotes r = []"], goal_cases)
  case (1 r1 x r2)
  then have "reached Q K (pg_abs K r) r1" by (simp add: reached_idle)
  moreover have "own_updates r1 = []" "own_quotes r1 = []" using 1(1) by (simp_all add: pg_inv_def)
  ultimately show ?case using body [OF _ _ _ 1(3)] by (auto split: gores.splits)
next
  case (2 r1 r2)
  then show ?case using row_ready_stable respects_locks_own(2) by metis
next
  case (3 r1)
  then have ready: "row_ready i f r1" "own_quotes r1 = []" by blast+
  from row_ready_commit [OF ready(1)] obtain c where c: "c_status c = StatusInProgress"
    "st_rows (pg_abs K (rollback r1)) i = Some (pg_row i c)"
    "st_rows (pg_abs K r1) = (st_rows (pg_abs K (rollback r1)))(i \<mapsto> h (pg_row i c))" unfolding f by blast
  moreover have "pg_abs K r1 = (pg_abs K (rollback r1))\<lparr>st_rows := st_rows (pg_abs K r1)\<rparr>"
    using pg_abs_rollback_idle [OF ready(2), of K] by simp
  ultimately show ?case by (intro disjI2 exI [of _ "pg_row i c"]) simp
qed

lemma reuse_moment:
  assumes inv: "pg_inv r" and start: "Q (pg_abs K r) (pg_abs K r)" and run: "pg_CompleteSuccessReuse I K r i qid now = (res, r')"
  shows "\<exists>C. Q (pg_abs K r) (pg_abs K C)
    \<and> pg_outcome K (reuse_spec (keep_time K) (pg_abs K C) i qid now) C res r'"
proof -
  have "reached Q K (pg_abs K r) r2 \<and>
      (case x of Ok _ \<Rightarrow> row_ready i (success_columns K qid True now) r2 \<and> own_quotes r2 = []
         | Err e \<Rightarrow> infra e \<or> transition_refused (pg_abs K (rollback r2)) i (Err e) (pg_abs K (rollback r2))
         | Panic \<Rightarrow> False)"
    if r1: "reached Q K (pg_abs K r) r1" "own_updates r1 = []" "own_quotes r1 = []"
      and w: "wrap_go ''postgres: complete success reuse'' (completeSuccessTx I K i qid True now r1) = (x, r2)" for r1 x r2
  proof -
    obtain v rb where v: "completeSuccessTx I K i qid True now r1 = (v, rb)" by fastforce
    have "reached Q K (pg_abs K r) rb \<and>
        (case v of Ok _ \<Rightarrow> row_ready i (success_columns K qid True now) rb \<and> own_quotes rb = []
           | Err e \<Rightarrow> infra e \<or> transition_refused (pg_abs K (rollback rb)) i (Err e) (pg_abs K (rollback rb))
           | Panic \<Rightarrow> False)"
      by (rule completeSuccessTx_run [where P = "\<lambda>r. own_quotes r = []", OF r1 v]) (erule (1) no_quotes_stable | simp)+
    with w v show ?thesis by (cases v) auto
  qed
  from guarded_moment [OF inv start run [unfolded pg_CompleteSuccessReuse_def] this pg_row_steps(1)]
  show ?thesis unfolding reuse_spec_def .
qed

lemma failure_moment:
  assumes inv: "pg_inv r" and start: "Q (pg_abs K r) (pg_abs K r)"
    and run: "pg_CompleteFailure I K r i code msg retryable nextAttempt now = (res, r')"
  shows "\<exists>C. Q (pg_abs K r) (pg_abs K C)
    \<and> pg_outcome K (failure_spec (keep_time K) (pg_abs K C) i code msg retryable nextAttempt now) C res r'"
proof -
  let ?st = "if retryable then StatusPending else StatusFailed"
  let ?f = "failure_columns K ?st code msg nextAttempt now"
  let ?body = "\<lambda>r. case round_trip I K (sql_update_in_progress i ?f (\<lambda>_. None)) r of
        (Err e, r1) \<Rightarrow> (Err (ErrWrap ''postgres: complete failure'' (pg_text e)), r1)
      | (Panic, r1) \<Rightarrow> (Panic, r1)
      | (Ok affected, r1) \<Rightarrow>
          if affected = 0
          then (let (e, r2) = diagnoseTransitionFailure I K i ?st r1
                in (Err (ErrWrap ''postgres: complete failure'' e), r2))
          else (Ok (), r1)"
  have "reached Q K (pg_abs K r) r2 \<and>
      (case x of Ok _ \<Rightarrow> row_ready i ?f r2 \<and> own_quotes r2 = []
         | Err e \<Rightarrow> infra e \<or> transition_refused (pg_abs K (rollback r2)) i (Err e) (pg_abs K (rollback r2))
         | Panic \<Rightarrow> False)"
    if r1: "reached Q K (pg_abs K r) r1" "own_updates r1 = []" "own_quotes r1 = []" and b: "?body r1 = (x, r2)" for r1 x r2
    using r1 b
  proof (rule closing_run [where P = "\<lambda>r. own_quotes r = []"], goal_cases)
    case (1 c)
    then show ?case by (simp add: update_ok_def failure_columns_def)
  next
    case (3 r1 r2)
    then show ?case by (rule no_quotes_stable)
  qed simp_all
  from guarded_moment [OF inv start run [unfolded pg_CompleteFailure_def Let_def] this [unfolded Let_def] pg_row_steps(2)]
  show ?thesis unfolding failure_spec_def .
qed

end

section \<open>Alone on the database\<close>

interpretation alone: tx_env "(=)" K quiet for K :: "'d::zero pg_env"
  by unfold_locales (simp_all add: isolated_quiet)

lemma pg_outcome_from:
  "\<exists>C. pg_abs K r = pg_abs K C \<and> pg_outcome K (spec (pg_abs K C)) C res r' \<Longrightarrow> pg_outcome K (spec (pg_abs K r)) r res r'"
  by (auto simp: pg_outcome_def)

lemma pg_success_outcome:
  fixes K :: "'d::zero pg_env"
  assumes "pg_inv r" "pair_ok p" "pg_CompleteSuccess quiet K r i p rate now = (res, r')"
  shows "pg_outcome K (success_spec (keep_time K) (pg_kept K) (pg_abs K r) i p rate now) r res r'"
  using alone.success_moment [OF assms(1) refl assms(2,3)]
  by (rule pg_outcome_from [where spec = "\<lambda>S. success_spec (keep_time K) (pg_kept K) S i p rate now"])

lemma pg_reuse_outcome:
  fixes K :: "'d::zero pg_env"
  assumes "pg_inv r" "pg_CompleteSuccessReuse quiet K r i qid now = (res, r')"
  shows "pg_outcome K (reuse_spec (keep_time K) (pg_abs K r) i qid now) r res r'"
  using alone.reuse_moment [OF assms(1) refl assms(2)]
  by (rule pg_outcome_from [where spec = "\<lambda>S. reuse_spec (keep_time K) S i qid now"])

lemma pg_failure_outcome:
  fixes K :: "'d::zero pg_env"
  assumes "pg_inv r" "pg_CompleteFailure quiet K r i code msg retryable nextAttempt now = (res, r')"
  shows "pg_outcome K (failure_spec (keep_time K) (pg_abs K r) i code msg retryable nextAttempt now) r res r'"
  using alone.failure_moment [OF assms(1) refl assms(2)]
  by (rule pg_outcome_from [where spec = "\<lambda>S. failure_spec (keep_time K) S i code msg retryable nextAttempt now"])

section \<open>Whole transactions in between\<close>

text \<open>
  \<open>g n\<close> is what other sessions would commit before the \<open>n\<close>-th statement, from what is committed by then. They
  wait, and commit nothing, if they would change a row this transaction has locked or add an entry it has
  added.
\<close>

definition blocked :: "PgRepo \<Rightarrow> PgRepo \<Rightarrow> bool" where
  "blocked r C \<longleftrightarrow> list_ex (\<lambda>(i, c). map_of (tbl_updates C) i \<noteq> Some c) (own_updates r)
     \<or> list_ex (\<lambda>(k, j). k \<in> set (own_quotes r) \<and> list_ex (\<lambda>(l, j'). l = k \<or> same_entry j j') (tbl_quotes C))
         (tbl_quotes r)"

text \<open>What this transaction sees of it: its own writes over what is committed. A sequence never goes back.\<close>

definition overlay :: "PgRepo \<Rightarrow> PgRepo \<Rightarrow> PgRepo" where
  "overlay r C = r\<lparr>
     tbl_updates := fold (\<lambda>(i, c). AList.update i (the (map_of (tbl_updates r) i))) (own_updates r) (tbl_updates C),
     tbl_quotes := filter (\<lambda>(k, j). k \<in> set (own_quotes r)) (tbl_quotes r) @ tbl_quotes C,
     seq_quotes := max (seq_quotes r) (seq_quotes C)\<rparr>"

definition among_others :: "interference \<Rightarrow> interference" where
  "among_others g n r = (let C = g n (rollback r) in if blocked r C then r else overlay r C)"

lemma map_of_filter_own: "map_of (filter (\<lambda>(k, j). k \<in> S) xs) k = (if k \<in> S then map_of xs k else None)"
  by (induction xs) auto

lemma distinct_overlay: "distinct (map fst xs) \<Longrightarrow> distinct (map fst (fold (\<lambda>(i, c). AList.update i (f i)) us xs))"
  by (induction us arbitrary: xs) (auto simp: distinct_update)

lemma map_of_overlay:
  "map_of (fold (\<lambda>(i, c). AList.update i (f i)) us xs) j = (if j \<in> fst ` set us then Some (f j) else map_of xs j)"
  by (induction us arbitrary: xs) (auto simp: map_of_update)

lemma map_of_restored:
  assumes "\<forall>(i, c) \<in> set us. m i = Some c" "\<And>j. j \<notin> fst ` set us \<Longrightarrow> map_of xs j = m j"
  shows "map_of (fold (\<lambda>(i, c). AList.update i c) us xs) = m"
  using assms
proof (induction us arbitrary: xs)
  case (Cons u us)
  obtain i c where u: "u = (i, c)" by (cases u)
  have "map_of (AList.update i c xs) j = m j" if "j \<notin> fst ` set us" for j
    using Cons.prems that by (auto simp: u map_of_update)
  with Cons show ?case by (simp add: u)
qed auto

lemma isolated_among_others:
  fixes K :: "'d::zero pg_env"
  assumes g: "\<And>n C. pg_inv C \<Longrightarrow> Q (pg_abs K C) (pg_abs K C) \<Longrightarrow> pg_inv (g n C) \<and> Q (pg_abs K C) (pg_abs K (g n C))"
    and grows: "\<And>S T. Q S T \<Longrightarrow> st_quotes S \<subseteq>\<^sub>m st_quotes T"
  shows "isolated Q K (among_others g)"
  unfolding isolated_def
proof (intro allI impI)
  fix n and r :: PgRepo
  assume r: "pg_tables r" "own_ok r" and Q: "Q (pg_abs K (rollback r)) (pg_abs K (rollback r))"
  let ?r = "among_others g n r"
  define C where "C = g n (rollback r)"
  have C: "pg_inv C" "Q (pg_abs K (rollback r)) (pg_abs K C)" using g [OF pg_inv_rollback [OF r] Q] by (simp_all add: C_def)
  show "pg_tables ?r \<and> respects_locks K r ?r \<and> Q (pg_abs K (rollback r)) (pg_abs K (rollback ?r))"
  proof (cases "blocked r C")
    case True
    then have "?r = r" by (simp add: among_others_def C_def Let_def)
    then show ?thesis using r Q by (simp add: respects_locks_def)
  next
    case False
    then have e: "?r = overlay r C" by (simp add: among_others_def C_def Let_def)
    let ?own = "filter (\<lambda>(k, j). k \<in> set (own_quotes r)) (tbl_quotes r)"
    let ?rows = "fold (\<lambda>(i, c). AList.update i (the (map_of (tbl_updates r) i))) (own_updates r) (tbl_updates C)"
    have sel: "tbl_updates (overlay r C) = ?rows" "tbl_quotes (overlay r C) = ?own @ tbl_quotes C"
      "own_updates (overlay r C) = own_updates r" "own_quotes (overlay r C) = own_quotes r"
      "seq_quotes (overlay r C) = max (seq_quotes r) (seq_quotes C)" by (simp_all add: overlay_def)
    have d: "distinct (map fst (tbl_quotes r))" "distinct (map fst (tbl_quotes C))" "distinct (map fst (tbl_updates C))"
      using r C by (simp_all add: pg_tables_def pg_inv_def)
    have free: "map_of (tbl_quotes C) k = None" "map_of (tbl_quotes C) l = Some j' \<Longrightarrow> \<not> same_entry j j'"
      if "k \<in> set (own_quotes r)" "map_of (tbl_quotes r) k = Some j" for k j l j'
    proof -
      have "(k, j) \<in> set (tbl_quotes r)" using that(2) by (rule map_of_SomeD)
      with False that(1) have no: "l \<noteq> k \<and> \<not> same_entry j j'" if "(l, j') \<in> set (tbl_quotes C)" for l j'
        using that by (fastforce simp: blocked_def list_ex_iff)
      then show "map_of (tbl_quotes C) k = None" by (force simp: map_of_eq_None_iff)
      show "\<not> same_entry j j'" if "map_of (tbl_quotes C) l = Some j'" using no map_of_SomeD [OF that] by blast
    qed
    have quotes: "map_of (?own @ tbl_quotes C) k = (if k \<in> set (own_quotes r) then map_of (tbl_quotes r) k else map_of (tbl_quotes C) k)" for k
      using r(2) free [of k] by (auto simp: map_of_filter_own map_add_def own_ok_def split: option.split)
    have rows: "map_of ?rows i = (if i \<in> fst ` set (own_updates r) then map_of (tbl_updates r) i else map_of (tbl_updates C) i)" for i
    proof -
      have "map_of (tbl_updates r) i \<noteq> None" if "i \<in> fst ` set (own_updates r)"
        using that r(2) by (force simp: own_ok_def)
      then show ?thesis unfolding map_of_overlay by auto
    qed
    have "distinct (map fst (?own @ tbl_quotes C))"
    proof -
      have "k \<notin> fst ` set (tbl_quotes C)" if "k \<in> fst ` set ?own" for k
      proof -
        from that obtain j where "k \<in> set (own_quotes r)" "(k, j) \<in> set (tbl_quotes r)" by auto
        with d(1) free(1) show ?thesis by (metis map_of_eq_None_iff map_of_eq_Some_iff)
      qed
      then show ?thesis using d by (auto simp: distinct_map_filter)
    qed
    then have "pg_tables (overlay r C)"
      using r(1) C(1) d unfolding pg_tables_def pg_inv_def sel rows quotes
      by (auto simp: distinct_overlay le_max_iff_disj simp del: map_of_eq_Some_iff split: if_splits)
    moreover have committed: "pg_abs K (rollback (overlay r C)) = pg_abs K C"
    proof -
      have "map_of (tbl_updates (rollback (overlay r C))) = map_of (tbl_updates C)"
        unfolding rollback_def end_tx_def using False
        by (simp add: sel) (rule map_of_restored, auto simp: rows blocked_def list_ex_iff)
      moreover have "map_of (tbl_quotes (rollback (overlay r C))) k = map_of (tbl_quotes C) k" for k
      proof -
        have "k \<in> set (own_quotes r) \<Longrightarrow> map_of (tbl_quotes C) k = None"
          using free(1) [of k] r(2) by (auto simp: own_ok_def)
        then show ?thesis unfolding rollback_def end_tx_def
          using quotes [of k] by (auto simp: sel map_of_filter_keys simp del: filter_append)
      qed
      ultimately show ?thesis by (simp add: pg_abs_def)
    qed
    moreover have "respects_locks K r (overlay r C)"
    proof -
      have "map_of (tbl_quotes r) l = Some j'"
        if "k \<in> set (own_quotes r)" "map_of (tbl_quotes (overlay r C)) k = Some j"
          "map_of (tbl_quotes (overlay r C)) l = Some j'" "same_entry j j'" for k l j j'
        using that free(2) [of k j l j'] unfolding sel quotes by (auto split: if_splits)
      moreover have "st_quotes (pg_abs K (rollback r)) \<subseteq>\<^sub>m st_quotes (pg_abs K (rollback (overlay r C)))"
        unfolding committed by (rule grows [OF C(2)])
      moreover have "\<forall>i \<in> fst ` set (own_updates r). map_of (tbl_updates (overlay r C)) i = map_of (tbl_updates r) i"
        "\<forall>k \<in> set (own_quotes r). map_of (tbl_quotes (overlay r C)) k = map_of (tbl_quotes r) k"
        unfolding sel rows quotes by auto
      ultimately show ?thesis unfolding respects_locks_def using sel(3,4) by blast
    qed
    ultimately show ?thesis using C(2) by (simp add: e)
  qed
qed

section \<open>The PostgreSQL repository keeps the contract\<close>

text \<open>
  A session that no other transaction gets in the way of, and whose failed calls did not take
  effect: the environment with no locked rows and no lost replies.
\<close>

definition undisturbed :: "'d pg_env \<Rightarrow> 'd pg_env" where
  "undisturbed K = K\<lparr>skip_locked := (\<lambda>_ _. False), lost_reply := (\<lambda>_. False)\<rparr>"

lemma undisturbed_sel [simp]:
  "skip_locked (undisturbed K) = (\<lambda>_ _. False)" "lost_reply (undisturbed K) = (\<lambda>_. False)"
  "keep_time (undisturbed K) = keep_time K"
  by (simp_all add: undisturbed_def)

interpretation pg: repository "pg_ops (undisturbed K)" "pg_abs (undisturbed K)" pg_inv "keep_time K"
  "pg_kept (undisturbed K)" for K :: "'d::zero pg_env"
proof (unfold_locales, goal_cases)
  case (1 s req key res s')
  then show ?case
    using pg_outcome_reliable [OF pg_create_outcome [of s "undisturbed K" req key res s']] by (simp add: pg_ops_def)
next
  case (2 s key res s')
  then show ?case using pg_by_key_outcome [of s "undisturbed K" key res s'] by (simp add: pg_ops_def)
next
  case (3 s limit now vis res s')
  then show ?case
    using pg_outcome_reliable [OF pg_claim_outcome [of s "undisturbed K" limit now vis res s']]
    by (simp add: pg_ops_def pg_claim_spec_no_skip)
next
  case (4 s p i rate now res s')
  then show ?case
    using pg_outcome_reliable [OF pg_success_outcome [of s p "undisturbed K" i rate now res s']] by (simp add: pg_ops_def)
next
  case (5 s qid i now res s')
  then show ?case
    using pg_outcome_reliable [OF pg_reuse_outcome [of s "undisturbed K" i qid now res s']] by (simp add: pg_ops_def)
next
  case (6 s i code msg retryable nxt now res s')
  then show ?case
    using pg_outcome_reliable [OF pg_failure_outcome [of s "undisturbed K" i code msg retryable nxt now res s']]
    by (simp add: pg_ops_def)
next
  case (7 s i res s')
  then show ?case using pg_by_id_outcome [of s "undisturbed K" i res s'] by (simp add: pg_ops_def)
next
  case (8 s p res s')
  then show ?case using pg_latest_outcome [of s p "undisturbed K" res s'] by (simp add: pg_ops_def)
qed

end
