(* ===== verification/PostgresService.thy ===== *)
theory PostgresService
  imports Samples PostgresTx
begin

text \<open>
  The PostgreSQL repository in use: any number of replicas sharing one database, and the service as
  \<open>cmd/server\<close> wires it, on PostgreSQL and exchangerate.dev.
\<close>

section \<open>Replicas on one database\<close>

text \<open>
  One call of a repository method by any replica, as the program makes it: requests are created
  under new identifiers, and a claimed row is closed for its own pair, with a quote of that pair.
  Rows may be locked, calls may fail, and replies may be lost, as \<open>K\<close> decides.
\<close>

definition own_pair :: "'d::zero pg_env \<Rightarrow> PgRepo \<Rightarrow> uuid \<Rightarrow> CurrencyPair \<Rightarrow> bool" where
  "own_pair K r i p \<longleftrightarrow> (\<forall>q. st_rows (pg_abs K r) i = Some q \<longrightarrow> Pair (q_req q) = p)"

inductive pg_step :: "'d::zero pg_env \<Rightarrow> PgRepo \<Rightarrow> PgRepo \<Rightarrow> bool" for K where
  pg_step_create: "fresh_request (pg_abs K r) req \<Longrightarrow> pg_CreateUpdateRequest K r req key = (res, r')
    \<Longrightarrow> pg_step K r r'"
| pg_step_by_key: "pg_GetByIdempotencyKey K r key = (res, r') \<Longrightarrow> pg_step K r r'"
| pg_step_claim: "pg_ClaimBatch K r limit now vis = (res, r') \<Longrightarrow> pg_step K r r'"
| pg_step_success: "pair_ok p \<Longrightarrow> own_pair K r i p \<Longrightarrow> pg_CompleteSuccess quiet K r i p rate now = (res, r')
    \<Longrightarrow> pg_step K r r'"
| pg_step_reuse: "st_quotes (pg_abs K r) qid = Some (p, rate) \<Longrightarrow> own_pair K r i p
    \<Longrightarrow> pg_CompleteSuccessReuse quiet K r i qid now = (res, r') \<Longrightarrow> pg_step K r r'"
| pg_step_failure: "pg_CompleteFailure quiet K r i code msg retryable nextAttempt now = (res, r') \<Longrightarrow> pg_step K r r'"
| pg_step_by_id: "pg_GetUpdateByID K r i = (res, r') \<Longrightarrow> pg_step K r r'"
| pg_step_latest: "pair_ok p \<Longrightarrow> pg_GetLatestQuote K r p = (res, r') \<Longrightarrow> pg_step K r r'"

inductive_cases pg_step_cases: "pg_step K r r'"

inductive pg_run :: "'d::zero pg_env \<Rightarrow> PgRepo \<Rightarrow> PgRepo \<Rightarrow> bool" for K where
  pg_run_refl: "pg_run K r r"
| pg_run_step: "pg_run K r r' \<Longrightarrow> pg_step K r' r'' \<Longrightarrow> pg_run K r r''"

lemma pg_outcome_keeps:
  assumes "pg_outcome K spec r res r'" "store_ok (pg_abs K r)"
    and "\<And>x S'. spec x S' \<Longrightarrow> store_ok S' \<and> evolves (pg_abs K r) S'"
  shows "pg_inv r' \<and> store_ok (pg_abs K r') \<and> evolves (pg_abs K r) (pg_abs K r')"
  using assms by (auto simp: pg_outcome_def fault_def)

lemma pg_step_keeps:
  assumes "pg_step K r r'" "pg_inv r" "store_ok (pg_abs K r)"
  shows "pg_inv r' \<and> store_ok (pg_abs K r') \<and> evolves (pg_abs K r) (pg_abs K r')"
  using assms(1)
proof (cases rule: pg_step.cases)
  case (pg_step_create req key res)
  from pg_create_outcome [OF assms(2) pg_step_create] assms(3) show ?thesis
  proof (rule pg_outcome_keeps)
    fix x S' assume s: "create_spec (keep_time K) (pg_abs K r) req key x S'"
    obtain i p t where "st_rows (pg_abs K r) (ID req) = None" "req = NewCurrencyRateUpdateRequest i p t" "pair_ok p"
      using pg_step_create(1) unfolding fresh_request_def by blast
    with store_ok_create [OF assms(3) s] evolves_create [OF s]
    show "store_ok S' \<and> evolves (pg_abs K r) S'" by blast
  qed
next
  case (pg_step_by_key key res)
  from pg_by_key_outcome [OF assms(2,3) this] assms(3) show ?thesis by (auto simp: by_key_spec_def fault_def)
next
  case (pg_step_claim limit now vis res)
  from pg_claim_outcome [OF assms(2,3) this] assms(3) show ?thesis
    by (rule pg_outcome_keeps) (use claimed_from_keeps assms(3) in \<open>unfold pg_claim_spec_def, blast\<close>)
next
  case (pg_step_success p i rate now res)
  then have own: "Pair (q_req q) = p" if "st_rows (pg_abs K r) i = Some q" for q
    using that by (simp only: own_pair_def)
  from pg_success_outcome [OF assms(2) pg_step_success(1,3)] assms(3) show ?thesis
    by (rule pg_outcome_keeps) (use store_ok_success [OF assms(3) _ own] evolves_success in blast)
next
  case (pg_step_reuse qid p rate i now res)
  then have own: "\<exists>rate. st_quotes (pg_abs K r) qid = Some (Pair (q_req q), rate)"
    if "st_rows (pg_abs K r) i = Some q" for q
    using that by (auto simp only: own_pair_def)
  from pg_reuse_outcome [OF assms(2) pg_step_reuse(3)] assms(3) show ?thesis
    by (rule pg_outcome_keeps) (use store_ok_reuse [OF assms(3) _ own] evolves_reuse in blast)
next
  case (pg_step_failure i code msg retryable nextAttempt now res)
  from pg_failure_outcome [OF assms(2) this] assms(3) show ?thesis
    by (rule pg_outcome_keeps) (use store_ok_failure [OF assms(3)] evolves_failure in blast)
next
  case (pg_step_by_id i res)
  from pg_by_id_outcome [OF assms(2,3) this] assms(3) show ?thesis by (auto simp: by_id_spec_def fault_def)
next
  case (pg_step_latest p res)
  from pg_latest_outcome [OF assms(2) this] assms(3) show ?thesis by (auto simp: latest_spec_def fault_def)
qed

lemma pg_run_keeps:
  assumes "pg_run K r r'" "pg_inv r" "store_ok (pg_abs K r)"
  shows "pg_inv r' \<and> store_ok (pg_abs K r') \<and> evolves (pg_abs K r) (pg_abs K r')"
  using assms
proof (induction rule: pg_run.induct)
  case (pg_run_refl r)
  then show ?case by simp
next
  case (pg_run_step r r' r'')
  then show ?case using pg_step_keeps evolves_trans by blast
qed

section \<open>The service on PostgreSQL and exchangerate.dev\<close>

interpretation pg_dev: worker
  "NewWorker (pg_ops (undisturbed K)) (dev_provider X e) C baseB maxB attempts lifetime Sign F cvt"
  "pg_abs (undisturbed K)" pg_inv "keep_time K" "pg_kept (undisturbed K)"
  for K X e C baseB maxB attempts lifetime Sign F cvt
  by (rule worker.intro) (simp_all add: NewWorker_def pg.repository_axioms dev.rate_provider_axioms)

definition pg_dispatcher ::
  "'d::zero pg_env \<Rightarrow> ('h, 'd) exchange_env \<Rightarrow> ExchangerateDevProvider \<Rightarrow> 'c Clock_ops \<Rightarrow> duration
     \<Rightarrow> duration \<Rightarrow> int \<Rightarrow> duration \<Rightarrow> ('d \<Rightarrow> int) \<Rightarrow> fmt \<Rightarrow> duration \<Rightarrow> nat \<Rightarrow> nat
     \<Rightarrow> (PgRepo, 'h, 'c, 'd) Dispatcher" where
  "pg_dispatcher K X e C baseB maxB attempts lifetime Sign F cvt batch vis =
     NewDispatcher (pg_ops (undisturbed K)) C
       (NewWorker (pg_ops (undisturbed K)) (dev_provider X e) C baseB maxB attempts lifetime Sign F cvt)
       (int batch) 8 (int vis) (90 * Second)"

lemma pg_dispatcher_sel [simp]:
  "dp_repo (pg_dispatcher K X e C baseB maxB attempts lifetime Sign F cvt batch vis) = pg_ops (undisturbed K)"
  "dp_clock (pg_dispatcher K X e C baseB maxB attempts lifetime Sign F cvt batch vis) = C"
  "dp_worker (pg_dispatcher K X e C baseB maxB attempts lifetime Sign F cvt batch vis) =
     NewWorker (pg_ops (undisturbed K)) (dev_provider X e) C baseB maxB attempts lifetime Sign F cvt"
  "batchSize (pg_dispatcher K X e C baseB maxB attempts lifetime Sign F cvt batch vis) = int batch"
  "visibilityTimeout (pg_dispatcher K X e C baseB maxB attempts lifetime Sign F cvt batch vis) = int vis"
  by (simp_all add: pg_dispatcher_def NewDispatcher_def)

interpretation pg_disp: dispatcher
  "pg_dispatcher K X e C baseB maxB attempts lifetime Sign F cvt batch vis"
  "pg_abs (undisturbed K)" pg_inv "keep_time K" "pg_kept (undisturbed K)"
  for K X e C baseB maxB attempts lifetime Sign F cvt batch vis
  by (rule dispatcher.intro)
     (use pg_dev.worker_axioms in \<open>simp_all add: dispatcher_axioms_def NewWorker_def\<close>)

interpretation pg_api: api "E\<lparr>he_repo := pg_ops (undisturbed K)\<rparr>" "pg_abs (undisturbed K)" pg_inv "keep_time K"
  "pg_kept (undisturbed K)" for E K
  by (rule api.intro) (simp add: pg.repository_axioms)

interpretation pg_service: service "E\<lparr>he_repo := pg_ops (undisturbed K)\<rparr>"
  "pg_dispatcher K X e C baseB maxB attempts lifetime Sign F cvt batch vis"
  "pg_abs (undisturbed K)" pg_inv "keep_time K" "pg_kept (undisturbed K)"
  for E K X e C baseB maxB attempts lifetime Sign F cvt batch vis
  by (rule service.intro [OF pg_api.api_axioms pg_disp.dispatcher_axioms])

section \<open>Concrete values\<close>

text \<open>A server that keeps microseconds and whose third round trip fails after it took effect.\<close>

definition sample_pg :: "int pg_env" where
  "sample_pg = \<lparr>keep_time = (\<lambda>t. t div 1000 * 1000), num_text = itoa, decimal_of_text = strconv_Atoi,
     failing = (\<lambda>n. if n = 2 then Some ''unexpected EOF'' else None), lost_reply = (\<lambda>n. n = 2),
     skip_locked = (\<lambda>_ _. False), tie = (\<lambda>_ i. unat i)\<rparr>"

definition sample_pg_req :: CurrencyRateUpdateRequest where
  "sample_pg_req = NewCurrencyRateUpdateRequest 1 sample_pair 5000"

definition pg_pending :: PgRepo where
  "pg_pending = snd (pg_CreateUpdateRequest sample_pg pg_migrated sample_pg_req ''k'')"

definition pg_claimed :: PgRepo where
  "pg_claimed = snd (pg_ClaimBatch sample_pg pg_pending 10 6500 0)"

lemma sample_pg_fresh: "fresh_request (pg_abs K pg_migrated) sample_pg_req"
  unfolding sample_pg_req_def by (rule fresh_requestI) (simp_all add: pg_migrated_def)

lemma pg_migrated_ok: "pg_inv pg_migrated" "store_ok (pg_abs K pg_migrated)"
  by (simp_all add: pg_inv_migrated pg_abs_migrated store_ok_empty)

lemma sample_pg_run: "pg_run sample_pg pg_migrated pg_claimed"
proof -
  have "pg_step sample_pg pg_migrated pg_pending"
    unfolding pg_pending_def by (rule pg_step_create [OF sample_pg_fresh prod.collapse [symmetric]])
  moreover have "pg_step sample_pg pg_pending pg_claimed"
    unfolding pg_claimed_def by (rule pg_step_claim [OF prod.collapse [symmetric]])
  ultimately show ?thesis by (blast intro: pg_run.intros)
qed

lemma pg_pending_eq:
  "pg_pending = \<lparr>tbl_updates = [(1, \<lparr>c_base = ''EUR'', c_quote = ''MXN'', c_status = StatusPending,
     c_key = Some ''k'', c_attempts = 0, c_next = 5000, c_locked = None, c_quote_id = None,
     c_error_code = None, c_error_message = None, c_created = 5000, c_updated = 5000, c_reused = None\<rparr>)],
     tbl_quotes = [], seq_quotes = 0, own_updates = [], own_quotes = [], round_trips = 1\<rparr>"
  by (simp add: pg_pending_def pg_CreateUpdateRequest_def round_trip_def sql_insert_update_def sample_pg_def
      sample_pg_req_def sample_pair_def NewCurrencyRateUpdateRequest_def pg_migrated_def char3_def rstrip_def nullif_def)

lemma pg_claimed_eq:
  "pg_claimed = \<lparr>tbl_updates = [(1, \<lparr>c_base = ''EUR'', c_quote = ''MXN'', c_status = StatusInProgress,
     c_key = Some ''k'', c_attempts = 1, c_next = 5000, c_locked = Some 6000, c_quote_id = None,
     c_error_code = None, c_error_message = None, c_created = 5000, c_updated = 6000, c_reused = None\<rparr>)],
     tbl_quotes = [], seq_quotes = 0, own_updates = [], own_quotes = [], round_trips = 2\<rparr>"
  by (simp add: pg_claimed_def pg_pending_eq pg_ClaimBatch_def round_trip_def sql_claim_def claim_ids_def
      pending_candidates_def stuck_candidates_def claim_columns_def sample_pg_def Let_def)

section \<open>Properties\<close>

text \<open>C14. Whatever methods any number of replicas call on one database, in whatever order, with rows
  skipped because another transaction holds them, calls that fail and replies that are lost after the
  call took effect: the tables stay well formed, no request loses its identity, pair, key or attempts,
  a finished one never changes again, and no journal entry is rewritten.\<close>

theorem pg_history:
  assumes "pg_run K r r'" "pg_inv r" "store_ok (pg_abs K r)"
  shows "pg_inv r' \<and> store_ok (pg_abs K r') \<and> evolves (pg_abs K r) (pg_abs K r')"
  using assms by (rule pg_run_keeps)

theorem pg_history_witness:
  "store_ok (pg_abs sample_pg pg_claimed) \<and> evolves (pg_abs sample_pg pg_migrated) (pg_abs sample_pg pg_claimed)"
  using pg_history [OF sample_pg_run pg_migrated_ok] by blast

text \<open>C15. The claiming statement, two candidate lists each cut by the limit and their union cut again,
  claims exactly \<open>min limit\<close> of the due rows that no other transaction holds, returns their new
  contents, counts an attempt only for pending rows, and passes over no unheld pending row for one that
  is due later; when the call fails the rows are untouched, unless its reply was lost.\<close>

theorem pg_ClaimBatch_outcome:
  assumes "pg_inv r" "store_ok (pg_abs K r)" "pg_ClaimBatch K r limit now visibleSince = (res, r')"
  shows "pg_outcome K (\<lambda>res S'. \<exists>claimed. res = Ok claimed \<and>
      claimed_from (keep_time K) (claim_due (keep_time K) (skip_locked K (Suc (round_trips r))) (pg_abs K r) now visibleSince)
        (pg_abs K r) limit now claimed S') r res r'"
  using pg_claim_outcome [OF assms] by (simp only: pg_claim_spec_def [abs_def])

theorem pg_ClaimBatch_outcome_witness:
  "pg_outcome sample_pg (\<lambda>res S'. \<exists>claimed. res = Ok claimed \<and>
      claimed_from (keep_time sample_pg) (claim_due (keep_time sample_pg)
          (skip_locked sample_pg (Suc (round_trips pg_pending))) (pg_abs sample_pg pg_pending) 6500 0)
        (pg_abs sample_pg pg_pending) 10 6500 claimed S') pg_pending
     (fst (pg_ClaimBatch sample_pg pg_pending 10 6500 0)) pg_claimed"
proof -
  have "pg_run sample_pg pg_migrated pg_pending"
    unfolding pg_pending_def
    by (rule pg_run_step [OF pg_run_refl pg_step_create [OF sample_pg_fresh prod.collapse [symmetric]]])
  from pg_run_keeps [OF this pg_migrated_ok]
  have "pg_inv pg_pending" "store_ok (pg_abs sample_pg pg_pending)" by blast+
  from pg_ClaimBatch_outcome [OF this, of 10 6500 0 "fst (pg_ClaimBatch sample_pg pg_pending 10 6500 0)" pg_claimed]
  show ?thesis by (simp add: pg_claimed_def)
qed

text \<open>\<open>CompleteSuccess\<close> on PostgreSQL is all or nothing: the journal entry for that provider,
  pair and quote time is found or added once and the in-progress row points at it, with both kept at
  the precision of their columns; or a row that is missing or not in progress is refused by name; or
  the call fails, and then nothing was written unless the reply to the commit was lost.\<close>

theorem pg_CompleteSuccess_outcome:
  assumes "pg_inv r" "pair_ok pair" "pg_CompleteSuccess quiet K r i pair rate now = (res, r')"
  shows "pg_outcome K (success_spec (keep_time K) (pg_kept K) (pg_abs K r) i pair rate now) r res r'"
  using pg_success_outcome [OF assms] .

theorem pg_CompleteSuccess_outcome_witness:
  "pg_outcome sample_pg (success_spec (keep_time sample_pg) (pg_kept sample_pg) (pg_abs sample_pg pg_claimed) 1
      sample_pair sample_rate 7000) pg_claimed
     (fst (pg_CompleteSuccess quiet sample_pg pg_claimed 1 sample_pair sample_rate 7000))
     (snd (pg_CompleteSuccess quiet sample_pg pg_claimed 1 sample_pair sample_rate 7000))"
  using pg_CompleteSuccess_outcome [OF _ sample_pair_ok prod.collapse [symmetric]] pg_run_keeps [OF sample_pg_run pg_migrated_ok]
  by blast

end
