(* ===== verification/PostgresRaces.thy ===== *)
theory PostgresRaces
  imports PostgresService
begin

text \<open>
  Replicas that close requests at the same time. While one runs \<open>CompleteSuccess\<close>, \<open>CompleteSuccessReuse\<close> or
  \<open>CompleteFailure\<close>, statement by statement, others commit whole calls of the repository between any two of
  its statements, unless the locks it holds make them wait.
\<close>

section \<open>Other replicas\<close>

definition replicas :: "'d::zero pg_env \<Rightarrow> interference \<Rightarrow> bool" where
  "replicas K g \<longleftrightarrow> (\<forall>n C. pg_run K C (g n C))"

text \<open>What is committed stays well formed and only moves forward.\<close>

definition moved :: "'d store \<Rightarrow> 'd store \<Rightarrow> bool" where
  "moved S S' \<longleftrightarrow> store_ok S \<and> store_ok S' \<and> evolves S S'"

lemma replicas_tx:
  fixes K :: "'d::zero pg_env"
  assumes "replicas K g"
  shows "tx_env moved K (among_others g)"
proof
  show "moved S T \<Longrightarrow> moved T T" for S T :: "'d store" by (simp add: moved_def)
  show "moved S T \<Longrightarrow> moved T U \<Longrightarrow> moved S U" for S T U :: "'d store"
    using evolves_trans by (auto simp: moved_def)
  show "isolated moved K (among_others g)"
  proof (rule isolated_among_others)
    fix n and C :: PgRepo
    assume "pg_inv C" "moved (pg_abs K C) (pg_abs K C)"
    moreover have "pg_run K C (g n C)" using assms by (simp add: replicas_def)
    ultimately show "pg_inv (g n C) \<and> moved (pg_abs K C) (pg_abs K (g n C))"
      using pg_run_keeps by (metis moved_def)
  next
    show "st_quotes S \<subseteq>\<^sub>m st_quotes T" if "moved S T" for S T :: "'d store"
      using that by (simp add: moved_def evolves_def)
  qed
qed

lemma moved_start: "store_ok S \<Longrightarrow> moved S S"
  by (simp add: moved_def)

lemma replicas_idle [simp]: "replicas K (\<lambda>n C. C)"
  by (simp add: replicas_def pg_run_refl)

section \<open>One call among others\<close>

text \<open>A call that closes request \<open>i\<close> for good, as the worker makes it: for the pair of the request.\<close>

inductive pg_closes :: "interference \<Rightarrow> 'd::zero pg_env \<Rightarrow> PgRepo \<Rightarrow> uuid \<Rightarrow> unit go \<Rightarrow> PgRepo \<Rightarrow> bool" for I K r i where
  closes_success: "pair_ok p \<Longrightarrow> own_pair K r i p \<Longrightarrow> pg_CompleteSuccess I K r i p rate now = (res, r')
    \<Longrightarrow> pg_closes I K r i res r'"
| closes_reuse: "st_quotes (pg_abs K r) qid = Some (p, rate) \<Longrightarrow> own_pair K r i p
    \<Longrightarrow> pg_CompleteSuccessReuse I K r i qid now = (res, r') \<Longrightarrow> pg_closes I K r i res r'"
| closes_failure: "pg_CompleteFailure I K r i code msg False nextAttempt now = (res, r') \<Longrightarrow> pg_closes I K r i res r'"

inductive_cases pg_closesE: "pg_closes I K r i res r'"

definition finished :: "'d store \<Rightarrow> uuid \<Rightarrow> bool" where
  "finished S i \<longleftrightarrow> (\<exists>q. st_rows S i = Some q \<and> Status (q_req q) \<in> {StatusSucceeded, StatusFailed})"

lemma finished_evolves:
  assumes "finished S i" "evolves S S'"
  shows "finished S' i"
proof -
  from assms(1) obtain q where "st_rows S i = Some q" "Status (q_req q) \<in> {StatusSucceeded, StatusFailed}"
    by (auto simp: finished_def)
  moreover from this assms(2) obtain q' where "st_rows S' i = Some q'" "row_evolves q q'" by (auto simp: evolves_def)
  ultimately show ?thesis unfolding finished_def row_evolves_def by metis
qed

lemma own_pair_moved:
  assumes "own_pair K r i p" "st_rows (pg_abs K r) i \<noteq> None" "evolves (pg_abs K r) (pg_abs K C)"
  shows "own_pair K C i p"
proof -
  from assms(2) obtain q where q: "st_rows (pg_abs K r) i = Some q" by blast
  with assms(1) have "Pair (q_req q) = p" by (simp only: own_pair_def)
  moreover from q assms(3) obtain q' where "st_rows (pg_abs K C) i = Some q'" "row_evolves q q'"
    unfolding evolves_def by blast
  ultimately show ?thesis by (auto simp: own_pair_def row_evolves_def simp del: pg_abs_sel)
qed

text \<open>Whatever it answers, at one moment; and if it answers \<open>Ok\<close>, the request was open then and is finished now.\<close>

lemma pg_closes_moment:
  fixes K :: "'d::zero pg_env"
  assumes g: "replicas K g" and inv: "pg_inv r" and ok: "store_ok (pg_abs K r)"
    and row: "st_rows (pg_abs K r) i \<noteq> None" and run: "pg_closes (among_others g) K r i res r'"
  shows "\<exists>C. moved (pg_abs K r) (pg_abs K C) \<and> pg_inv r' \<and> store_ok (pg_abs K r')
    \<and> evolves (pg_abs K C) (pg_abs K r') \<and> (res = Ok () \<longrightarrow> \<not> finished (pg_abs K C) i \<and> finished (pg_abs K r') i)"
  using run
proof cases
  case (closes_success p rate now)
  from tx_env.success_moment [OF replicas_tx [OF g] inv moved_start [OF ok] closes_success(1,3)]
  obtain C where C: "moved (pg_abs K r) (pg_abs K C)"
    and out: "pg_outcome K (success_spec (keep_time K) (pg_kept K) (pg_abs K C) i p rate now) C res r'" by blast
  from C own_pair_moved [OF closes_success(2) row] have "own_pair K C i p" by (simp add: moved_def)
  then have own: "Pair (q_req q) = p" if "st_rows (pg_abs K C) i = Some q" for q
    using that by (simp only: own_pair_def)
  have okC: "store_ok (pg_abs K C)" using C by (simp add: moved_def)
  have "pg_inv r' \<and> store_ok (pg_abs K r') \<and> evolves (pg_abs K C) (pg_abs K r')"
    using out okC by (rule pg_outcome_keeps) (use store_ok_success [OF okC _ own] evolves_success in blast)
  moreover have "\<not> finished (pg_abs K C) i \<and> finished (pg_abs K r') i" if "res = Ok ()"
    using out that by (auto simp: pg_outcome_def success_spec_def transition_refused_def fault_def finished_def
        succeeded_row_def simp del: pg_abs_sel split: option.splits)
  ultimately show ?thesis using C by blast
next
  case (closes_reuse qid p rate now)
  from tx_env.reuse_moment [OF replicas_tx [OF g] inv moved_start [OF ok] closes_reuse(3)]
  obtain C where C: "moved (pg_abs K r) (pg_abs K C)"
    and out: "pg_outcome K (reuse_spec (keep_time K) (pg_abs K C) i qid now) C res r'" by blast
  from C own_pair_moved [OF closes_reuse(2) row] have "own_pair K C i p" by (simp add: moved_def)
  moreover have "st_quotes (pg_abs K C) qid = Some (p, rate)"
    using C closes_reuse(1) unfolding moved_def evolves_def map_le_def by (metis domI)
  ultimately have own: "\<exists>rate. st_quotes (pg_abs K C) qid = Some (Pair (q_req q), rate)"
    if "st_rows (pg_abs K C) i = Some q" for q
    using that by (auto simp only: own_pair_def)
  have okC: "store_ok (pg_abs K C)" using C by (simp add: moved_def)
  have "pg_inv r' \<and> store_ok (pg_abs K r') \<and> evolves (pg_abs K C) (pg_abs K r')"
    using out okC by (rule pg_outcome_keeps) (use store_ok_reuse [OF okC _ own] evolves_reuse in blast)
  moreover have "\<not> finished (pg_abs K C) i \<and> finished (pg_abs K r') i" if "res = Ok ()"
    using out that by (auto simp: pg_outcome_def reuse_spec_def transition_refused_def fault_def finished_def
        succeeded_row_def simp del: pg_abs_sel split: option.splits)
  ultimately show ?thesis using C by blast
next
  case (closes_failure code msg nextAttempt now)
  from tx_env.failure_moment [OF replicas_tx [OF g] inv moved_start [OF ok] closes_failure]
  obtain C where C: "moved (pg_abs K r) (pg_abs K C)"
    and out: "pg_outcome K (failure_spec (keep_time K) (pg_abs K C) i code msg False nextAttempt now) C res r'" by blast
  have okC: "store_ok (pg_abs K C)" using C by (simp add: moved_def)
  have "pg_inv r' \<and> store_ok (pg_abs K r') \<and> evolves (pg_abs K C) (pg_abs K r')"
    using out okC by (rule pg_outcome_keeps) (use store_ok_failure [OF okC] evolves_failure in blast)
  moreover have "\<not> finished (pg_abs K C) i \<and> finished (pg_abs K r') i" if "res = Ok ()"
    using out that by (auto simp: pg_outcome_def failure_spec_def transition_refused_def fault_def finished_def
        failed_row_def simp del: pg_abs_sel split: option.splits)
  ultimately show ?thesis using C by blast
qed

section \<open>Concrete values\<close>

text \<open>A server whose calls all get through, and two rivals: one fails the request for good before statement \<open>m\<close>,
  one completes it with the same quote.\<close>

definition steady_pg :: "int pg_env" where
  "steady_pg = sample_pg\<lparr>failing := (\<lambda>_. None), lost_reply := (\<lambda>_. False)\<rparr>"

definition rival :: "nat \<Rightarrow> interference" where
  "rival m n C = (if n = m then snd (pg_CompleteFailure quiet steady_pg C 1 ''GONE'' ''rival'' False 0 6800) else C)"

definition twin :: "nat \<Rightarrow> interference" where
  "twin m n C = (if n = m \<and> C = pg_claimed
                 then snd (pg_CompleteSuccess quiet steady_pg C 1 sample_pair sample_rate 6800) else C)"

lemma rival_replicas: "replicas steady_pg (rival m)"
  unfolding replicas_def rival_def
  by (auto intro!: pg_run_step [OF pg_run_refl pg_step_failure [OF prod.collapse [symmetric]]] pg_run_refl)

lemma pg_abs_steady: "pg_abs steady_pg = pg_abs sample_pg"
  by (rule ext) (simp add: pg_abs_def pg_rate_def [abs_def] text_value_def steady_pg_def)

lemma pg_claimed_ok: "pg_inv pg_claimed" "store_ok (pg_abs steady_pg pg_claimed)"
  using pg_run_keeps [OF sample_pg_run pg_migrated_ok] by (simp_all add: pg_abs_steady)

lemma pg_claimed_row: "st_rows (pg_abs K pg_claimed) 1 \<noteq> None" "own_pair K pg_claimed 1 sample_pair"
  by (simp_all add: own_pair_def pg_claimed_eq sample_pair_def)

lemma twin_replicas: "replicas steady_pg (twin m)"
  unfolding replicas_def twin_def
  by (auto intro!: pg_run_step [OF pg_run_refl pg_step_success [OF sample_pair_ok pg_claimed_row(2) prod.collapse [symmetric]]]
      pg_run_refl)

section \<open>Properties\<close>

text \<open>C7. \<open>CompleteSuccess\<close> among other replicas is atomic. Let them commit any whole calls between its statements.
  \<open>tx_moment\<close> is what stands committed when its last statement is executed: what the others made of the tables by
  then, those commits included, and nothing of the transaction. What the call answers and commits is what the
  contract allows from exactly there, so no commit of another replica is overwritten, and a request that another
  replica closed in the meantime is refused; or the call fails, and then it has written nothing unless the reply
  to the commit was lost.\<close>

theorem pg_CompleteSuccess_interleaved:
  assumes "replicas K g" "pg_inv r" "store_ok (pg_abs K r)" "pair_ok pair"
    and "pg_CompleteSuccess (among_others g) K r i pair rate now = (res, r')"
    and "C = tx_moment (among_others g) K (success_body (among_others g) K i pair rate now) r"
  shows "store_ok (pg_abs K C) \<and> evolves (pg_abs K r) (pg_abs K C)
    \<and> pg_outcome K (success_spec (keep_time K) (pg_kept K) (pg_abs K C) i pair rate now) C res r'"
  using tx_env.success_moment_at [OF replicas_tx [OF assms(1)] assms(2) moved_start [OF assms(3)] assms(4,5)]
  unfolding moved_def assms(6) by blast

lemma rival_wins:
  "pg_CompleteSuccess (among_others (rival 4)) steady_pg pg_claimed 1 sample_pair sample_rate 7000 =
     (Err (ErrWrap ''postgres: complete success'' (ErrInvalidTransition StatusFailed StatusSucceeded)),
      snd (pg_CompleteSuccess (among_others (rival 4)) steady_pg pg_claimed 1 sample_pair sample_rate 7000))"
  "tbl_quotes (snd (pg_CompleteSuccess (among_others (rival 4)) steady_pg pg_claimed 1 sample_pair sample_rate 7000)) = []"
  by code_simp+

lemma rival_moment:
  "map_option c_status (map_of (tbl_updates (tx_moment (among_others (rival 4)) steady_pg
     (success_body (among_others (rival 4)) steady_pg 1 sample_pair sample_rate 7000) pg_claimed)) 1) = Some StatusFailed"
  by code_simp

theorem pg_CompleteSuccess_interleaved_witness:
  "\<exists>C r'. map_option c_status (map_of (tbl_updates C) 1) = Some StatusFailed
    \<and> evolves (pg_abs steady_pg pg_claimed) (pg_abs steady_pg C) \<and> tbl_quotes r' = []
    \<and> pg_outcome steady_pg (success_spec (keep_time steady_pg) (pg_kept steady_pg) (pg_abs steady_pg C) 1
        sample_pair sample_rate 7000) C
        (Err (ErrWrap ''postgres: complete success'' (ErrInvalidTransition StatusFailed StatusSucceeded))) r'"
  using pg_CompleteSuccess_interleaved [OF rival_replicas pg_claimed_ok sample_pair_ok rival_wins(1) refl]
    rival_wins(2) rival_moment by blast

text \<open>C6. No request is closed twice. Two replicas may both have claimed it, one of them after the visibility
  timeout, and close it in any way and at the same time as everyone else: once a call has been told \<open>Ok\<close>, no
  later call that closes the same request is.\<close>

theorem pg_closed_once:
  fixes K :: "'d::zero pg_env"
  assumes "replicas K g" "replicas K g'" "pg_inv r" "store_ok (pg_abs K r)" "st_rows (pg_abs K r) i \<noteq> None"
    and "pg_closes (among_others g) K r i (Ok ()) r1" "pg_run K r1 r2" "pg_closes (among_others g') K r2 i res r3"
  shows "res \<noteq> Ok ()"
proof
  assume "res = Ok ()"
  from pg_closes_moment [OF assms(1,3-6)] have r1: "pg_inv r1" "store_ok (pg_abs K r1)" "finished (pg_abs K r1) i"
    by blast+
  from pg_run_keeps [OF assms(7) r1(1,2)] finished_evolves [OF r1(3)]
  have r2: "pg_inv r2" "store_ok (pg_abs K r2)" "finished (pg_abs K r2) i" by blast+
  then have "st_rows (pg_abs K r2) i \<noteq> None" by (auto simp: finished_def)
  from pg_closes_moment [OF assms(2) r2(1,2) this assms(8)] \<open>res = Ok ()\<close>
  obtain C where "evolves (pg_abs K r2) (pg_abs K C)" "\<not> finished (pg_abs K C) i" by (auto simp: moved_def)
  with finished_evolves [OF r2(3)] show False by blast
qed

lemma rival_waits:
  "fst (pg_CompleteSuccess (among_others (rival 5)) steady_pg pg_claimed 1 sample_pair sample_rate 7000) = Ok ()"
  by code_simp

theorem pg_closed_once_witness:
  "fst (pg_CompleteFailure (among_others (\<lambda>n C. C)) steady_pg
     (snd (pg_CompleteSuccess (among_others (rival 5)) steady_pg pg_claimed 1 sample_pair sample_rate 7000))
     1 ''GONE'' ''rival'' False 0 7100) \<noteq> Ok ()"
  (is "fst (pg_CompleteFailure _ _ ?r1 _ _ _ _ _ _) \<noteq> _")
proof -
  have "pg_CompleteSuccess (among_others (rival 5)) steady_pg pg_claimed 1 sample_pair sample_rate 7000 = (Ok (), ?r1)"
    using rival_waits by (metis prod.collapse)
  from closes_success [OF sample_pair_ok pg_claimed_row(2) this] show ?thesis
    by (rule pg_closed_once [OF rival_replicas replicas_idle pg_claimed_ok pg_claimed_row(1) _ pg_run_refl
          closes_failure [OF prod.collapse [symmetric]]])
qed

text \<open>C16. The fallback of \<open>upsertQuote\<close> never misses. When no statement fails, it returns the identifier of a
  journal entry for that provider, pair and quote time, its own or that of whoever won the race, as the comment
  above it argues.\<close>

theorem pg_upsert_never_misses:
  assumes "replicas K g" "pg_inv r" "store_ok (pg_abs K r)" "pair_ok pair" "\<forall>n. failing K n = None"
    and "upsertQuote (among_others g) K pair rate r = (res, r')"
  shows "\<exists>k x. res = Ok k \<and> st_quotes (pg_abs K r') k = Some x \<and> same_quote pair (pg_kept K rate) x"
proof -
  from tx_env.upsertQuote_run [OF replicas_tx [OF assms(1)] assms(2) moved_start [OF assms(3)] assms(4,6)] assms(5)
  obtain k where k: "res = Ok k" "quote_ready K pair rate k r'" by (cases res) auto
  have "same_quote pair (pg_kept K rate) (pair, pg_kept K rate)" by (simp add: same_quote_def)
  with k show ?thesis by (cases "own_quotes r' = []") (auto simp: quote_ready_found quote_ready_added simp del: pg_abs_sel)
qed

lemma twin_wins:
  "upsertQuote (among_others (twin 2)) steady_pg sample_pair sample_rate pg_claimed =
     (Ok 1, snd (upsertQuote (among_others (twin 2)) steady_pg sample_pair sample_rate pg_claimed))"
  "own_quotes (snd (upsertQuote (among_others (twin 2)) steady_pg sample_pair sample_rate pg_claimed)) = []"
  by code_simp+

theorem pg_upsert_never_misses_witness:
  "\<exists>x r'. st_quotes (pg_abs steady_pg r') 1 = Some x \<and> same_quote sample_pair (pg_kept steady_pg sample_rate) x
    \<and> own_quotes r' = []"
  using pg_upsert_never_misses [OF twin_replicas pg_claimed_ok sample_pair_ok _ twin_wins(1)] twin_wins(2)
  by (auto simp: steady_pg_def simp del: pg_abs_sel)

end
