(* ===== verification/Throughput.thy ===== *)
theory Throughput
  imports Float64 Domain Json "HOL-Library.AList"
begin

text \<open>
  \<open>cmd/throughput/main.go\<close>: the load generator. Workers cycle through the pairs and post until the time is
  over, their results are counted, and \<open>report\<close> prints the counts and the latency percentiles, whose indexes
  are computed in \<open>float64\<close>. The HTTP client and the clock are parameters.
\<close>

section \<open>One request\<close>

record result =
  latency :: duration
  rs_status :: int
  rs_err :: "go_error option"

definition failed_result :: "go_error \<Rightarrow> result" where
  "failed_result e = \<lparr>latency = 0, rs_status = 0, rs_err = Some e\<rparr>"

text \<open>What \<open>client.Do\<close> returned: an error or a status, and the time until the body was read.\<close>

definition finish :: "go_error + int \<times> duration \<Rightarrow> result" where
  "finish answer =
     (case answer of
        Inl e \<Rightarrow> failed_result e
      | Inr (status, elapsed) \<Rightarrow> \<lparr>latency = elapsed, rs_status = status, rs_err = None\<rparr>)"

record post_request =
  pr_Method :: string
  pr_URL :: string
  pr_Body :: string
  pr_ContentType :: string

record load_client =
  http_NewRequest :: "string \<Rightarrow> string \<Rightarrow> go_error option"
  client_Do :: "nat \<Rightarrow> nat \<Rightarrow> post_request \<Rightarrow> go_error + int \<times> duration"

text \<open>Request \<open>n\<close> of worker \<open>w\<close>.\<close>

definition doPost :: "load_client \<Rightarrow> nat \<Rightarrow> string \<Rightarrow> nat \<Rightarrow> string \<Rightarrow> result" where
  "doPost X w url n pair =
     (case json_Marshal [(''pair'', pair)] of
        Inl e \<Rightarrow> failed_result e
      | Inr body \<Rightarrow>
          let target = url @ ''/api/v1/quotes/updates''
          in case http_NewRequest X ''POST'' target of
               Some e \<Rightarrow> failed_result e
             | None \<Rightarrow> finish (client_Do X w n \<lparr>pr_Method = ''POST'', pr_URL = target, pr_Body = body,
                                 pr_ContentType = ''application/json''\<rparr>))"

section \<open>One worker\<close>

definition worker_pair :: "string list \<Rightarrow> nat \<Rightarrow> nat \<Rightarrow> string" where
  "worker_pair pairs worker n = pairs ! ((worker + n) mod length pairs)"

text \<open>The loop of a worker; \<open>time_up n\<close> says whether the context is done before request \<open>n\<close>. \<open>None\<close> is a
  worker that never stops.\<close>

partial_function (option) load_worker ::
  "(nat \<Rightarrow> bool) \<Rightarrow> (nat \<Rightarrow> string \<Rightarrow> result) \<Rightarrow> string list \<Rightarrow> nat \<Rightarrow> nat \<Rightarrow> result list option" where
  "load_worker time_up post pairs worker n =
     (if time_up n then Some []
      else Option.bind (load_worker time_up post pairs worker (Suc n))
             (\<lambda>rest. Some (post n (worker_pair pairs worker n) # rest)))"

section \<open>Counting\<close>

record tally =
  latencies :: "duration list"
  okCount :: int
  errCount :: int
  statusCounts :: "(int \<times> int) list"

definition no_results :: tally where
  "no_results = \<lparr>latencies = [], okCount = 0, errCount = 0, statusCounts = []\<rparr>"

definition collect_one :: "result \<Rightarrow> tally \<Rightarrow> tally" where
  "collect_one r t =
     (if rs_err r \<noteq> None then t\<lparr>errCount := errCount t + 1\<rparr>
      else
        let t1 = t\<lparr>latencies := latencies t @ [latency r],
                   statusCounts := AList.map_default (rs_status r) 1 (\<lambda>k. k + 1) (statusCounts t)\<rparr>
        in if rs_status r < 400 then t1\<lparr>okCount := okCount t1 + 1\<rparr> else t1\<lparr>errCount := errCount t1 + 1\<rparr>)"

definition collect :: "result list \<Rightarrow> tally" where
  "collect rs = fold collect_one rs no_results"

section \<open>The report\<close>

datatype report_line =
  Requests int int int duration
| NoLatencies
| Latency duration duration duration duration duration
| StatusCodes
| StatusLine int int

text \<open>\<open>int(p * float64(len(latencies)-1))\<close>\<close>

definition pct_index :: "float64 \<Rightarrow> nat \<Rightarrow> nat" where
  "pct_index p n = round53 (nat (fst p) * round53 n) div 2 ^ snd p"

definition p50 :: float64 where "p50 = (1, 1)"
definition p90 :: float64 where "p90 = (8106479329266893, 53)"
definition p99 :: float64 where "p99 = (4458563631096791, 52)"

definition report :: "duration \<Rightarrow> tally \<Rightarrow> report_line list" where
  "report d t =
     Requests (okCount t + errCount t) (okCount t) (errCount t) d #
     (if latencies t = [] then [NoLatencies]
      else
        let ls = sort (latencies t); n = length ls - 1; pct = (\<lambda>p. ls ! pct_index p n)
        in Latency (ls ! 0) (pct p50) (pct p90) (pct p99) (ls ! n) # StatusCodes #
           map (\<lambda>c. StatusLine c (the (map_of (statusCounts t) c))) (sort (map fst (statusCounts t))))"

section \<open>The program\<close>

text \<open>The results of the workers as the channel delivers them: \<open>turns\<close> says whose next result comes, and what
  no turn asks for comes at the end. A worker whose results are used up does not take its turn.\<close>

fun interleave :: "nat list \<Rightarrow> 'a list list \<Rightarrow> 'a list" where
  "interleave [] xss = concat xss"
| "interleave (w # turns) xss =
     (if w < length xss
      then case xss ! w of
             [] \<Rightarrow> interleave turns xss
           | x # xs \<Rightarrow> x # interleave turns (xss[w := xs])
      else interleave turns xss)"

text \<open>\<open>make(chan result, n)\<close> panics for a negative size and for one beyond what the run time can
  allocate, \<open>limit\<close>.\<close>

definition make_chan :: "int \<Rightarrow> int \<Rightarrow> unit go" where
  "make_chan limit n = (if n < 0 \<or> limit < n then Panic else Ok ())"

record load_flags =
  lf_url :: string
  lf_pairs :: string
  lf_concurrency :: int
  lf_duration :: duration

definition default_flags :: load_flags where
  "default_flags = \<lparr>lf_url = ''http://localhost:8080'',
     lf_pairs = ''USD/EUR,USD/MXN,EUR/MXN,EUR/USD,MXN/USD,MXN/EUR'', lf_concurrency = 50,
     lf_duration = 20 * Second\<rparr>"

definition load_workers ::
  "unicode \<Rightarrow> load_client \<Rightarrow> (nat \<Rightarrow> nat \<Rightarrow> bool) \<Rightarrow> load_flags \<Rightarrow> result list option list" where
  "load_workers U X time_up f =
     map (\<lambda>w. load_worker (time_up w) (doPost X w (lf_url f)) (strings_Split U (lf_pairs f) '','') w 0)
       [0..<nat (lf_concurrency f)]"

text \<open>\<open>main\<close> after the flags are parsed. \<open>None\<close>: a worker never stops, so the channel is never closed.\<close>

definition load_main ::
  "int \<Rightarrow> unicode \<Rightarrow> load_client \<Rightarrow> (nat \<Rightarrow> nat \<Rightarrow> bool) \<Rightarrow> nat list \<Rightarrow> load_flags \<Rightarrow> report_line list go option" where
  "load_main limit U X time_up turns f =
     (case make_chan limit (wrap64 (4 * lf_concurrency f)) of
        Ok _ \<Rightarrow> map_option (\<lambda>lists. Ok (report (lf_duration f) (collect (interleave turns lists))))
                  (those (load_workers U X time_up f))
      | _ \<Rightarrow> Some Panic)"

section \<open>Lemmas\<close>

lemma pct_index_p50: "n < 2 ^ 53 \<Longrightarrow> pct_index p50 n = n div 2"
  by (simp add: pct_index_def p50_def)

lemma pct_index_order:
  assumes "n < 2 ^ 49"
  shows "n div 2 \<le> pct_index p90 n" "pct_index p90 n \<le> pct_index p99 n" "pct_index p99 n \<le> n"
proof -
  let ?X = "round53 (8106479329266893 * n)" and ?Y = "round53 (4458563631096791 * n)"
  have n: "n < 2 ^ 53" "15 * n < 2 ^ 53" using assms by simp_all
  have idx: "pct_index p90 n = ?X div 2 ^ 53" "pct_index p99 n = ?Y div 2 ^ 52"
    using n by (simp_all add: pct_index_def p90_def p99_def)
  have "n * 2 ^ 52 \<le> ?X" by (rule round53_ge [OF representableI [OF n(1)]]) simp
  then have "n * 2 ^ 52 div 2 ^ 53 \<le> ?X div 2 ^ 53" by (rule div_le_mono)
  then show "n div 2 \<le> pct_index p90 n" unfolding idx by simp
  have "?X \<le> 15 * n * 2 ^ 49" by (rule round53_le [OF representableI [OF n(2)]]) simp
  then have "?X div 2 ^ 53 \<le> 15 * n * 2 ^ 49 div 2 ^ 53" by (rule div_le_mono)
  moreover have "15 * n * 2 ^ 48 \<le> ?Y" by (rule round53_ge [OF representableI [OF n(2)]]) simp
  then have "15 * n * 2 ^ 48 div 2 ^ 52 \<le> ?Y div 2 ^ 52" by (rule div_le_mono)
  ultimately show "pct_index p90 n \<le> pct_index p99 n" unfolding idx by simp
  have "?Y \<le> n * 2 ^ 52" by (rule round53_le [OF representableI [OF n(1)]]) simp
  then have "?Y div 2 ^ 52 \<le> n * 2 ^ 52 div 2 ^ 52" by (rule div_le_mono)
  then show "pct_index p99 n \<le> n" unfolding idx by simp
qed

text \<open>What the counts are, whatever the order of the results.\<close>

definition answered :: "result \<Rightarrow> bool" where
  "answered r \<longleftrightarrow> rs_err r = None"

definition good :: "result \<Rightarrow> bool" where
  "good r \<longleftrightarrow> rs_err r = None \<and> rs_status r < 400"

lemma map_of_map_default: "map_of (AList.map_default k v f al) =
    (map_of al)(k \<mapsto> (case map_of al k of None \<Rightarrow> v | Some x \<Rightarrow> f x))"
  by (induction al) (auto simp: fun_eq_iff)

definition count_status :: "result list \<Rightarrow> int \<Rightarrow> int" where
  "count_status rs c = int (length (filter (\<lambda>r. answered r \<and> rs_status r = c) rs))"

lemma count_status_snoc: "count_status (rs @ [r]) c =
    count_status rs c + (if answered r \<and> rs_status r = c then 1 else 0)"
  by (simp add: count_status_def)

lemma count_status_nonneg: "0 \<le> count_status rs c"
  by (simp add: count_status_def)

definition tally_of :: "result list \<Rightarrow> tally \<Rightarrow> bool" where
  "tally_of rs t \<longleftrightarrow>
     mset (latencies t) = image_mset latency (filter_mset answered (mset rs))
     \<and> okCount t = int (length (filter good rs))
     \<and> errCount t = int (length rs) - int (length (filter good rs))
     \<and> distinct (map fst (statusCounts t))
     \<and> (\<forall>c. map_of (statusCounts t) c = (if count_status rs c = 0 then None else Some (count_status rs c)))"

lemma tally_of_failed: "tally_of rs t \<Longrightarrow> rs_err r \<noteq> None \<Longrightarrow> tally_of (rs @ [r]) (collect_one r t)"
  by (simp add: tally_of_def collect_one_def answered_def good_def count_status_snoc)

lemma tally_of_answered:
  assumes "tally_of rs t" "rs_err r = None"
  shows "tally_of (rs @ [r]) (collect_one r t)"
proof -
  let ?c = "AList.map_default (rs_status r) 1 (\<lambda>k. k + 1) (statusCounts t)"
  have "map_of ?c c = (if count_status (rs @ [r]) c = 0 then None else Some (count_status (rs @ [r]) c))" for c
    using assms count_status_nonneg [of rs c]
    by (auto simp: tally_of_def map_of_map_default count_status_snoc answered_def)
  with assms show ?thesis
    by (simp add: tally_of_def collect_one_def answered_def good_def Let_def distinct_map_default)
qed

lemma collect_tally: "tally_of rs (collect rs)"
proof (induction rs rule: rev_induct)
  case Nil
  show ?case by (simp add: collect_def no_results_def tally_of_def count_status_def)
next
  case (snoc r rs)
  have "collect (rs @ [r]) = collect_one r (collect rs)" by (simp add: collect_def)
  with snoc tally_of_failed [OF snoc] tally_of_answered [OF snoc] show ?case by (cases "rs_err r") simp_all
qed

lemma report_cong:
  assumes "tally_of rs t" "tally_of rs' t'" "mset rs = mset rs'"
  shows "report d t = report d t'"
proof -
  have len: "length rs = length rs'" using assms(3) by (rule mset_eq_length)
  have filt: "length (filter P rs) = length (filter P rs')" for P
    using assms(3) by (metis mset_eq_length mset_filter)
  then have counts: "count_status rs c = count_status rs' c" for c by (simp add: count_status_def)
  have ls: "sort (latencies t) = sort (latencies t')"
    using assms by (auto simp: tally_of_def intro: properties_for_sort)
  have mo: "map_of (statusCounts t) = map_of (statusCounts t')"
    using assms(1,2) counts by (auto simp: tally_of_def fun_eq_iff)
  then have "set (map fst (statusCounts t)) = set (map fst (statusCounts t'))"
    by (metis dom_map_of_conv_image_fst list.set_map)
  then have "sort (map fst (statusCounts t)) = sort (map fst (statusCounts t'))"
    using assms(1,2) by (intro sorted_distinct_set_unique) (auto simp: tally_of_def)
  moreover have "latencies t = [] \<longleftrightarrow> latencies t' = []" using ls by (metis set_empty set_sort)
  ultimately show ?thesis
    using assms(1,2) ls len filt mo by (simp add: report_def tally_of_def)
qed

text \<open>The loop of a worker up to the first moment the time is over.\<close>

lemma load_worker_upto:
  assumes "time_up m" "n \<le> m" "\<And>k. n \<le> k \<Longrightarrow> k < m \<Longrightarrow> \<not> time_up k"
  shows "load_worker time_up post pairs worker n = Some (map (\<lambda>k. post k (worker_pair pairs worker k)) [n..<m])"
  using assms(2,3)
proof (induction "m - n" arbitrary: n)
  case 0
  then have "n = m" by simp
  with assms(1) show ?case by (simp add: load_worker.simps)
next
  case (Suc d)
  then have "load_worker time_up post pairs worker (Suc n)
      = Some (map (\<lambda>k. post k (worker_pair pairs worker k)) [Suc n..<m])" by simp
  moreover have "n < m" "\<not> time_up n" using Suc by auto
  ultimately show ?case by (subst load_worker.simps) (simp add: upt_conv_Cons)
qed

lemma those_map_Some: "those (map Some xs) = Some xs"
  by (induction xs) simp_all

text \<open>Whatever the turns, the channel delivers every result once.\<close>

lemma mset_interleave: "mset (interleave turns xss) = mset (concat xss)"
proof (induction turns xss rule: interleave.induct)
  case (2 w turns xss)
  show ?case
  proof (cases "w < length xss \<and> xss ! w \<noteq> []")
    case True
    then obtain x xs where x: "xss ! w = x # xs" by (auto simp: neq_Nil_conv)
    from True have "xss = take w xss @ (x # xs) # drop (Suc w) xss"
      using x id_take_nth_drop by fastforce
    moreover from True have "xss[w := xs] = take w xss @ xs # drop (Suc w) xss" by (simp add: upd_conv_take_nth_drop)
    ultimately have "mset (concat xss) = add_mset x (mset (concat (xss[w := xs])))"
      by (metis concat.simps(2) concat_append mset.simps(2) mset_append union_mset_add_mset_left
          union_mset_add_mset_right)
    with 2 True x show ?thesis by simp
  qed (use 2 in \<open>auto split: list.split\<close>)
qed simp

lemma sum_list_upt_lessThan: "sum_list (map f [0..<n]) = (\<Sum>i < n. f i :: nat)"
  by (simp add: interv_sum_list_conv_sum_set_nat atLeast0LessThan)

section \<open>Properties\<close>

text \<open>The report of a load run: whenever a response came, the line of latencies exists, every value
  in it was measured, the first and the last are the smallest and the largest, and the percentiles between them
  never decrease (index arithmetic in \<open>float64\<close> included), for any number of responses below \<open>2 ^ 49\<close>.\<close>

theorem report_percentiles:
  assumes "latencies t \<noteq> []" "length (latencies t) \<le> 2 ^ 49"
  shows "\<exists>lo a b c hi rest. report d t =
      Requests (okCount t + errCount t) (okCount t) (errCount t) d # Latency lo a b c hi # rest
    \<and> lo = Min (set (latencies t)) \<and> lo \<le> a \<and> a \<le> b \<and> b \<le> c \<and> c \<le> hi \<and> hi = Max (set (latencies t))
    \<and> {a, b, c} \<subseteq> set (latencies t)"
proof -
  define ls where "ls = sort (latencies t)"
  define n where "n = length ls - 1"
  have ls: "sorted ls" "set ls = set (latencies t)" "length ls = length (latencies t)" by (simp_all add: ls_def)
  with assms have n: "n < 2 ^ 49" "n < length ls" "ls \<noteq> []" by (auto simp: n_def)
  have idx: "pct_index p50 n \<le> pct_index p90 n" "pct_index p90 n \<le> pct_index p99 n" "pct_index p99 n \<le> n"
    using pct_index_order [OF n(1)] pct_index_p50 [of n] n(1) by simp_all
  have mono: "i \<le> j \<Longrightarrow> j \<le> n \<Longrightarrow> ls ! i \<le> ls ! j" for i j
    using ls(1) n(2) by (intro sorted_nth_mono) auto
  have mem: "i \<le> n \<Longrightarrow> ls ! i \<in> set (latencies t)" for i using n(2) ls(2) nth_mem by fastforce
  have lo: "ls ! 0 = Min (set (latencies t))"
  proof (rule Min_eqI [symmetric])
    show "ls ! 0 \<le> x" if "x \<in> set (latencies t)" for x
      using that ls(2) mono n(2) by (metis in_set_conv_nth le0 less_Suc_eq_le n_def Suc_pred' length_pos_if_in_set)
  qed (use mem in auto)
  have hi: "ls ! n = Max (set (latencies t))"
  proof (rule Max_eqI [symmetric])
    show "x \<le> ls ! n" if "x \<in> set (latencies t)" for x
      using that ls(2) mono n(2) by (metis in_set_conv_nth le_refl less_Suc_eq_le n_def Suc_pred' length_pos_if_in_set)
  qed (use mem in auto)
  have "\<exists>rest. report d t = Requests (okCount t + errCount t) (okCount t) (errCount t) d
      # Latency (ls ! 0) (ls ! pct_index p50 n) (ls ! pct_index p90 n) (ls ! pct_index p99 n) (ls ! n) # rest"
    using assms(1) by (auto simp: report_def Let_def ls_def n_def)
  then obtain rest where "report d t = Requests (okCount t + errCount t) (okCount t) (errCount t) d
      # Latency (ls ! 0) (ls ! pct_index p50 n) (ls ! pct_index p90 n) (ls ! pct_index p99 n) (ls ! n) # rest" ..
  then show ?thesis
    using lo hi idx mono mem by (intro exI conjI) auto
qed

definition sample_results :: "result list" where
  "sample_results = [\<lparr>latency = 30, rs_status = 202, rs_err = None\<rparr>, failed_result ErrContext,
     \<lparr>latency = 10, rs_status = 503, rs_err = None\<rparr>, \<lparr>latency = 20, rs_status = 202, rs_err = None\<rparr>]"

theorem report_percentiles_witness:
  "\<exists>a b c rest. report 1000 (collect sample_results) = Requests 4 2 2 1000 # Latency 10 a b c 30 # rest"
proof -
  have c: "collect sample_results = \<lparr>latencies = [30, 10, 20], okCount = 2, errCount = 2,
      statusCounts = [(202, 2), (503, 1)]\<rparr>"
    by (simp add: sample_results_def collect_def no_results_def collect_one_def failed_result_def)
  from report_percentiles [of "collect sample_results" 1000] show ?thesis by (auto simp: c)
qed

text \<open>C40. A load run whose workers all see the end of the time prints its report, and the report does not depend
  on how the results of the workers are interleaved in the channel: it is the report on the requests of the workers
  one after the other, worker \<open>w\<close> posting the pairs from number \<open>w\<close> on, round and round, and the total it
  prints is the number of requests sent.\<close>

theorem load_main_report:
  assumes "0 \<le> wrap64 (4 * lf_concurrency f)" "wrap64 (4 * lf_concurrency f) \<le> limit"
    and "\<And>w. w < nat (lf_concurrency f) \<Longrightarrow> time_up w (stop w) \<and> (\<forall>k < stop w. \<not> time_up w k)"
    and "pairs = strings_Split U (lf_pairs f) '',''"
    and "rs = concat (map (\<lambda>w. map (\<lambda>n. doPost X w (lf_url f) n (pairs ! ((w + n) mod length pairs))) [0..<stop w])
      [0..<nat (lf_concurrency f)])"
  shows "load_main limit U X time_up turns f = Some (Ok (report (lf_duration f) (collect rs)))
    \<and> okCount (collect rs) + errCount (collect rs) = int (\<Sum>w < nat (lf_concurrency f). stop w)"
proof
  let ?lists = "map (\<lambda>w. map (\<lambda>n. doPost X w (lf_url f) n (worker_pair pairs w n)) [0..<stop w])
    [0..<nat (lf_concurrency f)]"
  have "load_workers U X time_up f = map Some ?lists"
    using assms(3) by (auto simp: load_workers_def assms(4) intro!: load_worker_upto)
  then have "those (load_workers U X time_up f) = Some ?lists" by (simp only: those_map_Some)
  moreover have "make_chan limit (wrap64 (4 * lf_concurrency f)) = Ok ()"
    using assms(1,2) by (simp add: make_chan_def)
  moreover have rs: "rs = concat ?lists" by (simp add: assms(5) worker_pair_def)
  ultimately show "load_main limit U X time_up turns f = Some (Ok (report (lf_duration f) (collect rs)))"
    by (simp add: load_main_def report_cong [OF collect_tally collect_tally mset_interleave])
  have "okCount (collect rs) + errCount (collect rs) = int (length rs)"
    using collect_tally [of rs] by (simp add: tally_of_def)
  then show "okCount (collect rs) + errCount (collect rs) = int (\<Sum>w < nat (lf_concurrency f). stop w)"
    by (simp add: rs length_concat comp_def sum_list_upt_lessThan)
qed

definition sample_load :: load_client where
  "sample_load = \<lparr>http_NewRequest = \<lambda>_ _. None,
     client_Do = \<lambda>w n r. if w = 1 then Inl ErrContext else Inr (202, 10)\<rparr>"

theorem load_main_report_witness:
  "\<forall>U. load_main 1000 U sample_load (\<lambda>w n. n = 2) [1, 0, 1] (default_flags\<lparr>lf_concurrency := 2\<rparr>)
    = Some (Ok [Requests 4 2 2 (20 * Second), Latency 10 10 10 10 10, StatusCodes, StatusLine 202 2])"
proof
  fix U
  let ?f = "default_flags\<lparr>lf_concurrency := 2\<rparr>"
  let ?pairs = "strings_Split U (lf_pairs ?f) '',''"
  define post where "post = (\<lambda>w n. doPost sample_load w (lf_url ?f) n (?pairs ! ((w + n) mod length ?pairs)))"
  define rs where "rs = concat (map (\<lambda>w. map (post w) [0..<2]) [0..<nat (lf_concurrency ?f)])"
  have "wrap64 (4 * lf_concurrency ?f) = 8" by (simp add: default_flags_def wrap64_def)
  then have "load_main 1000 U sample_load (\<lambda>w n. n = 2) [1, 0, 1] ?f
      = Some (Ok (report (lf_duration ?f) (collect rs)))"
    using load_main_report [of ?f 1000 "\<lambda>w n. n = 2" "\<lambda>_. 2" ?pairs U rs sample_load "[1, 0, 1]"]
    by (simp add: rs_def post_def)
  moreover have post: "post w n = (if w = 1 then failed_result ErrContext
      else \<lparr>latency = 10, rs_status = 202, rs_err = None\<rparr>)" for w n
    by (simp add: post_def doPost_def sample_load_def finish_def json_Marshal_def)
  have "rs = [\<lparr>latency = 10, rs_status = 202, rs_err = None\<rparr>, \<lparr>latency = 10, rs_status = 202, rs_err = None\<rparr>,
      failed_result ErrContext, failed_result ErrContext]"
    by (simp add: rs_def post default_flags_def upt_rec)
  then have "collect rs = \<lparr>latencies = [10, 10], okCount = 2, errCount = 2, statusCounts = [(202, 2)]\<rparr>"
    by (simp add: collect_def no_results_def collect_one_def failed_result_def)
  ultimately show "load_main 1000 U sample_load (\<lambda>w n. n = 2) [1, 0, 1] ?f
      = Some (Ok [Requests 4 2 2 (20 * Second), Latency 10 10 10 10 10, StatusCodes, StatusLine 202 2])"
    by (simp add: report_def pct_index_def p50_def p90_def p99_def default_flags_def)
qed

end
