(* ===== verification/Wire.thy ===== *)
theory Wire
  imports Samples Throughput
begin

text \<open>
  What goes over the wire: the text of a response read back by a client, and the requests of
  \<open>cmd/throughput\<close> served by the router of \<open>internal/api/http\<close>.
\<close>

section \<open>The text of a response\<close>

lemma members_ok_rate [simp]: "members_ok (rate_members T d)" "members_depth (rate_members T d) = 0"
proof -
  have "list_all plain_name (map fst (rate_members T d))"
    by (simp add: rate_members_def) code_simp
  then have "list_all (\<lambda>m. raw_ok (fst m)) (rate_members T d)" by (auto simp: list_all_iff plain_string)
  then show "members_ok (rate_members T d)" "members_depth (rate_members T d) = 0"
    by (simp_all add: rate_members_def)
qed

lemma response_names: "list_all raw_ok [''update_id'', ''pair'', ''status'', ''created_at'', ''code'', ''message'',
    ''error'', ''cached'', ''attempts'']"
  by code_simp

lemma response_json_ok: "json_ok (JObj (body_members T b))" "json_depth (JObj (body_members T b)) \<le> 2"
  using response_names
  by (cases b; auto simp: create_members_def update_members_def error_json_def split: option.split)+

lemma Encode_read:
  assumes "Encode time_text b = Some x"
  shows "Unmarshal_value x = Some (JObj (body_members (\<lambda>t. the (time_text t)) b))"
proof -
  have x: "x = print_json (JObj (body_members (\<lambda>t. the (time_text t)) b)) @ [char_of (10 :: nat)]"
    using assms by (simp add: Encode_def split: if_splits)
  have nl: "list_all json_space [char_of (10 :: nat)]" by (simp add: json_space_def byte_char_of)
  show ?thesis
    unfolding x by (rule Unmarshal_object [OF response_json_ok(1) _ nl])
      (use response_json_ok(2) [of "\<lambda>t. the (time_text t)" b] in \<open>simp add: maxNestingDepth_def\<close>)
qed

text \<open>What a client finds under a name.\<close>

definition text_member :: "(string \<times> json) list \<Rightarrow> string \<Rightarrow> string option" where
  "text_member ms name = (case map_of ms name of Some (JStr s) \<Rightarrow> Some (unquote s) | _ \<Rightarrow> None)"

lemma response_members:
  assumes "ms = update_members T (newUpdateStatusResponse F req rate)"
  shows "distinct (map fst ms)"
    "text_member ms ''price'' = map_option (to_valid \<circ> F \<circ> Value) rate"
    "text_member ms ''quoted_at'' = map_option (to_valid \<circ> T \<circ> QuotedAt) rate"
    "text_member ms ''fetched_at'' = map_option (to_valid \<circ> T \<circ> FetchedAt) rate"
    "text_member ms ''provider'' = map_option (to_valid \<circ> Provider) rate"
    "text_member ms ''quality'' = map_option (to_valid \<circ> Quality) rate"
    "map_of ms ''derived'' = map_option (JBool \<circ> Derived) rate"
    "map_of ms ''indicative'' = map_option (JBool \<circ> Indicative) rate"
  unfolding assms
  by (auto simp: update_members_def rate_members_def text_member_def json_of_string_def unquote_json_string
      newUpdateStatusResponse_def newQuoteRateDTO_def Let_def split: option.split)

text \<open>C27. The text of a GET /quotes/updates/{id} answer is a JSON object in which a polling client finds each
  member once: the identifier, pair and status of the update; price, times, provider, quality and the two flags
  of the quote exactly when there is one; the cached flag exactly when the update succeeded; and exactly when it failed
  its error, that is its code and the message that is safe for clients, and its attempts unless they are 0.\<close>

theorem update_text_read:
  assumes "Encode time_text (UpdateBody (newUpdateStatusResponse F req rate)) = Some x"
  shows "\<exists>ms. Unmarshal_value x = Some (JObj ms) \<and> distinct (map fst ms)
    \<and> text_member ms ''update_id'' = Some (to_valid (uuid_String (ID req)))
    \<and> text_member ms ''pair'' = Some (to_valid (Pair_String (Pair req)))
    \<and> text_member ms ''status'' = Some (to_valid (status_string (Status req)))
    \<and> text_member ms ''price'' = map_option (to_valid \<circ> F \<circ> Value) rate
    \<and> text_member ms ''quoted_at'' = map_option (to_valid \<circ> (\<lambda>t. the (time_text t)) \<circ> QuotedAt) rate
    \<and> text_member ms ''fetched_at'' = map_option (to_valid \<circ> (\<lambda>t. the (time_text t)) \<circ> FetchedAt) rate
    \<and> text_member ms ''provider'' = map_option (to_valid \<circ> Provider) rate
    \<and> text_member ms ''quality'' = map_option (to_valid \<circ> Quality) rate
    \<and> map_of ms ''derived'' = map_option (JBool \<circ> Derived) rate
    \<and> map_of ms ''indicative'' = map_option (JBool \<circ> Indicative) rate
    \<and> map_of ms ''cached'' = (if Status req = StatusSucceeded then Some (JBool (Reused req)) else None)
    \<and> map_of ms ''attempts'' =
        (if Status req = StatusFailed \<and> Attempts req \<noteq> 0 then Some (json_of_int (Attempts req)) else None)
    \<and> (case map_of ms ''error'' of
         None \<Rightarrow> Status req \<noteq> StatusFailed
       | Some e \<Rightarrow> Status req = StatusFailed \<and> (\<exists>es. e = JObj es
           \<and> text_member es ''code'' = Some (to_valid (ErrorCode req))
           \<and> text_member es ''message'' = Some (to_valid (safeErrorMessage (ErrorCode req)))))"
proof -
  let ?ms = "update_members (\<lambda>t. the (time_text t)) (newUpdateStatusResponse F req rate)"
  note members = response_members [OF refl, where T = "\<lambda>t. the (time_text t)" and F = F and req = req and rate = rate]
  have "text_member ?ms ''update_id'' = Some (to_valid (uuid_String (ID req)))"
    "text_member ?ms ''pair'' = Some (to_valid (Pair_String (Pair req)))"
    "text_member ?ms ''status'' = Some (to_valid (status_string (Status req)))"
    "map_of ?ms ''cached'' = (if Status req = StatusSucceeded then Some (JBool (Reused req)) else None)"
    "map_of ?ms ''attempts'' =
      (if Status req = StatusFailed \<and> Attempts req \<noteq> 0 then Some (json_of_int (Attempts req)) else None)"
    "map_of ?ms ''error'' =
      (if Status req = StatusFailed then Some (error_json (ErrorCode req) (safeErrorMessage (ErrorCode req))) else None)"
    by (auto simp: update_members_def rate_members_def text_member_def json_of_string_def unquote_json_string
      newUpdateStatusResponse_def Let_def split: option.split)
  with members show ?thesis unfolding Encode_read [OF assms]
    by (intro exI [of _ ?ms] conjI)
      (simp_all add: error_json_def text_member_def json_of_string_def unquote_json_string)
qed

definition answered_req :: CurrencyRateUpdateRequest where
  "answered_req = claimed_req\<lparr>Status := StatusSucceeded, Reused := True\<rparr>"

theorem update_text_read_witness:
  "\<exists>x ms. Encode (\<lambda>t. Some (itoa t)) (UpdateBody (newUpdateStatusResponse itoa answered_req (Some sample_rate))) = Some x
     \<and> Unmarshal_value x = Some (JObj ms) \<and> text_member ms ''status'' = Some ''succeeded''
     \<and> text_member ms ''quoted_at'' = Some (to_valid (itoa 2000)) \<and> text_member ms ''provider'' = Some ''fake''
     \<and> map_of ms ''derived'' = Some (JBool False) \<and> map_of ms ''cached'' = Some (JBool True) \<and> map_of ms ''error'' = None"
proof -
  let ?r = "newUpdateStatusResponse itoa answered_req (Some sample_rate)"
  have "list_all (\<lambda>t. Some (itoa t) \<noteq> None) (body_times (UpdateBody ?r))" by (simp add: list_all_iff)
  then obtain x where x: "Encode (\<lambda>t. Some (itoa t)) (UpdateBody ?r) = Some x" by (simp add: Encode_def)
  have "to_valid ''fake'' = ''fake''" "to_valid ''succeeded'' = ''succeeded''"
    by (rule plain_string(3), code_simp)+
  with update_text_read [OF x] x show ?thesis
    by (auto simp: answered_req_def sample_rate_def split: option.splits)
qed

section \<open>A POST through the router\<close>

text \<open>The status of a response does not depend on the headers set before.\<close>

lemma wire_status_of:
  assumes "rs_codes w = []"
  shows "wire_status (writeJSON c b w) = c" "wire_status (writeError c m t w) = c" "wire_status (internal_error w) = 500"
    "wire_status (writeJSON c b (set_header k v w)) = c" "rs_codes (set_header k v w) = []"
  using assms by (simp_all add: writeJSON_def writeError_def internal_error_def wire_status_def write_header_def
      set_header_def Let_def)

lemma post_status_headers:
  assumes "rs_codes w = []" "postQuotesUpdatesHandler E rq s w = (res, s', w1)"
  shows "\<exists>w2. postQuotesUpdatesHandler E rq s new_response = (res, s', w2) \<and> (res = Ok () \<longrightarrow> wire_status w1 = wire_status w2)"
  using assms
  by (auto simp: postQuotesUpdatesHandler_def Let_def wire_status_of split: decoded.splits prod.splits gores.splits if_splits)

lemma NewRouter_POST:
  assumes "rq_method rq = ''POST''" "rq_path rq = [''api'', ''v1'', ''quotes'', ''updates'']"
    and "NewRouter E origins rq s new_response = (res, s', w')"
  obtains rq1 s1 res2 s2 w2 where "rq_body rq1 = rq_body rq" "rq_header rq1 = rq_header rq"
    "s1 = s \<or> s1 = s\<lparr>sv_turn := sv_turn s + 1\<rparr>"
    "postQuotesUpdatesHandler E rq1 s1 new_response = (res2, s2, w2)" "sv_repo s' = sv_repo s2"
    "res = Ok ()" "wire_status w' = (if res2 = Ok () then wire_status w2 else 500)"
proof -
  let ?i0 = "rq_header rq ''X-Request-Id''"
  define w1 where "w1 = (if rq_header rq ''Origin'' \<noteq> [] \<and> (origins = [] \<or> rq_header rq ''Origin'' \<in> set origins)
      then set_header ''Vary'' ''Origin'' (set_header ''Access-Control-Allow-Origin'' (rq_header rq ''Origin'') new_response)
      else new_response)"
  define i where "i = (if \<not> validRequestID ?i0 then uuid_String (sv_ids s (sv_turn s)) else ?i0)"
  define s1 where "s1 = (if \<not> validRequestID ?i0 then s\<lparr>sv_turn := sv_turn s + 1\<rparr> else s)"
  define v where "v = set_header ''X-Request-Id'' i w1"
  have v: "rs_codes v = []" by (auto simp: v_def w1_def set_header_def new_response_def)
  obtain res2 s2 w3 where p: "postQuotesUpdatesHandler E (rq\<lparr>rq_id := i\<rparr>) s1 v = (res2, s2, w3)" by (metis prod.collapse)
  from post_status_headers [OF v p] obtain w2 where w2:
    "postQuotesUpdatesHandler E (rq\<lparr>rq_id := i\<rparr>) s1 new_response = (res2, s2, w2)"
    "res2 = Ok () \<longrightarrow> wire_status w3 = wire_status w2" by blast
  have "answers v (res2, s2, w3)" using post_answers [of v E "rq\<lparr>rq_id := i\<rparr>" s1] p by simp
  then have r: "res2 = Panic \<and> w3 = v \<or> res2 = Ok ()" by (auto simp: answers_def)
  have "NewRouter E origins rq s new_response
      = recoverMiddleware (loggingMiddleware (mux E)) (rq\<lparr>rq_id := i\<rparr>) s1 v"
    using assms(1) by (simp add: NewRouter_def corsMiddleware_def requestIDMiddleware_def Let_def w1_def i_def s1_def v_def)
  with assms p have "(res, s', w') = (case (res2, s2, w3) of
      (Ok _, t, w) \<Rightarrow> (Ok (), t\<lparr>sv_log := sv_log t @ [(''POST'', rq_path rq, recorded_status v w, i)]\<rparr>, w)
    | (_, t, w) \<Rightarrow> (Ok (), t, internal_error w))"
    using r by (auto simp: recoverMiddleware_def loggingMiddleware_def mux_def)
  with r w2(2) v have "res = Ok ()" "sv_repo s' = sv_repo s2" "wire_status w' = (if res2 = Ok () then wire_status w2 else 500)"
    by (auto simp: wire_status_of)
  with w2(1) show thesis
    by (intro that [of "rq\<lparr>rq_id := i\<rparr>" s1 res2 s2 w2]) (simp_all add: s1_def)
qed

section \<open>The load generator against the server\<close>

lemma Marshal_pair: "json_Marshal [(''pair'', p)] = Inr (print_json (JObj [(''pair'', json_of_string p)]))"
proof -
  have "quote_json ''pair'' = ''pair''" by (rule plain_string) code_simp
  then show ?thesis by (simp add: json_Marshal_def)
qed

lemma decode_pair:
  "decode_createUpdateRequest (print_json (JObj [(''pair'', json_of_string p)])) =
    (if length (print_json (JObj [(''pair'', json_of_string p)])) \<le> maxCreateUpdateBodyBytes
     then Decoded (to_valid p) else TooLarge)"
proof -
  have plain: "plain_name ''pair''" by code_simp
  have ok: "json_ok (JObj [(''pair'', json_of_string p)])"
    "json_depth (JObj [(''pair'', json_of_string p)]) \<le> maxNestingDepth"
    using plain_string(4) [OF plain] by (simp_all add: maxNestingDepth_def)
  have "createUpdateRequest_fields [(''pair'', json_of_string p)] (Some []) = Some (to_valid p)"
    by (simp add: same_name_plain [OF plain] json_of_string_def unquote_json_string)
  with Decoder_Decode_object [OF ok] show ?thesis by (simp add: decode_createUpdateRequest_def)
qed

text \<open>The request of the load generator as it reaches the router of the server at \<open>url\<close>: its path is what follows
  that base in the URL of the request.\<close>

definition received :: "string \<Rightarrow> post_request \<Rightarrow> request" where
  "received url r = \<lparr>rq_method = pr_Method r, rq_path = tl (genSplit (drop (length url) (pr_URL r)) ''/''),
     rq_query = (\<lambda>k. []), rq_header = (\<lambda>k. if k = ''Content-Type'' then pr_ContentType r else []),
     rq_body = pr_Body r, rq_id = []\<rparr>"

lemma updates_path: "genSplit ''/api/v1/quotes/updates'' ''/'' = [[], ''api'', ''v1'', ''quotes'', ''updates'']"
  by code_simp

definition load_body :: "string \<Rightarrow> string" where
  "load_body pair = print_json (JObj [(''pair'', json_of_string pair)])"

definition load_status :: "unicode \<Rightarrow> string \<Rightarrow> int" where
  "load_status U pair =
     (if 4096 < length (load_body pair) then 413
      else if pair = [] then 400
      else case ParseCurrencyPair U (to_valid pair) ''/'' of
             Ok p \<Rightarrow> 202
           | _ \<Rightarrow> if well_shaped U (to_valid pair) then 422 else 400)"

lemmas Marshal_load_body = Marshal_pair [folded load_body_def]
lemmas decode_load_body = decode_pair [folded load_body_def]

lemma to_valid_Nil: "to_valid s = [] \<longleftrightarrow> s = []"
  by (induction s rule: utf8_induct)
    (auto simp: to_valid_wide rune_error_def utf8_encode_def bytes_of_def)

text \<open>C28. The load generator and the server agree: a request of \<open>cmd/throughput\<close>, JSON text and all, is answered
  by the server's router with 202 exactly for a pair it accepts, 413 when its body is over the limit, 400 and 422
  for what is malformed and what is not on the allow-list; bytes of the pair that are not UTF-8 reach the server
  as replacement characters.\<close>

theorem load_generator_served:
  assumes "mem_inv (sv_repo s)" "store_ok (mem_abs (sv_repo s))"
    and "ids_fresh (\<lambda>i. map_of (records (sv_repo s)) i \<noteq> None) s"
    and "\<And>r. client_Do X w n r =
      Inr (wire_status (snd (snd (NewRouter (E\<lparr>he_repo := mem_ops\<rparr>) origins (received url r) s new_response))), t)"
    and "http_NewRequest X ''POST'' (url @ ''/api/v1/quotes/updates'') = None"
  shows "doPost X w url n pair = \<lparr>latency = t, rs_status = load_status (he_unicode E) pair, rs_err = None\<rparr>"
proof -
  let ?E = "E\<lparr>he_repo := mem_ops\<rparr>"
  define r where "r = \<lparr>pr_Method = ''POST'', pr_URL = url @ ''/api/v1/quotes/updates'', pr_Body = load_body pair,
      pr_ContentType = ''application/json''\<rparr>"
  obtain res s' w' where run: "NewRouter ?E origins (received url r) s new_response = (res, s', w')" by (metis prod.collapse)
  have rq: "rq_method (received url r) = ''POST''" "rq_path (received url r) = [''api'', ''v1'', ''quotes'', ''updates'']"
    "rq_body (received url r) = load_body pair" "rq_header (received url r) ''Idempotency-Key'' = []"
    by (simp_all add: received_def r_def updates_path)
  from NewRouter_POST [OF rq(1,2) run] obtain rq1 s1 res2 s2 w2 where
    p: "rq_body rq1 = load_body pair" "rq_header rq1 ''Idempotency-Key'' = []" "s1 = s \<or> s1 = s\<lparr>sv_turn := sv_turn s + 1\<rparr>"
      "postQuotesUpdatesHandler ?E rq1 s1 new_response = (res2, s2, w2)"
    and w': "wire_status w' = (if res2 = Ok () then wire_status w2 else 500)"
    using rq by metis
  have s1: "mem_inv (sv_repo s1)" "store_ok (mem_abs (sv_repo s1))" "sv_repo s1 = sv_repo s"
    "st_rows (mem_abs (sv_repo s1)) (sv_ids s1 (sv_turn s1)) = None"
    using p(3) assms(1-3) by (auto simp: ids_fresh_def)
  note e = mem_api.post_effect [OF s1(1,2,4) p(4)]
  have status: "wire_status w2 = post_status (he_unicode E) (mem_abs (sv_repo s1))
      (decode_createUpdateRequest (load_body pair)) []"
  proof -
    have False if "RequestUpdate mem_ops (he_clock E) (he_unicode E) (sv_ids s1 (sv_turn s1)) (sv_repo s1)
        (sv_clock s1) raw [] = (Err x, q, c)" "infra x" for raw x q c
      using mem_RequestUpdate_not_infra [OF that(1)] that(2) by blast
    with e p(1,2) show ?thesis by auto
  qed
  have "post_status (he_unicode E) S (decode_createUpdateRequest (load_body pair)) []
      = load_status (he_unicode E) pair" for S :: "'d store"
    by (auto simp: decode_load_body post_status_def load_status_def maxCreateUpdateBodyBytes_def
        to_valid_Nil key_used_def split: gores.split)
  with status have status2: "wire_status w2 = load_status (he_unicode E) pair" by simp
  have "load_status (he_unicode E) pair \<noteq> 200" by (auto simp: load_status_def split: gores.split)
  then have "res2 = Ok ()"
    using post_answers [of new_response ?E rq1 s1] p(4) status2 by (auto simp: answers_def wire_status_def new_response_def)
  then have "wire_status w' = load_status (he_unicode E) pair" using w' status2 by simp
  with assms(4,5) run show ?thesis
    by (simp add: doPost_def Marshal_load_body r_def finish_def)
qed

theorem load_generator_served_witness:
  "doPost \<lparr>http_NewRequest = (\<lambda>_ _. None), client_Do = (\<lambda>w n r. Inr (wire_status (snd (snd (NewRouter sample_env []
       (received ''http://localhost:8080'' r) (sample_server NewRepository) new_response))), 7))\<rparr> 0 ''http://localhost:8080'' 0 ''eur/MXN''
   = \<lparr>latency = 7, rs_status = 202, rs_err = None\<rparr>"
proof -
  let ?X = "\<lparr>http_NewRequest = (\<lambda>_ _. None), client_Do = (\<lambda>w n r. Inr (wire_status (snd (snd (NewRouter sample_env []
       (received ''http://localhost:8080'' r) (sample_server NewRepository) new_response))), 7))\<rparr> :: load_client"
  have plain: "plain_name ''eur/MXN''" by code_simp
  have "load_status U ''eur/MXN'' = 202" for U
    by (simp add: load_status_def load_body_def json_of_string_def plain_string [OF plain] sample_parse)
  moreover have "ids_fresh (\<lambda>i. map_of (records (sv_repo (sample_server NewRepository))) i \<noteq> None)
      (sample_server NewRepository)"
    by (simp add: ids_fresh_def sample_server_def NewRepository_def)
  moreover have "sv_repo (sample_server NewRepository) = NewRepository" by (simp add: sample_server_def)
  ultimately show ?thesis
    using load_generator_served [of "sample_server NewRepository" ?X 0 0 sample_env "[]"
        "''http://localhost:8080''" 7 "''eur/MXN''"]
    by (simp add: mem_inv_New mem_abs_New store_ok_empty)
qed

end
