(* ===== verification/Config.thy ===== *)
theory Config
  imports Float64
begin

text \<open>
  \<open>internal/config/config.go\<close>: the configuration, its defaults, and \<open>Load\<close>, which reads it
  from the environment and the command line. The parts of the standard library that decide what a
  value means are written out: \<open>time.ParseDuration\<close>, \<open>strconv.Atoi\<close> (in the prelude)
  and the parsing loop of \<open>flag\<close>.
\<close>

section \<open>time.ParseDuration\<close>

text \<open>Leading digits as a number below or at \<open>2 ^ 63\<close> and the rest; \<open>None\<close> on overflow.\<close>

fun leadingInt :: "nat \<Rightarrow> string \<Rightarrow> (nat \<times> string) option" where
  "leadingInt x [] = Some (x, [])"
| "leadingInt x (c # cs) =
     (if \<not> is_digit c then Some (x, c # cs)
      else if 2 ^ 63 div 10 < x then None
      else let y = x * 10 + (byte c - 48) in if 2 ^ 63 < y then None else leadingInt y cs)"

text \<open>Digits of a fraction: their value, how many were used and the rest; digits that would
  overflow are skipped.\<close>

fun leadingFraction :: "bool \<Rightarrow> nat \<Rightarrow> nat \<Rightarrow> string \<Rightarrow> nat \<times> nat \<times> string" where
  "leadingFraction overflow x k [] = (x, k, [])"
| "leadingFraction overflow x k (c # cs) =
     (if \<not> is_digit c then (x, k, c # cs)
      else if overflow \<or> (2 ^ 63 - 1) div 10 < x then leadingFraction True x k cs
      else let y = x * 10 + (byte c - 48)
           in if 2 ^ 63 < y then leadingFraction True x k cs else leadingFraction False y (k + 1) cs)"

definition unitMap :: "(string \<times> nat) list" where
  "unitMap = [(''ns'', 1), (''us'', 1000), ([CHR 0xC2, CHR 0xB5, CHR ''s''], 1000),
     ([CHR 0xCE, CHR 0xBC, CHR ''s''], 1000), (''ms'', 1000000), (''s'', 1000000000),
     (''m'', 60000000000), (''h'', 3600000000000)]"

text \<open>\<open>scale *= 10\<close>, \<open>k\<close> times from \<open>1.0\<close>: exact up to \<open>10 ^ 22\<close>, rounded beyond.\<close>

fun fraction_scale :: "nat \<Rightarrow> nat" where
  "fraction_scale 0 = 1"
| "fraction_scale (Suc k) = round53 (fraction_scale k * 10)"

text \<open>
  \<open>uint64(float64(f) * (float64(unit) / scale))\<close>: the quotient is rounded from 128 binary
  places and a sticky bit, the product at the same scale. Where a fraction has so many digits that
  this is not enough, the result is below one nanosecond and truncates to zero.
\<close>

definition fraction_ns :: "nat \<Rightarrow> nat \<Rightarrow> nat \<Rightarrow> nat" where
  "fraction_ns f k unit =
     (let n = unit * 2 ^ 128; s = fraction_scale k;
          q = round53 (2 * (n div s) + (if n mod s = 0 then 0 else 1))
      in round53 (round53 f * q) div 2 ^ 129)"

definition is_unit_char :: "char \<Rightarrow> bool" where
  "is_unit_char c \<longleftrightarrow> \<not> (c = CHR ''.'' \<or> is_digit c)"

text \<open>One round of the loop: a number, an optional fraction and a unit, in nanoseconds.\<close>

definition duration_term :: "string \<Rightarrow> (nat \<times> string) option" where
  "duration_term s =
     (if s = [] \<or> is_unit_char (hd s) then None
      else case leadingInt 0 s of
             None \<Rightarrow> None
           | Some (v, s1) \<Rightarrow>
               let pre = length s1 \<noteq> length s;
                   (f, k, s2) = (if s1 \<noteq> [] \<and> hd s1 = CHR ''.'' then leadingFraction False 0 0 (tl s1)
                                 else (0, 0, s1));
                   post = s1 \<noteq> [] \<and> hd s1 = CHR ''.'' \<and> length s2 \<noteq> length (tl s1);
                   u = takeWhile is_unit_char s2; s3 = dropWhile is_unit_char s2
               in if \<not> pre \<and> \<not> post then None
                  else if u = [] then None
                  else case map_of unitMap u of
                         None \<Rightarrow> None
                       | Some unit \<Rightarrow>
                           if 2 ^ 63 div unit < v then None
                           else let w = v * unit + (if 0 < f then fraction_ns f k unit else 0)
                                in if 0 < f \<and> 2 ^ 63 < w then None else Some (w, s3))"

lemma leadingInt_length: "leadingInt x s = Some (v, r) \<Longrightarrow> length r \<le> length s"
  by (induction x s rule: leadingInt.induct) (auto simp: Let_def split: if_splits)

lemma leadingFraction_length_aux: "length (snd (snd (leadingFraction b x k s))) \<le> length s"
proof (induction s arbitrary: b x k)
  case (Cons c cs)
  have "length (snd (snd (leadingFraction b' x' k' cs))) \<le> length (c # cs)" for b' x' k'
    using Cons.IH [of b' x' k'] by simp
  then show ?case by (simp only: leadingFraction.simps Let_def split: if_split) simp
qed simp

lemma leadingFraction_length: "leadingFraction b x k s = (f, j, r) \<Longrightarrow> length r \<le> length s"
  using leadingFraction_length_aux [of b x k s] by simp

lemma duration_term_length:
  assumes "duration_term s = Some (w, r)"
  shows "length r < length s"
proof -
  obtain v s1 where s1: "leadingInt 0 s = Some (v, s1)"
    using assms by (auto simp: duration_term_def split: if_splits option.splits)
  obtain f k s2 where s2: "(if s1 \<noteq> [] \<and> hd s1 = CHR ''.'' then leadingFraction False 0 0 (tl s1)
      else (0, 0, s1)) = (f, k, s2)" by (metis prod_cases3)
  have "length s2 \<le> length s1"
    using s2 leadingFraction_length by (fastforce split: if_splits)
  moreover have "takeWhile is_unit_char s2 \<noteq> []" "r = dropWhile is_unit_char s2"
    using assms s1 s2 by (auto simp: duration_term_def Let_def split: if_splits option.splits)
  then have "length r < length s2"
    using takeWhile_dropWhile_id [of is_unit_char s2] by (metis length_append length_greater_0_conv less_add_same_cancel2)
  ultimately show ?thesis using leadingInt_length [OF s1] by simp
qed

function duration_terms :: "nat \<Rightarrow> string \<Rightarrow> nat option" where
  "duration_terms d s =
     (if s = [] then Some d
      else case duration_term s of
             None \<Rightarrow> None
           | Some (w, r) \<Rightarrow>
               let d' = (d + w) mod 2 ^ 64 in if 2 ^ 63 < d' then None else duration_terms d' r)"
  by pat_completeness auto
termination
  by (relation "measure (\<lambda>(d, s). length s)") (auto simp: Let_def dest: duration_term_length)

declare duration_terms.simps [simp del]

definition time_ParseDuration :: "string \<Rightarrow> duration option" where
  "time_ParseDuration s0 =
     (let neg = (s0 \<noteq> [] \<and> hd s0 = CHR ''-'');
          s = (if s0 \<noteq> [] \<and> (hd s0 = CHR ''-'' \<or> hd s0 = CHR ''+'') then tl s0 else s0)
      in if s = ''0'' then Some 0
         else if s = [] then None
         else case duration_terms 0 s of
                None \<Rightarrow> None
              | Some d \<Rightarrow> if neg then Some (- int d) else if 2 ^ 63 - 1 < d then None else Some (int d))"

section \<open>Configuration and defaults\<close>

datatype config_error =
  InvalidValue string string
| NotPositive string string
| Negative string string
| InvalidLogLevel string
| InvalidProvider string
| InvalidStorage string
| MissingDatabaseURL
| VisibilityTooShort duration duration
| TooFewConns int int
| FlagBadSyntax string
| FlagHelp
| FlagUndefined string
| FlagNeedsArgument string

record Config =
  cfg_HTTPAddr :: string
  cfg_ReadTimeout :: duration
  cfg_ReadHeaderTimeout :: duration
  cfg_WriteTimeout :: duration
  cfg_IdleTimeout :: duration
  cfg_ShutdownTimeout :: duration
  cfg_LogLevel :: int
  cfg_Provider :: string
  cfg_Storage :: string
  cfg_DatabaseURL :: string
  cfg_PostgresMaxConns :: int
  cfg_PostgresMaxConnLifetime :: duration
  cfg_PostgresHealthCheckPeriod :: duration
  cfg_QuoteTTL :: duration
  cfg_RateLimitPerMinute :: int
  cfg_RateLimitPerHour :: int
  cfg_DispatchTickInterval :: duration
  cfg_DispatchBatchSize :: int
  cfg_DispatchPoolSize :: int
  cfg_DispatchVisibilityTimeout :: duration
  cfg_DispatchBaseBackoff :: duration
  cfg_DispatchMaxBackoff :: duration
  cfg_DispatchMaxAttempts :: int
  cfg_DispatchMaxLifetime :: duration
  cfg_DispatchPassTimeout :: duration
  cfg_ProviderHTTPTimeout :: duration
  cfg_ProviderHTTPMaxIdleConnsPerHost :: int
  cfg_ProviderHTTPIdleConnTimeout :: duration
  cfg_FakeProviderMinDelay :: duration
  cfg_FakeProviderMaxDelay :: duration
  cfg_FakeProviderRPMQuota :: int
  cfg_CORSAllowedOrigins :: "string list"

definition ProviderFake :: string where "ProviderFake = ''fake''"
definition ProviderExchangerateDev :: string where "ProviderExchangerateDev = ''exchangeratedev''"
definition StoragePostgres :: string where "StoragePostgres = ''postgres''"

definition Provider_valid :: "string \<Rightarrow> bool" where
  "Provider_valid p \<longleftrightarrow> p = ProviderFake \<or> p = ProviderExchangerateDev"

definition Storage_valid :: "string \<Rightarrow> bool" where
  "Storage_valid s \<longleftrightarrow> s = StoragePostgres"

definition default_config :: Config where
  "default_config =
     \<lparr>cfg_HTTPAddr = '':8080'', cfg_ReadTimeout = 5 * Second, cfg_ReadHeaderTimeout = 5 * Second,
      cfg_WriteTimeout = 10 * Second, cfg_IdleTimeout = 60 * Second, cfg_ShutdownTimeout = 10 * Second,
      cfg_LogLevel = 0, cfg_Provider = ProviderExchangerateDev, cfg_Storage = StoragePostgres,
      cfg_DatabaseURL = [], cfg_PostgresMaxConns = 0, cfg_PostgresMaxConnLifetime = 0,
      cfg_PostgresHealthCheckPeriod = 0, cfg_QuoteTTL = 5 * Minute, cfg_RateLimitPerMinute = 12,
      cfg_RateLimitPerHour = 100, cfg_DispatchTickInterval = 5 * Second, cfg_DispatchBatchSize = 100,
      cfg_DispatchPoolSize = 8, cfg_DispatchVisibilityTimeout = 120 * Second,
      cfg_DispatchBaseBackoff = 5 * Second, cfg_DispatchMaxBackoff = 5 * Minute,
      cfg_DispatchMaxAttempts = 10, cfg_DispatchMaxLifetime = Hour,
      cfg_DispatchPassTimeout = 90 * Second, cfg_ProviderHTTPTimeout = 5 * Second,
      cfg_ProviderHTTPMaxIdleConnsPerHost = 8, cfg_ProviderHTTPIdleConnTimeout = 90 * Second,
      cfg_FakeProviderMinDelay = 0, cfg_FakeProviderMaxDelay = 0, cfg_FakeProviderRPMQuota = 0,
      cfg_CORSAllowedOrigins = []\<rparr>"

section \<open>Reading one variable\<close>

definition durationEnv ::
  "(string \<Rightarrow> string) \<Rightarrow> string \<Rightarrow> duration \<Rightarrow> (config_error, duration) gores" where
  "durationEnv getenv name def =
     (let v = getenv name
      in if v = [] then Ok def
         else case time_ParseDuration v of
                None \<Rightarrow> Err (InvalidValue name v)
              | Some d \<Rightarrow> if d \<le> 0 then Err (NotPositive name v) else Ok d)"

definition nonNegativeDurationEnv ::
  "(string \<Rightarrow> string) \<Rightarrow> string \<Rightarrow> duration \<Rightarrow> (config_error, duration) gores" where
  "nonNegativeDurationEnv getenv name def =
     (let v = getenv name
      in if v = [] then Ok def
         else case time_ParseDuration v of
                None \<Rightarrow> Err (InvalidValue name v)
              | Some d \<Rightarrow> if d < 0 then Err (Negative name v) else Ok d)"

definition intEnv ::
  "(string \<Rightarrow> string) \<Rightarrow> string \<Rightarrow> int \<Rightarrow> (config_error, int) gores" where
  "intEnv getenv name def =
     (let v = getenv name
      in if v = [] then Ok def
         else case strconv_Atoi v of
                None \<Rightarrow> Err (InvalidValue name v)
              | Some n \<Rightarrow> if n \<le> 0 then Err (NotPositive name v) else Ok n)"

definition nonNegativeIntEnv ::
  "(string \<Rightarrow> string) \<Rightarrow> string \<Rightarrow> int \<Rightarrow> (config_error, int) gores" where
  "nonNegativeIntEnv getenv name def =
     (let v = getenv name
      in if v = [] then Ok def
         else case strconv_Atoi v of
                None \<Rightarrow> Err (InvalidValue name v)
              | Some n \<Rightarrow> if n < 0 then Err (Negative name v) else Ok n)"

definition parseLogLevel :: "unicode \<Rightarrow> string \<Rightarrow> (config_error, int) gores" where
  "parseLogLevel U v =
     (let l = strings_ToLower U v
      in if l = ''debug'' then Ok (- 4)
         else if l = ''info'' then Ok 0
         else if l = ''warn'' \<or> l = ''warning'' then Ok 4
         else if l = ''error'' then Ok 8
         else Err (InvalidLogLevel v))"

section \<open>The tables of variables\<close>

text \<open>A row of the tables of \<open>Load\<close>: a variable and its field, as a getter and an updater.\<close>

type_synonym 'a field = "string \<times> (Config \<Rightarrow> 'a) \<times> (('a \<Rightarrow> 'a) \<Rightarrow> Config \<Rightarrow> Config)"

definition duration_fields :: "duration field list" where
  "duration_fields =
     [(''HTTP_READ_TIMEOUT'', cfg_ReadTimeout, cfg_ReadTimeout_update),
      (''HTTP_READ_HEADER_TIMEOUT'', cfg_ReadHeaderTimeout, cfg_ReadHeaderTimeout_update),
      (''HTTP_WRITE_TIMEOUT'', cfg_WriteTimeout, cfg_WriteTimeout_update),
      (''HTTP_IDLE_TIMEOUT'', cfg_IdleTimeout, cfg_IdleTimeout_update),
      (''HTTP_SHUTDOWN_TIMEOUT'', cfg_ShutdownTimeout, cfg_ShutdownTimeout_update),
      (''QUOTE_TTL'', cfg_QuoteTTL, cfg_QuoteTTL_update),
      (''DISPATCH_TICK_INTERVAL'', cfg_DispatchTickInterval, cfg_DispatchTickInterval_update),
      (''DISPATCH_VISIBILITY_TIMEOUT'', cfg_DispatchVisibilityTimeout,
        cfg_DispatchVisibilityTimeout_update),
      (''DISPATCH_BASE_BACKOFF'', cfg_DispatchBaseBackoff, cfg_DispatchBaseBackoff_update),
      (''DISPATCH_PASS_TIMEOUT'', cfg_DispatchPassTimeout, cfg_DispatchPassTimeout_update),
      (''DISPATCH_MAX_BACKOFF'', cfg_DispatchMaxBackoff, cfg_DispatchMaxBackoff_update),
      (''DISPATCH_MAX_LIFETIME'', cfg_DispatchMaxLifetime, cfg_DispatchMaxLifetime_update),
      (''PROVIDER_HTTP_TIMEOUT'', cfg_ProviderHTTPTimeout, cfg_ProviderHTTPTimeout_update),
      (''PROVIDER_HTTP_IDLE_CONN_TIMEOUT'', cfg_ProviderHTTPIdleConnTimeout,
        cfg_ProviderHTTPIdleConnTimeout_update)]"

definition nonneg_duration_fields :: "duration field list" where
  "nonneg_duration_fields =
     [(''FAKE_PROVIDER_MIN_DELAY'', cfg_FakeProviderMinDelay, cfg_FakeProviderMinDelay_update),
      (''FAKE_PROVIDER_MAX_DELAY'', cfg_FakeProviderMaxDelay, cfg_FakeProviderMaxDelay_update),
      (''POSTGRES_MAX_CONN_LIFETIME'', cfg_PostgresMaxConnLifetime,
        cfg_PostgresMaxConnLifetime_update),
      (''POSTGRES_HEALTH_CHECK_PERIOD'', cfg_PostgresHealthCheckPeriod,
        cfg_PostgresHealthCheckPeriod_update)]"

definition int_fields :: "int field list" where
  "int_fields =
     [(''RATE_LIMIT_PER_MINUTE'', cfg_RateLimitPerMinute, cfg_RateLimitPerMinute_update),
      (''RATE_LIMIT_PER_HOUR'', cfg_RateLimitPerHour, cfg_RateLimitPerHour_update),
      (''DISPATCH_BATCH_SIZE'', cfg_DispatchBatchSize, cfg_DispatchBatchSize_update),
      (''DISPATCH_POOL_SIZE'', cfg_DispatchPoolSize, cfg_DispatchPoolSize_update),
      (''DISPATCH_MAX_ATTEMPTS'', cfg_DispatchMaxAttempts, cfg_DispatchMaxAttempts_update),
      (''PROVIDER_HTTP_MAX_IDLE_CONNS_PER_HOST'', cfg_ProviderHTTPMaxIdleConnsPerHost,
        cfg_ProviderHTTPMaxIdleConnsPerHost_update)]"

definition nonneg_int_fields :: "int field list" where
  "nonneg_int_fields =
     [(''FAKE_PROVIDER_RPM_QUOTA'', cfg_FakeProviderRPMQuota, cfg_FakeProviderRPMQuota_update),
      (''POSTGRES_MAX_CONNS'', cfg_PostgresMaxConns, cfg_PostgresMaxConns_update)]"

fun load_fields ::
  "(string \<Rightarrow> 'a \<Rightarrow> (config_error, 'a) gores) \<Rightarrow> 'a field list \<Rightarrow> Config
     \<Rightarrow> (config_error, Config) gores" where
  "load_fields rd [] cfg = Ok cfg"
| "load_fields rd ((name, get, upd) # fs) cfg =
     (case rd name (get cfg) of
        Err e \<Rightarrow> Err e
      | Panic \<Rightarrow> Panic
      | Ok v \<Rightarrow> load_fields rd fs (upd (\<lambda>_. v) cfg))"

section \<open>The command line\<close>

text \<open>
  \<open>FlagSet.Parse\<close> for the two string flags of \<open>Load\<close>, whose values are threaded
  through the loop: a flag is \<open>-name\<close> or \<open>--name\<close>, its value follows an equals sign or
  is the next argument; the first argument that is no flag, or \<open>--\<close>, ends the flags.
\<close>

definition cut_value :: "string \<Rightarrow> string \<times> string option" where
  "cut_value name =
     (let n = hd name # takeWhile (\<lambda>c. c \<noteq> CHR ''='') (tl name);
          r = dropWhile (\<lambda>c. c \<noteq> CHR ''='') (tl name)
      in (n, if r = [] then None else Some (tl r)))"

definition set_flag :: "string \<Rightarrow> string \<Rightarrow> string \<times> string \<Rightarrow> string \<times> string" where
  "set_flag name v st = (if name = ''provider'' then (v, snd st) else (fst st, v))"

fun parse_flags :: "string \<times> string \<Rightarrow> string list \<Rightarrow> (config_error, string \<times> string) gores" where
  "parse_flags st [] = Ok st"
| "parse_flags st (s # args) =
     (if length s < 2 \<or> hd s \<noteq> CHR ''-'' then Ok st
      else if s = ''--'' then Ok st
      else let name = (if s ! 1 = CHR ''-'' then drop 2 s else drop 1 s)
           in if name = [] \<or> hd name = CHR ''-'' \<or> hd name = CHR ''='' then Err (FlagBadSyntax s)
              else case cut_value name of (n, value) \<Rightarrow>
                if n \<noteq> ''provider'' \<and> n \<noteq> ''storage''
                then Err (if n = ''help'' \<or> n = ''h'' then FlagHelp else FlagUndefined n)
                else case value of
                       Some v \<Rightarrow> parse_flags (set_flag n v st) args
                     | None \<Rightarrow>
                         (case args of
                            [] \<Rightarrow> Err (FlagNeedsArgument n)
                          | v # rest \<Rightarrow> parse_flags (set_flag n v st) rest))"

section \<open>Load\<close>

text \<open>The environment part of \<open>Load\<close>, up to the flags.\<close>

definition cors_origins :: "unicode \<Rightarrow> string \<Rightarrow> string list" where
  "cors_origins U v =
     (if v = [] then []
      else List.filter (\<lambda>origin. origin \<noteq> []) (map (strings_TrimSpace U) (strings_Split U v '','')))"

definition and_then :: "('e, 'a) gores \<Rightarrow> ('a \<Rightarrow> ('e, 'b) gores) \<Rightarrow> ('e, 'b) gores" where
  "and_then r f = (case r of Ok x \<Rightarrow> f x | Err e \<Rightarrow> Err e | Panic \<Rightarrow> Panic)"

definition load_env :: "unicode \<Rightarrow> (string \<Rightarrow> string) \<Rightarrow> (config_error, Config) gores" where
  "load_env U getenv =
     (let cfg = default_config\<lparr>cfg_HTTPAddr :=
            (if getenv ''HTTP_ADDR'' \<noteq> [] then getenv ''HTTP_ADDR'' else cfg_HTTPAddr default_config)\<rparr>
      in and_then (load_fields (durationEnv getenv) duration_fields cfg) (\<lambda>cfg.
         and_then (load_fields (nonNegativeDurationEnv getenv) nonneg_duration_fields cfg) (\<lambda>cfg.
         and_then (load_fields (intEnv getenv) int_fields cfg) (\<lambda>cfg.
         and_then (load_fields (nonNegativeIntEnv getenv) nonneg_int_fields cfg) (\<lambda>cfg.
         and_then (if getenv ''LOG_LEVEL'' \<noteq> [] then parseLogLevel U (getenv ''LOG_LEVEL'')
                   else Ok (cfg_LogLevel cfg)) (\<lambda>level.
         Ok (cfg\<lparr>cfg_LogLevel := level,
                 cfg_Provider := (if getenv ''PROVIDER'' \<noteq> [] then strings_ToLower U (getenv ''PROVIDER'')
                                  else cfg_Provider cfg),
                 cfg_Storage := (if getenv ''STORAGE'' \<noteq> [] then strings_ToLower U (getenv ''STORAGE'')
                                 else cfg_Storage cfg),
                 cfg_DatabaseURL := getenv ''DATABASE_URL'',
                 cfg_CORSAllowedOrigins := cors_origins U (getenv ''CORS_ALLOWED_ORIGINS'')\<rparr>)))))))"

text \<open>The checks at the end of \<open>Load\<close>.\<close>

definition check_config :: "Config \<Rightarrow> (config_error, Config) gores" where
  "check_config cfg =
     (if \<not> Provider_valid (cfg_Provider cfg) then Err (InvalidProvider (cfg_Provider cfg))
      else if \<not> Storage_valid (cfg_Storage cfg) then Err (InvalidStorage (cfg_Storage cfg))
      else if cfg_Storage cfg = StoragePostgres \<and> cfg_DatabaseURL cfg = [] then Err MissingDatabaseURL
      else if cfg_DispatchVisibilityTimeout cfg < cfg_DispatchPassTimeout cfg
      then Err (VisibilityTooShort (cfg_DispatchVisibilityTimeout cfg) (cfg_DispatchPassTimeout cfg))
      else if 0 < cfg_PostgresMaxConns cfg \<and> cfg_PostgresMaxConns cfg < cfg_DispatchPoolSize cfg
      then Err (TooFewConns (cfg_PostgresMaxConns cfg) (cfg_DispatchPoolSize cfg))
      else Ok cfg)"

definition Load ::
  "unicode \<Rightarrow> string list \<Rightarrow> (string \<Rightarrow> string) \<Rightarrow> (config_error, Config) gores" where
  "Load U args getenv =
     and_then (load_env U getenv) (\<lambda>cfg.
     and_then (parse_flags (cfg_Provider cfg, cfg_Storage cfg) args) (\<lambda>(provider, storage).
     check_config (cfg\<lparr>cfg_Provider := strings_ToLower U provider,
                       cfg_Storage := strings_ToLower U storage\<rparr>)))"

section \<open>Lemmas\<close>

lemma and_then_Ok: "and_then r f = Ok y \<longleftrightarrow> (\<exists>x. r = Ok x \<and> f x = Ok y)"
  by (cases r) (simp_all add: and_then_def)

lemma and_then_simps [simp]:
  "and_then (Ok x) f = f x" "and_then (Err e) f = Err e" "and_then Panic f = Panic"
  by (simp_all add: and_then_def)

subsection \<open>Reading a duration\<close>

lemma digits_value_ge: "x \<le> digits_value x ds"
proof (induction ds arbitrary: x)
  case (Cons c ds)
  from Cons.IH [of "10 * x + (byte c - 48)"] show ?case by simp
qed simp

lemma leadingInt_digits:
  assumes "list_all is_digit ds" "digits_value x ds \<le> 2 ^ 63" "r = [] \<or> \<not> is_digit (hd r)"
  shows "leadingInt x (ds @ r) = Some (digits_value x ds, r)"
  using assms
proof (induction ds arbitrary: x)
  case Nil
  then show ?case by (cases r) auto
next
  case (Cons c cs)
  have y: "10 * x + (byte c - 48) \<le> 2 ^ 63"
    using Cons.prems(2) digits_value_ge [of "10 * x + (byte c - 48)" cs] by simp
  then have "10 * x \<le> 2 ^ 63" by linarith
  then have "x \<le> 2 ^ 63 div 10" by simp
  with y Cons show ?case by (simp add: mult.commute)
qed

lemma durationEnv_Ok:
  assumes "durationEnv getenv name def = Ok d" "0 < def" shows "0 < d"
  using assms by (auto simp: durationEnv_def Let_def split: if_splits option.splits)

lemma nonNegativeDurationEnv_Ok:
  assumes "nonNegativeDurationEnv getenv name def = Ok d" "0 \<le> def" shows "0 \<le> d"
  using assms by (auto simp: nonNegativeDurationEnv_def Let_def split: if_splits option.splits)

lemma intEnv_Ok:
  assumes "intEnv getenv name def = Ok n" "0 < def" shows "0 < n"
  using assms by (auto simp: intEnv_def Let_def split: if_splits option.splits)

lemma nonNegativeIntEnv_Ok:
  assumes "nonNegativeIntEnv getenv name def = Ok n" "0 \<le> def" shows "0 \<le> n"
  using assms by (auto simp: nonNegativeIntEnv_def Let_def split: if_splits option.splits)

lemma unitMap_facts:
  assumes "map_of unitMap u = Some k"
  shows "u \<noteq> []" "list_all is_unit_char u" "0 < k"
  using assms
  by (auto simp: unitMap_def is_unit_char_def is_digit_def byte_def split: if_splits)

lemma time_ParseDuration_whole:
  assumes u: "map_of unitMap u = Some k" and n: "int (n * k) \<le> maxInt64"
  shows "time_ParseDuration (itoa_nat n @ u) = Some (int (n * k))"
proof -
  note uf = unitMap_facts [OF u]
  obtain c cs where c: "itoa_nat n = c # cs" using itoa_nat_parse [of n] by (cases "itoa_nat n") auto
  have dc: "is_digit c" using itoa_nat_parse [of n] c by simp
  then have sgn: "c \<noteq> CHR ''-''" "c \<noteq> CHR ''+''" by (auto simp: is_digit_def byte_def)
  have "int (n * k) < int (2 ^ 63)" using n by (simp add: maxInt64_def)
  then have nk: "n * k < 2 ^ 63" by (simp only: of_nat_less_iff)
  have "n \<le> n * k" using uf(3) by simp
  with nk have n63: "n \<le> 2 ^ 63" by (meson le_less_trans less_imp_le)
  have nd: "\<not> is_digit (hd u)" "hd u \<noteq> CHR ''.''"
    using uf(1, 2) by (cases u; simp add: is_unit_char_def)+
  have li: "leadingInt 0 (itoa_nat n @ u) = Some (n, u)"
    using leadingInt_digits [of "itoa_nat n" 0 u] itoa_nat_parse [of n] n63 nd by simp
  have tw: "takeWhile is_unit_char u = u" "dropWhile is_unit_char u = []"
    using uf(2) by (simp_all add: list_all_iff)
  have div: "\<not> 2 ^ 63 div k < n"
    using nk uf(3) by (simp add: not_less less_eq_div_iff_mult_less_eq)
  have head: "\<not> is_unit_char (hd (itoa_nat n @ u))" using dc c by (simp add: is_unit_char_def)
  have "duration_terms 0 s = Some (n * k)" if s: "s = itoa_nat n @ u" for s
  proof -
    have "s \<noteq> []" "\<not> is_unit_char (hd s)" "leadingInt 0 s = Some (n, u)" "length u \<noteq> length s"
      using c li head s by auto
    moreover from this nd uf(1) u div have "duration_term s = Some (n * k, [])"
      by (simp add: duration_term_def tw)
    ultimately show ?thesis
      using nk by (simp add: duration_terms.simps [of 0 s] duration_terms.simps [of _ "[]"])
  qed
  then show ?thesis
    using c sgn uf(1) nk by (auto simp: time_ParseDuration_def Let_def)
qed

subsection \<open>Reading a table\<close>

text \<open>Rows whose updaters set their own field and leave the other rows' fields alone.\<close>

fun independent :: "'a field list \<Rightarrow> bool" where
  "independent [] = True"
| "independent ((name, get, upd) # fs) =
     ((\<forall>v c. get (upd (\<lambda>_. v) c) = v)
      \<and> list_all (\<lambda>(_, get', upd'). \<forall>v c. get (upd' (\<lambda>_. v) c) = get c \<and> get' (upd (\<lambda>_. v) c) = get' c) fs
      \<and> independent fs)"

definition untouched :: "(Config \<Rightarrow> 'b) \<Rightarrow> 'a field list \<Rightarrow> bool" where
  "untouched h fs \<longleftrightarrow> list_all (\<lambda>(_, _, upd). \<forall>v c. h (upd (\<lambda>_. v) c) = h c) fs"

lemma load_fields_untouched:
  "load_fields rd fs cfg = Ok cfg' \<Longrightarrow> untouched h fs \<Longrightarrow> h cfg' = h cfg"
  by (induction rd fs cfg rule: load_fields.induct) (auto simp: untouched_def split: gores.splits)

lemma load_fields_reads:
  assumes "load_fields rd fs cfg = Ok cfg'" "independent fs" "(name, get, upd) \<in> set fs"
  shows "rd name (get cfg) = Ok (get cfg')"
  using assms
proof (induction rd fs cfg rule: load_fields.induct)
  case (2 rd n g u fs cfg)
  obtain v where v: "rd n (g cfg) = Ok v" and rest: "load_fields rd fs (u (\<lambda>_. v) cfg) = Ok cfg'"
    using 2(2) by (auto split: gores.splits)
  show ?case
  proof (cases "(name, get, upd) = (n, g, u)")
    case True
    have "untouched g fs"
      using 2(3) by (auto simp: untouched_def list_all_iff)
    with load_fields_untouched [OF rest, of g] have "g cfg' = v" using 2(3) by simp
    with v True show ?thesis by simp
  next
    case False
    with 2(4) have i: "(name, get, upd) \<in> set fs" by auto
    then have "rd name (get (u (\<lambda>_. v) cfg)) = Ok (get cfg')"
      using 2(1) [OF v rest] 2(3) by simp
    moreover have "get (u (\<lambda>_. v) cfg) = get cfg" using 2(3) i by (auto simp: list_all_iff)
    ultimately show ?thesis by simp
  qed
qed simp

lemma load_fields_total:
  assumes "\<And>name get upd c. (name, get, upd) \<in> set fs \<Longrightarrow> rd name (get c) = Ok (get c)"
    and "\<And>name get upd c. (name, get, upd) \<in> set fs \<Longrightarrow> upd (\<lambda>_. get c) c = c"
  shows "load_fields rd fs cfg = Ok cfg"
  using assms
proof (induction rd fs cfg rule: load_fields.induct)
  case (2 rd n g u fs cfg)
  have "rd n (g cfg) = Ok (g cfg)" "u (\<lambda>_. g cfg) cfg = cfg"
    using 2(2) [of n g u] 2(3) [of n g u] by simp_all
  moreover have "load_fields rd fs (u (\<lambda>_. g cfg) cfg) = Ok (u (\<lambda>_. g cfg) cfg)"
    by (rule 2(1)) (use calculation in \<open>auto intro!: 2(2, 3)\<close>)
  ultimately show ?case by simp
qed simp

lemma independent_tables [simp]:
  "independent duration_fields" "independent nonneg_duration_fields"
  "independent int_fields" "independent nonneg_int_fields"
  by (simp_all add: duration_fields_def nonneg_duration_fields_def int_fields_def
      nonneg_int_fields_def)

lemmas table_defs = duration_fields_def nonneg_duration_fields_def int_fields_def nonneg_int_fields_def

subsection \<open>Load\<close>

text \<open>The configuration after each stage of \<open>load_env\<close>.\<close>

lemma load_env_stages:
  assumes "load_env U getenv = Ok cfg"
  obtains c0 c1 c2 c3 c4 where
    "c0 = default_config\<lparr>cfg_HTTPAddr :=
       (if getenv ''HTTP_ADDR'' \<noteq> [] then getenv ''HTTP_ADDR'' else cfg_HTTPAddr default_config)\<rparr>"
    "load_fields (durationEnv getenv) duration_fields c0 = Ok c1"
    "load_fields (nonNegativeDurationEnv getenv) nonneg_duration_fields c1 = Ok c2"
    "load_fields (intEnv getenv) int_fields c2 = Ok c3"
    "load_fields (nonNegativeIntEnv getenv) nonneg_int_fields c3 = Ok c4"
    "cfg = c4\<lparr>cfg_LogLevel := cfg_LogLevel cfg, cfg_Provider := cfg_Provider cfg,
       cfg_Storage := cfg_Storage cfg, cfg_DatabaseURL := getenv ''DATABASE_URL'',
       cfg_CORSAllowedOrigins := cfg_CORSAllowedOrigins cfg\<rparr>"
    "cfg_Provider cfg = (if getenv ''PROVIDER'' \<noteq> [] then strings_ToLower U (getenv ''PROVIDER'')
       else cfg_Provider c4)"
    "cfg_Storage cfg = (if getenv ''STORAGE'' \<noteq> [] then strings_ToLower U (getenv ''STORAGE'')
       else cfg_Storage c4)"
  using assms unfolding load_env_def Let_def and_then_Ok gores.inject by (elim exE conjE) (rule that, auto)

lemma Load_stages:
  assumes "Load U args getenv = Ok cfg"
  obtains c provider storage where
    "load_env U getenv = Ok c"
    "parse_flags (cfg_Provider c, cfg_Storage c) args = Ok (provider, storage)"
    "cfg = c\<lparr>cfg_Provider := strings_ToLower U provider, cfg_Storage := strings_ToLower U storage\<rparr>"
    "check_config cfg = Ok cfg"
  using assms
  by (auto simp: Load_def and_then_Ok check_config_def split: if_splits)

text \<open>What every row of the tables reads, for a row whose field the later stages do not write.\<close>

lemma Load_reads:
  assumes "Load U args getenv = Ok cfg"
  shows "(name, gd, ud) \<in> set duration_fields
      \<Longrightarrow> durationEnv getenv name (gd default_config) = Ok (gd cfg)"
    and "(name, gd, ud) \<in> set nonneg_duration_fields
      \<Longrightarrow> nonNegativeDurationEnv getenv name (gd default_config) = Ok (gd cfg)"
    and "(name, gi, ui) \<in> set int_fields
      \<Longrightarrow> intEnv getenv name (gi default_config) = Ok (gi cfg)"
    and "(name, gi, ui) \<in> set nonneg_int_fields
      \<Longrightarrow> nonNegativeIntEnv getenv name (gi default_config) = Ok (gi cfg)"
proof -
  obtain c provider storage where c: "load_env U getenv = Ok c"
    and cfg: "cfg = c\<lparr>cfg_Provider := strings_ToLower U provider, cfg_Storage := strings_ToLower U storage\<rparr>"
    using Load_stages [OF assms] by metis
  from c obtain c0 c1 c2 c3 c4 where
    c0: "c0 = default_config\<lparr>cfg_HTTPAddr :=
       (if getenv ''HTTP_ADDR'' \<noteq> [] then getenv ''HTTP_ADDR'' else cfg_HTTPAddr default_config)\<rparr>"
    and l1: "load_fields (durationEnv getenv) duration_fields c0 = Ok c1"
    and l2: "load_fields (nonNegativeDurationEnv getenv) nonneg_duration_fields c1 = Ok c2"
    and l3: "load_fields (intEnv getenv) int_fields c2 = Ok c3"
    and l4: "load_fields (nonNegativeIntEnv getenv) nonneg_int_fields c3 = Ok c4"
    and ce0: "c = c4\<lparr>cfg_LogLevel := cfg_LogLevel c, cfg_Provider := cfg_Provider c,
       cfg_Storage := cfg_Storage c, cfg_DatabaseURL := getenv ''DATABASE_URL'',
       cfg_CORSAllowedOrigins := cfg_CORSAllowedOrigins c\<rparr>"
    by (rule load_env_stages)
  obtain lv pr st os where ce: "c = c4\<lparr>cfg_LogLevel := lv, cfg_Provider := pr, cfg_Storage := st,
       cfg_DatabaseURL := getenv ''DATABASE_URL'', cfg_CORSAllowedOrigins := os\<rparr>"
    using ce0 by (rule that)
  note u1 = load_fields_untouched [OF l1] and u2 = load_fields_untouched [OF l2]
    and u3 = load_fields_untouched [OF l3] and u4 = load_fields_untouched [OF l4]
  show "durationEnv getenv name (gd default_config) = Ok (gd cfg)"
    if m: "(name, gd, ud) \<in> set duration_fields"
  proof -
    have "gd c0 = gd default_config" "gd cfg = gd c4"
      using m c0 ce cfg by (auto simp: table_defs)
    moreover have "untouched gd nonneg_duration_fields" "untouched gd int_fields"
      "untouched gd nonneg_int_fields"
      using m by (auto simp: table_defs untouched_def)
    then have "gd c4 = gd c1" using u2 [of gd] u3 [of gd] u4 [of gd] by simp
    ultimately show ?thesis using load_fields_reads [OF l1 _ m] by simp
  qed
  show "nonNegativeDurationEnv getenv name (gd default_config) = Ok (gd cfg)"
    if m: "(name, gd, ud) \<in> set nonneg_duration_fields"
  proof -
    have "gd c0 = gd default_config" "gd cfg = gd c4"
      using m c0 ce cfg by (auto simp: table_defs)
    moreover have "untouched gd duration_fields" "untouched gd int_fields"
      "untouched gd nonneg_int_fields"
      using m by (auto simp: table_defs untouched_def)
    then have "gd c1 = gd c0" "gd c4 = gd c2" using u1 [of gd] u3 [of gd] u4 [of gd] by simp_all
    ultimately show ?thesis using load_fields_reads [OF l2 _ m] by simp
  qed
  show "intEnv getenv name (gi default_config) = Ok (gi cfg)"
    if m: "(name, gi, ui) \<in> set int_fields"
  proof -
    have "gi c0 = gi default_config" "gi cfg = gi c4"
      using m c0 ce cfg by (auto simp: table_defs)
    moreover have "untouched gi duration_fields" "untouched gi nonneg_duration_fields"
      "untouched gi nonneg_int_fields"
      using m by (auto simp: table_defs untouched_def)
    then have "gi c2 = gi c0" "gi c4 = gi c3" using u1 [of gi] u2 [of gi] u4 [of gi] by simp_all
    ultimately show ?thesis using load_fields_reads [OF l3 _ m] by simp
  qed
  show "nonNegativeIntEnv getenv name (gi default_config) = Ok (gi cfg)"
    if m: "(name, gi, ui) \<in> set nonneg_int_fields"
  proof -
    have "gi c0 = gi default_config" "gi cfg = gi c4"
      using m c0 ce cfg by (auto simp: table_defs)
    moreover have "untouched gi duration_fields" "untouched gi nonneg_duration_fields"
      "untouched gi int_fields"
      using m by (auto simp: table_defs untouched_def)
    then have "gi c3 = gi c0" using u1 [of gi] u2 [of gi] u3 [of gi] by simp
    ultimately show ?thesis using load_fields_reads [OF l4 _ m] by simp
  qed
qed

text \<open>What the server may rely on in a configuration it starts with.\<close>

definition config_valid :: "Config \<Rightarrow> bool" where
  "config_valid cfg \<longleftrightarrow>
     (\<forall>t \<in> {cfg_ReadTimeout cfg, cfg_ReadHeaderTimeout cfg, cfg_WriteTimeout cfg, cfg_IdleTimeout cfg,
        cfg_ShutdownTimeout cfg, cfg_QuoteTTL cfg, cfg_DispatchTickInterval cfg,
        cfg_DispatchVisibilityTimeout cfg, cfg_DispatchBaseBackoff cfg, cfg_DispatchPassTimeout cfg,
        cfg_DispatchMaxBackoff cfg, cfg_DispatchMaxLifetime cfg, cfg_ProviderHTTPTimeout cfg,
        cfg_ProviderHTTPIdleConnTimeout cfg}. 0 < t)
     \<and> (\<forall>t \<in> {cfg_FakeProviderMinDelay cfg, cfg_FakeProviderMaxDelay cfg,
        cfg_PostgresMaxConnLifetime cfg, cfg_PostgresHealthCheckPeriod cfg,
        cfg_FakeProviderRPMQuota cfg, cfg_PostgresMaxConns cfg}. 0 \<le> t)
     \<and> (\<forall>n \<in> {cfg_RateLimitPerMinute cfg, cfg_RateLimitPerHour cfg, cfg_DispatchBatchSize cfg,
        cfg_DispatchPoolSize cfg, cfg_DispatchMaxAttempts cfg,
        cfg_ProviderHTTPMaxIdleConnsPerHost cfg}. 0 < n)
     \<and> cfg_Provider cfg \<in> {''fake'', ''exchangeratedev''}
     \<and> cfg_Storage cfg = ''postgres'' \<and> cfg_DatabaseURL cfg \<noteq> []
     \<and> cfg_DispatchPassTimeout cfg \<le> cfg_DispatchVisibilityTimeout cfg
     \<and> (cfg_PostgresMaxConns cfg = 0 \<or> cfg_DispatchPoolSize cfg \<le> cfg_PostgresMaxConns cfg)"

lemma default_positive:
  "\<forall>(_, g, _) \<in> set duration_fields. 0 < g default_config"
  "\<forall>(_, g, _) \<in> set nonneg_duration_fields. 0 \<le> g default_config"
  "\<forall>(_, g, _) \<in> set int_fields. 0 < g default_config"
  "\<forall>(_, g, _) \<in> set nonneg_int_fields. 0 \<le> g default_config"
  by (simp_all add: table_defs default_config_def)

lemma Load_positive:
  assumes "Load U args getenv = Ok cfg"
  shows "\<forall>(_, g, _) \<in> set duration_fields. 0 < g cfg"
    and "\<forall>(_, g, _) \<in> set nonneg_duration_fields. 0 \<le> g cfg"
    and "\<forall>(_, g, _) \<in> set int_fields. 0 < g cfg"
    and "\<forall>(_, g, _) \<in> set nonneg_int_fields. 0 \<le> g cfg"
  using Load_reads [OF assms] default_positive durationEnv_Ok nonNegativeDurationEnv_Ok intEnv_Ok
    nonNegativeIntEnv_Ok
  by (fast+)

lemma check_config_Ok:
  "check_config cfg = Ok c \<longleftrightarrow> c = cfg \<and> Provider_valid (cfg_Provider cfg) \<and> Storage_valid (cfg_Storage cfg)
     \<and> cfg_DatabaseURL cfg \<noteq> [] \<and> cfg_DispatchPassTimeout cfg \<le> cfg_DispatchVisibilityTimeout cfg
     \<and> (cfg_PostgresMaxConns cfg \<le> 0 \<or> cfg_DispatchPoolSize cfg \<le> cfg_PostgresMaxConns cfg)"
  by (auto simp: check_config_def Storage_valid_def)

text \<open>The flags of a command line, in both spellings, as the settings they stand for.\<close>

datatype flag_setting = SetProvider bool string | SetStorage bool string

fun render_flag :: "flag_setting \<Rightarrow> string list" where
  "render_flag (SetProvider True v) = [''--provider='' @ v]"
| "render_flag (SetProvider False v) = [''-provider'', v]"
| "render_flag (SetStorage True v) = [''--storage='' @ v]"
| "render_flag (SetStorage False v) = [''-storage'', v]"

fun apply_flag :: "flag_setting \<Rightarrow> string \<times> string \<Rightarrow> string \<times> string" where
  "apply_flag (SetProvider _ v) (p, s) = (v, s)"
| "apply_flag (SetStorage _ v) (p, s) = (p, v)"

lemma parse_flags_render:
  "parse_flags st (render_flag f @ args) = parse_flags (apply_flag f st) args"
  by (induction f st rule: apply_flag.induct; rename_tac b v p s; case_tac b)
    (simp_all add: cut_value_def set_flag_def)

lemma parse_flags_renders:
  "parse_flags st (concat (map render_flag fs)) = Ok (fold apply_flag fs st)"
  by (induction fs arbitrary: st) (simp_all add: parse_flags_render)

lemma Load_not_panic: "Load U args getenv \<noteq> Panic"
proof -
  have f: "load_fields rd fs cfg \<noteq> Panic" if "\<And>n d. rd n d \<noteq> (Panic :: (config_error, 'a) gores)"
    for rd and fs :: "'a field list" and cfg
    using that by (induction rd fs cfg rule: load_fields.induct) (auto split: gores.splits)
  have fields: "load_fields (durationEnv getenv) fs c \<noteq> Panic" "load_fields (nonNegativeDurationEnv getenv) fs c \<noteq> Panic"
    "load_fields (intEnv getenv) fs c \<noteq> Panic" "load_fields (nonNegativeIntEnv getenv) fs c \<noteq> Panic" for fs c
    by (rule f; simp add: durationEnv_def nonNegativeDurationEnv_def intEnv_def nonNegativeIntEnv_def
        Let_def split: option.split)+
  have flags: "parse_flags st as \<noteq> Panic" for st as
    by (induction st as rule: parse_flags.induct) (auto simp: Let_def split: option.split list.split prod.split)
  have checks: "check_config c \<noteq> Panic" for c by (simp add: check_config_def)
  have level: "parseLogLevel U v \<noteq> Panic" for v by (simp add: parseLogLevel_def Let_def)
  have "and_then r g \<noteq> Panic" if "r \<noteq> Panic" "\<And>x. g x \<noteq> Panic"
    for r :: "('e, 'x) gores" and g :: "'x \<Rightarrow> ('e, 'y) gores"
    using that by (cases r) auto
  note bind = this
  show ?thesis
    unfolding Load_def load_env_def Let_def
    by (intro bind; auto simp: fields flags checks level)
qed

section \<open>Properties\<close>

text \<open>C38. A configuration that \<open>Load\<close> returns is one the server can run on: every timeout, interval
  and limit is positive, the optional ones are not negative, provider and storage are known, the
  database URL is set, the visibility timeout covers a dispatcher pass, and an explicit connection
  limit covers the worker pool.\<close>

theorem Load_valid:
  assumes "Load U args getenv = Ok cfg"
  shows "config_valid cfg"
proof -
  have "check_config cfg = Ok cfg" using Load_stages [OF assms] by metis
  then show ?thesis
    using Load_positive [OF assms]
    by (auto simp: config_valid_def check_config_Ok Provider_valid_def Storage_valid_def ProviderFake_def
        ProviderExchangerateDev_def StoragePostgres_def table_defs)
qed

definition sample_getenv :: "string \<Rightarrow> string" where
  "sample_getenv name =
     (if name = ''DATABASE_URL'' then ''postgres://db'' else if name = ''QUOTE_TTL'' then ''90s''
      else if name = ''DISPATCH_POOL_SIZE'' then ''16'' else if name = ''PROVIDER'' then ''exchangeratedev''
      else if name = ''POSTGRES_MAX_CONNS'' then ''20'' else [])"

definition config_unicode :: unicode where
  "config_unicode = \<lparr>upper_uni = (\<lambda>s. s), lower_uni = (\<lambda>s. s), trim_uni = (\<lambda>s. s), explode_uni = (\<lambda>s. [s])\<rparr>"

definition sample_config :: Config where
  "sample_config = default_config\<lparr>cfg_DatabaseURL := ''postgres://db'', cfg_QuoteTTL := 90 * Second,
     cfg_DispatchPoolSize := 16, cfg_PostgresMaxConns := 20, cfg_Provider := ''fake''\<rparr>"

lemma sample_getenv_values:
  "sample_getenv ''DATABASE_URL'' = ''postgres://db''" "sample_getenv ''QUOTE_TTL'' = ''90s''"
  "sample_getenv ''DISPATCH_POOL_SIZE'' = ''16''" "sample_getenv ''PROVIDER'' = ''exchangeratedev''"
  "sample_getenv ''POSTGRES_MAX_CONNS'' = ''20''"
  by (simp_all add: sample_getenv_def)

lemma sample_getenv_unset: "name \<notin> {''DATABASE_URL'', ''QUOTE_TTL'', ''DISPATCH_POOL_SIZE'', ''PROVIDER'',
    ''POSTGRES_MAX_CONNS''} \<Longrightarrow> sample_getenv name = []"
  by (simp add: sample_getenv_def)

lemma sample_values:
  "time_ParseDuration ''90s'' = Some (90 * Second)" "strconv_Atoi ''16'' = Some 16" "strconv_Atoi ''20'' = Some 20"
  "strings_ToLower config_unicode ''exchangeratedev'' = ''exchangeratedev''"
  "strings_ToLower config_unicode ''FAKE'' = ''fake''"
  "strings_ToLower config_unicode ''Postgres'' = ''postgres''"
proof -
  have i: "itoa_nat 90 = ''90''" by code_simp
  have "map_of unitMap ''s'' = Some 1000000000" by (simp add: unitMap_def)
  then show "time_ParseDuration ''90s'' = Some (90 * Second)"
    using time_ParseDuration_whole [of "''s''" 1000000000 90]
    by (simp add: i maxInt64_def Second_def)
  have "itoa 16 = ''16''" by code_simp
  then show "strconv_Atoi ''16'' = Some 16"
    using Atoi_itoa [of 16] by (simp add: minInt64_def maxInt64_def)
  have j: "itoa 20 = ''20''" by code_simp
  have "strconv_Atoi (itoa 20) = Some 20" by (rule Atoi_itoa) (simp_all add: minInt64_def maxInt64_def)
  then show "strconv_Atoi ''20'' = Some 20" by (simp only: j)
qed (code_simp)+

lemma sample_load_durations:
  "load_fields (durationEnv sample_getenv) duration_fields c = Ok (c\<lparr>cfg_QuoteTTL := 90 * Second\<rparr>)"
  by (simp add: duration_fields_def durationEnv_def sample_getenv_values sample_getenv_unset sample_values
      Second_def)

lemma sample_load_nonneg_durations:
  "load_fields (nonNegativeDurationEnv sample_getenv) nonneg_duration_fields c = Ok c"
  by (simp add: nonneg_duration_fields_def nonNegativeDurationEnv_def sample_getenv_unset)

lemma sample_load_ints:
  "load_fields (intEnv sample_getenv) int_fields c = Ok (c\<lparr>cfg_DispatchPoolSize := 16\<rparr>)"
  by (simp add: int_fields_def intEnv_def sample_getenv_values sample_getenv_unset sample_values)

lemma sample_load_nonneg_ints:
  "load_fields (nonNegativeIntEnv sample_getenv) nonneg_int_fields c = Ok (c\<lparr>cfg_PostgresMaxConns := 20\<rparr>)"
  by (simp add: nonneg_int_fields_def nonNegativeIntEnv_def sample_getenv_values sample_getenv_unset sample_values)

lemma sample_load_env:
  "load_env config_unicode sample_getenv = Ok (default_config\<lparr>cfg_QuoteTTL := 90 * Second,
     cfg_DispatchPoolSize := 16, cfg_PostgresMaxConns := 20, cfg_DatabaseURL := ''postgres://db''\<rparr>)"
  by (simp add: load_env_def sample_load_durations sample_load_nonneg_durations sample_load_ints
      sample_load_nonneg_ints sample_getenv_values sample_getenv_unset sample_values cors_origins_def
      default_config_def ProviderExchangerateDev_def)

lemma sample_Load:
  "Load config_unicode (concat (map render_flag [SetStorage False ''Postgres'', SetProvider True ''FAKE'']))
     sample_getenv = Ok sample_config"
  by (simp only: Load_def sample_load_env and_then_simps parse_flags_renders)
    (simp add: sample_values check_config_Ok sample_config_def Provider_valid_def Storage_valid_def
      ProviderFake_def StoragePostgres_def default_config_def Second_def Minute_def)

theorem Load_valid_witness: "config_valid sample_config"
  by (rule Load_valid [OF sample_Load])

text \<open>A flag wins over the environment and the environment over the default, in either spelling of
  the flags and with the last flag of a kind winning: the provider and the storage of a configuration
  that \<open>Load\<close> returns are the lower-cased values so chosen, and the database URL is the variable's.\<close>

theorem Load_precedence:
  assumes "Load U (concat (map render_flag fs)) getenv = Ok cfg"
  shows "(cfg_Provider cfg, cfg_Storage cfg) =
      map_prod (strings_ToLower U) (strings_ToLower U) (fold apply_flag fs
        (if getenv ''PROVIDER'' = [] then ''exchangeratedev'' else strings_ToLower U (getenv ''PROVIDER''),
         if getenv ''STORAGE'' = [] then ''postgres'' else strings_ToLower U (getenv ''STORAGE'')))
    \<and> cfg_DatabaseURL cfg = getenv ''DATABASE_URL''"
proof -
  obtain c p s where c: "load_env U getenv = Ok c"
    and ps: "fold apply_flag fs (cfg_Provider c, cfg_Storage c) = (p, s)"
    and cfg: "cfg = c\<lparr>cfg_Provider := strings_ToLower U p, cfg_Storage := strings_ToLower U s\<rparr>"
    using Load_stages [OF assms] by (metis parse_flags_renders gores.inject(1))
  from c obtain c0 c1 c2 c3 c4 where
    c0: "c0 = default_config\<lparr>cfg_HTTPAddr :=
       (if getenv ''HTTP_ADDR'' \<noteq> [] then getenv ''HTTP_ADDR'' else cfg_HTTPAddr default_config)\<rparr>"
    and ls: "load_fields (durationEnv getenv) duration_fields c0 = Ok c1"
      "load_fields (nonNegativeDurationEnv getenv) nonneg_duration_fields c1 = Ok c2"
      "load_fields (intEnv getenv) int_fields c2 = Ok c3"
      "load_fields (nonNegativeIntEnv getenv) nonneg_int_fields c3 = Ok c4"
    and url: "c = c4\<lparr>cfg_LogLevel := cfg_LogLevel c, cfg_Provider := cfg_Provider c,
       cfg_Storage := cfg_Storage c, cfg_DatabaseURL := getenv ''DATABASE_URL'',
       cfg_CORSAllowedOrigins := cfg_CORSAllowedOrigins c\<rparr>"
    and env: "cfg_Provider c = (if getenv ''PROVIDER'' \<noteq> [] then strings_ToLower U (getenv ''PROVIDER'')
        else cfg_Provider c4)"
      "cfg_Storage c = (if getenv ''STORAGE'' \<noteq> [] then strings_ToLower U (getenv ''STORAGE'')
        else cfg_Storage c4)"
    by (rule load_env_stages)
  have "h c4 = h c0" if "h = cfg_Provider \<or> h = cfg_Storage" for h
    using that load_fields_untouched [OF ls(1), of h] load_fields_untouched [OF ls(2), of h]
      load_fields_untouched [OF ls(3), of h] load_fields_untouched [OF ls(4), of h]
    by (auto simp: untouched_def table_defs)
  from this [of cfg_Provider] this [of cfg_Storage]
  have "cfg_Provider c4 = ''exchangeratedev''" "cfg_Storage c4 = ''postgres''"
    using c0 by (simp_all add: default_config_def ProviderExchangerateDev_def StoragePostgres_def)
  moreover have "cfg_DatabaseURL c = getenv ''DATABASE_URL''" by (subst url) simp
  ultimately show ?thesis using ps cfg env by auto
qed

theorem Load_precedence_witness: "cfg_Provider sample_config = ''fake''"
  using Load_precedence [OF sample_Load] by (simp add: sample_values)

text \<open>C39. A set variable of any of the four tables decides its field or stops \<open>Load\<close>: a duration or a count that
  does not parse, or that is below the bound of its table (1 in the tables of positive values, 0 in the tables of
  values that are not negative), makes \<open>Load\<close> fail whatever the flags, and an unset one leaves the default.\<close>

theorem Load_strict:
  assumes "(dname, gd, ud) \<in> set duration_fields" "(nname, gn, un) \<in> set nonneg_duration_fields"
    and "(iname, gi, ui) \<in> set int_fields" "(mname, gm, um) \<in> set nonneg_int_fields"
    and "Load U args getenv = r"
  shows "if getenv dname \<noteq> [] \<and> (\<forall>d. time_ParseDuration (getenv dname) = Some d \<longrightarrow> d \<le> 0)
           \<or> getenv nname \<noteq> [] \<and> (\<forall>d. time_ParseDuration (getenv nname) = Some d \<longrightarrow> d < 0)
           \<or> getenv iname \<noteq> [] \<and> (\<forall>n. strconv_Atoi (getenv iname) = Some n \<longrightarrow> n \<le> 0)
           \<or> getenv mname \<noteq> [] \<and> (\<forall>n. strconv_Atoi (getenv mname) = Some n \<longrightarrow> n < 0)
         then \<exists>e. r = Err e
         else \<forall>cfg. r = Ok cfg \<longrightarrow>
           gd cfg = (if getenv dname = [] then gd default_config else the (time_ParseDuration (getenv dname)))
           \<and> gn cfg = (if getenv nname = [] then gn default_config else the (time_ParseDuration (getenv nname)))
           \<and> gi cfg = (if getenv iname = [] then gi default_config else the (strconv_Atoi (getenv iname)))
           \<and> gm cfg = (if getenv mname = [] then gm default_config else the (strconv_Atoi (getenv mname)))"
proof (cases r)
  case (Ok cfg)
  note load = assms(5) [unfolded Ok]
  have "durationEnv getenv dname (gd default_config) = Ok (gd cfg)"
    "nonNegativeDurationEnv getenv nname (gn default_config) = Ok (gn cfg)"
    "intEnv getenv iname (gi default_config) = Ok (gi cfg)"
    "nonNegativeIntEnv getenv mname (gm default_config) = Ok (gm cfg)"
    by (rule Load_reads [OF load]; rule assms)+
  then show ?thesis
    using Ok by (auto simp: durationEnv_def nonNegativeDurationEnv_def intEnv_def nonNegativeIntEnv_def Let_def
        split: if_splits option.splits)
next
  case (Err e)
  then show ?thesis by simp
next
  case Panic
  with assms(5) Load_not_panic show ?thesis by metis
qed

theorem Load_strict_witness:
  "cfg_QuoteTTL sample_config = 90 * Second \<and> cfg_FakeProviderMinDelay sample_config = cfg_FakeProviderMinDelay default_config
    \<and> cfg_DispatchBatchSize sample_config = 100
    \<and> cfg_PostgresMaxConns sample_config = 20
    \<and> (\<exists>e. Load config_unicode [] (\<lambda>k. if k = ''POSTGRES_MAX_CONNS'' then ''abc'' else []) = Err e)"
proof -
  have m: "(''QUOTE_TTL'', cfg_QuoteTTL, cfg_QuoteTTL_update) \<in> set duration_fields"
    "(''FAKE_PROVIDER_MIN_DELAY'', cfg_FakeProviderMinDelay, cfg_FakeProviderMinDelay_update) \<in> set nonneg_duration_fields"
    "(''DISPATCH_BATCH_SIZE'', cfg_DispatchBatchSize, cfg_DispatchBatchSize_update) \<in> set int_fields"
    "(''POSTGRES_MAX_CONNS'', cfg_PostgresMaxConns, cfg_PostgresMaxConns_update) \<in> set nonneg_int_fields"
    by (simp_all add: table_defs)
  have "strconv_Atoi ''abc'' = None" by code_simp
  with Load_strict [OF m refl, where U = config_unicode and args = "[]"
      and getenv = "\<lambda>k. if k = ''POSTGRES_MAX_CONNS'' then ''abc'' else []"]
  have "\<exists>e. Load config_unicode [] (\<lambda>k. if k = ''POSTGRES_MAX_CONNS'' then ''abc'' else []) = Err e" by simp
  then show ?thesis
    using Load_strict [OF m sample_Load]
    by (simp add: sample_getenv_values sample_getenv_unset sample_values default_config_def Second_def)
qed

text \<open>A duration variable written as a whole number and a unit (\<open>ns\<close>, \<open>us\<close>, \<open>ms\<close>, \<open>s\<close>,
  \<open>m\<close> or \<open>h\<close>) is read as that many units, as long as it fits \<open>time.Duration\<close>; zero is refused.\<close>

theorem durationEnv_whole:
  assumes "map_of unitMap u = Some k" "int (n * k) \<le> maxInt64" "getenv name = itoa_nat n @ u"
  shows "durationEnv getenv name def =
    (if n = 0 then Err (NotPositive name (itoa_nat n @ u)) else Ok (int (n * k)))"
  using time_ParseDuration_whole [OF assms(1, 2)] assms(3) unitMap_facts(1, 3) [OF assms(1)]
  by (auto simp: durationEnv_def Let_def mult_le_0_iff)

theorem durationEnv_whole_witness:
  "durationEnv (\<lambda>_. ''250ms'') ''DISPATCH_BASE_BACKOFF'' 0 = Ok 250000000"
proof -
  have i: "itoa_nat 250 = ''250''" by code_simp
  have u: "map_of unitMap ''ms'' = Some 1000000" by (simp add: unitMap_def)
  show ?thesis
    using durationEnv_whole [OF u, of 250 "\<lambda>_. ''250ms''" "''DISPATCH_BASE_BACKOFF''" 0]
    by (simp add: i maxInt64_def)
qed

end
