(* ===== verification/Server.thy ===== *)
theory Server
  imports PostgresService Config
begin

text \<open>
  \<open>cmd/server\<close> with \<open>pkg/httpclient\<close> and \<open>storage/postgres/pool.go\<close>: the adapter the
  configuration names, the connection pool, the worker, dispatcher and router built from one
  configuration, and the exit code of \<open>run\<close>. The HTTP server, the migrations and the driver
  are parameters: what they return.
\<close>

section \<open>The provider\<close>

record http_client =
  hc_Timeout :: duration
  hc_MaxIdleConnsPerHost :: int
  hc_IdleConnTimeout :: duration

definition httpclient_New :: "duration \<Rightarrow> int \<Rightarrow> duration \<Rightarrow> http_client" where
  "httpclient_New timeout maxIdle idle =
     \<lparr>hc_Timeout = timeout, hc_MaxIdleConnsPerHost = maxIdle, hc_IdleConnTimeout = idle\<rparr>"

definition DefaultBaseURL :: string where
  "DefaultBaseURL = ''https://api.exchangerate.dev''"

definition NewExchangerateDevProvider :: "string \<Rightarrow> string \<Rightarrow> duration \<Rightarrow> ExchangerateDevProvider" where
  "NewExchangerateDevProvider url key ttl = \<lparr>baseURL = url, apiKey = key, quoteTTL = ttl\<rparr>"

text \<open>The two adapters behind one interface value: the state is the one of the adapter chosen.\<close>

type_synonym 'h adapter = "SystemClock FakeRateProvider + 'h"

definition on_left :: "('p, 'd) RateProvider_ops \<Rightarrow> ('p + 'q, 'd) RateProvider_ops" where
  "on_left P = \<lparr>rp_GetCurrencyRate = (\<lambda>s pair. case s of
        Inl p \<Rightarrow> (let (x, p') = rp_GetCurrencyRate P p pair in (x, Inl p'))
      | Inr q \<Rightarrow> (Panic, Inr q)),
     rp_Provider = rp_Provider P, rp_Indicative = rp_Indicative P, rp_StaleAfter = rp_StaleAfter P\<rparr>"

definition on_right :: "('q, 'd) RateProvider_ops \<Rightarrow> ('p + 'q, 'd) RateProvider_ops" where
  "on_right P = \<lparr>rp_GetCurrencyRate = (\<lambda>s pair. case s of
        Inl p \<Rightarrow> (Panic, Inl p)
      | Inr q \<Rightarrow> (let (x, q') = rp_GetCurrencyRate P q pair in (x, Inr q'))),
     rp_Provider = rp_Provider P, rp_Indicative = rp_Indicative P, rp_StaleAfter = rp_StaleAfter P\<rparr>"

text \<open>What the process finds outside: decimals, the upstream behind a client, the random draws and
  time readings of the fake provider, and its environment.\<close>

record ('h, 'd) outside =
  os_decimal :: "'d decimal_ops"
  os_upstream :: "http_client \<Rightarrow> ('h, 'd) exchange_env \<times> 'h"
  os_clock :: SystemClock
  os_draws :: "nat \<Rightarrow> fake_draw"
  os_getenv :: "string \<Rightarrow> string"
  os_fmt :: fmt

definition newRateProvider ::
  "('h, 'd::zero) outside \<Rightarrow> Config \<Rightarrow> (('h adapter, 'd) RateProvider_ops \<times> 'h adapter) go" where
  "newRateProvider S cfg =
     (if cfg_Provider cfg = ProviderFake
      then Ok (on_left (fake_provider system_clock (os_decimal S) (cfg_QuoteTTL cfg)),
               Inl (NewFakeRateProvider (os_clock S) (cfg_FakeProviderMinDelay cfg)
                      (cfg_FakeProviderMaxDelay cfg) (cfg_FakeProviderRPMQuota cfg) (cfg_QuoteTTL cfg) (os_draws S)))
      else if cfg_Provider cfg = ProviderExchangerateDev
      then let client = httpclient_New (cfg_ProviderHTTPTimeout cfg) (cfg_ProviderHTTPMaxIdleConnsPerHost cfg)
                 (cfg_ProviderHTTPIdleConnTimeout cfg);
               (X, h) = os_upstream S client
           in Ok (on_right (dev_provider X (NewExchangerateDevProvider DefaultBaseURL
                     (os_getenv S ''PROVIDER_API_KEY'') (cfg_QuoteTTL cfg))), Inr h)
      else Err (ErrOther (''no adapter wired for provider '' @ fmt_q (os_fmt S) (cfg_Provider cfg))))"

section \<open>The connection pool\<close>

record pool_config =
  MaxConns :: int
  MaxConnLifetime :: duration
  HealthCheckPeriod :: duration

text \<open>The conversion \<open>int32(n)\<close>.\<close>

definition wrap32 :: "int \<Rightarrow> int" where
  "wrap32 n = (n + 2 ^ 31) mod 2 ^ 32 - 2 ^ 31"

text \<open>Parsing the URL, opening the pool and the first ping are the driver's.\<close>

record pgxpool =
  pp_ParseConfig :: "string \<Rightarrow> pool_config go"
  pp_NewWithConfig :: "pool_config \<Rightarrow> go_error option"
  pp_Ping :: "pool_config \<Rightarrow> go_error option"

definition pool_overrides :: "int \<Rightarrow> duration \<Rightarrow> duration \<Rightarrow> pool_config \<Rightarrow> pool_config" where
  "pool_overrides maxConns maxConnLifetime healthCheckPeriod c =
     (let c1 = (if 0 < maxConns then c\<lparr>MaxConns := wrap32 maxConns\<rparr> else c);
          c2 = (if 0 < maxConnLifetime then c1\<lparr>MaxConnLifetime := maxConnLifetime\<rparr> else c1)
      in if 0 < healthCheckPeriod then c2\<lparr>HealthCheckPeriod := healthCheckPeriod\<rparr> else c2)"

definition NewPool :: "pgxpool \<Rightarrow> string \<Rightarrow> int \<Rightarrow> duration \<Rightarrow> duration \<Rightarrow> pool_config go" where
  "NewPool X url maxConns maxConnLifetime healthCheckPeriod =
     (case pp_ParseConfig X url of
        Err e \<Rightarrow> Err (ErrWrap ''postgres: parse pool config'' e)
      | Panic \<Rightarrow> Panic
      | Ok c0 \<Rightarrow>
          let c = pool_overrides maxConns maxConnLifetime healthCheckPeriod c0
          in case pp_NewWithConfig X c of
               Some e \<Rightarrow> Err (ErrWrap ''postgres: new pool'' e)
             | None \<Rightarrow> (case pp_Ping X c of
                          Some e \<Rightarrow> Err (ErrWrap ''postgres: ping'' e)
                        | None \<Rightarrow> Ok c))"

section \<open>The wiring\<close>

definition wire_worker ::
  "'d::zero pg_env \<Rightarrow> ('p, 'd) RateProvider_ops \<Rightarrow> ('d \<Rightarrow> int) \<Rightarrow> fmt \<Rightarrow> duration \<Rightarrow> Config
     \<Rightarrow> (PgRepo, 'p, SystemClock, 'd) Worker" where
  "wire_worker K P Sign F cvt cfg =
     NewWorker (pg_ops K) P system_clock (cfg_DispatchBaseBackoff cfg) (cfg_DispatchMaxBackoff cfg)
       (cfg_DispatchMaxAttempts cfg) (cfg_DispatchMaxLifetime cfg) Sign F cvt"

definition wire_dispatcher ::
  "'d::zero pg_env \<Rightarrow> ('p, 'd) RateProvider_ops \<Rightarrow> ('d \<Rightarrow> int) \<Rightarrow> fmt \<Rightarrow> duration \<Rightarrow> Config
     \<Rightarrow> (PgRepo, 'p, SystemClock, 'd) Dispatcher" where
  "wire_dispatcher K P Sign F cvt cfg =
     NewDispatcher (pg_ops K) system_clock (wire_worker K P Sign F cvt cfg) (cfg_DispatchBatchSize cfg)
       (cfg_DispatchPoolSize cfg) (cfg_DispatchVisibilityTimeout cfg) (cfg_DispatchPassTimeout cfg)"

text \<open>The state the process starts with: the limiter full, the nudge channel empty with room for one.\<close>

definition wire_service ::
  "Config \<Rightarrow> PgRepo \<Rightarrow> 'p \<Rightarrow> SystemClock \<Rightarrow> (nat \<Rightarrow> uuid) \<Rightarrow> (nat \<Rightarrow> nat) \<Rightarrow> (PgRepo, 'p, SystemClock) service" where
  "wire_service cfg r p c ids rand =
     \<lparr>sc_server = \<lparr>sv_repo = r, sv_clock = c, sv_nudge = Some (1, 0), sv_ids = ids, sv_turn = 0, sv_log = []\<rparr>,
      sc_prov = p, sc_limiter = NewRateLimiter (cfg_RateLimitPerMinute cfg) (cfg_RateLimitPerHour cfg),
      sc_rand = rand, sc_turn = 0\<rparr>"

section \<open>The life of the process\<close>

text \<open>The migration tool \<open>goose\<close> and the \<open>database/sql\<close> handle it works on: what each call the
  program makes returns.\<close>

record goose =
  sql_Open :: "string \<Rightarrow> go_error option"
  db_Close :: "go_error option"
  NewPostgresSessionLocker :: "go_error option"
  fs_Sub :: "go_error option"
  goose_NewProvider :: "go_error option"
  provider_Up :: "go_error option"

definition newMigrationProvider :: "goose \<Rightarrow> go_error option" where
  "newMigrationProvider G =
     (case fs_Sub G of
        Some e \<Rightarrow> Some (ErrWrap ''postgres: migrations subdir'' e)
      | None \<Rightarrow> map_option (ErrWrap ''postgres: new migration provider'') (goose_NewProvider G))"

definition errors_Join :: "go_error option \<Rightarrow> go_error \<Rightarrow> go_error" where
  "errors_Join err e = (case err of None \<Rightarrow> e | Some e' \<Rightarrow> ErrJoin e' e)"

definition Migrate :: "goose \<Rightarrow> string \<Rightarrow> go_error option" where
  "Migrate G url =
     (case sql_Open G url of
        Some e \<Rightarrow> Some (ErrWrap ''postgres: open for migration'' e)
      | None \<Rightarrow>
          let err = (case NewPostgresSessionLocker G of
                       Some e \<Rightarrow> Some (ErrWrap ''postgres: new session locker'' e)
                     | None \<Rightarrow> (case newMigrationProvider G of
                                  Some e \<Rightarrow> Some e
                                | None \<Rightarrow> map_option (ErrWrap ''postgres: migrate'') (provider_Up G)))
          in case db_Close G of
               None \<Rightarrow> err
             | Some c \<Rightarrow> Some (errors_Join err (ErrWrap ''postgres: close migration connection'' c)))"

text \<open>The HTTP server the router is put into.\<close>

record http_server =
  hs_Addr :: string
  hs_ReadTimeout :: duration
  hs_ReadHeaderTimeout :: duration
  hs_WriteTimeout :: duration
  hs_IdleTimeout :: duration

definition wire_http :: "Config \<Rightarrow> http_server" where
  "wire_http cfg = \<lparr>hs_Addr = cfg_HTTPAddr cfg, hs_ReadTimeout = cfg_ReadTimeout cfg,
     hs_ReadHeaderTimeout = cfg_ReadHeaderTimeout cfg, hs_WriteTimeout = cfg_WriteTimeout cfg,
     hs_IdleTimeout = cfg_IdleTimeout cfg\<rparr>"

text \<open>How the server stops: \<open>ListenAndServe\<close> returned (\<open>True\<close> for \<open>ErrServerClosed\<close>), or a signal came
  and \<open>Shutdown\<close> returned. The dispatcher is stopped on the way out: the pass in flight needs
  \<open>passTime\<close> more and is abandoned to the reaper when that is over \<open>ShutdownTimeout\<close>. The result is the
  exit code and whether a pass was abandoned.\<close>

datatype serve_end = Serve_returned bool | Signalled "go_error option"

definition run :: "unicode \<Rightarrow> ('h, 'd::zero) outside \<Rightarrow> string list \<Rightarrow> goose
    \<Rightarrow> pgxpool \<Rightarrow> (http_server \<Rightarrow> serve_end) \<Rightarrow> duration \<Rightarrow> int \<times> bool" where
  "run U S args G X serve passTime =
     (case Load U args (os_getenv S) of
        Err e \<Rightarrow> (1, False)
      | Panic \<Rightarrow> (2, False)
      | Ok cfg \<Rightarrow>
          if Migrate G (cfg_DatabaseURL cfg) \<noteq> None then (1, False)
          else if \<not> is_ok (NewPool X (cfg_DatabaseURL cfg) (cfg_PostgresMaxConns cfg)
                            (cfg_PostgresMaxConnLifetime cfg) (cfg_PostgresHealthCheckPeriod cfg)) then (1, False)
          else if \<not> is_ok (newRateProvider S cfg) then (1, False)
          else (case serve (wire_http cfg) of
                  Serve_returned closed \<Rightarrow> if closed then 0 else 1
                | Signalled shutdown \<Rightarrow> if shutdown \<noteq> None then 1 else 0,
                cfg_ShutdownTimeout cfg < passTime))"

section \<open>Lemmas\<close>

lemma on_left_provider: "rate_provider P \<Longrightarrow> rate_provider (on_left P)"
  unfolding rate_provider_def by (auto simp: on_left_def split: sum.splits prod.splits)

lemma on_right_provider: "rate_provider P \<Longrightarrow> rate_provider (on_right P)"
  unfolding rate_provider_def by (auto simp: on_right_def split: sum.splits prod.splits)

lemma newRateProvider_provider: "newRateProvider S cfg = Ok (P, p) \<Longrightarrow> rate_provider P"
  by (auto simp: newRateProvider_def Let_def on_left_provider on_right_provider fake.rate_provider_axioms
      dev.rate_provider_axioms split: if_splits prod.splits)

lemma wire_worker_worker:
  assumes "rate_provider P"
  shows "worker (wire_worker (undisturbed K) P Sign F cvt cfg) (pg_abs (undisturbed K)) pg_inv (keep_time K)
    (pg_kept (undisturbed K))"
  using assms by (intro worker.intro) (simp_all add: wire_worker_def NewWorker_def pg.repository_axioms)

lemma wire_dispatcher_dispatcher:
  assumes "rate_provider P" "0 \<le> cfg_DispatchBatchSize cfg"
  shows "dispatcher (wire_dispatcher (undisturbed K) P Sign F cvt cfg) (pg_abs (undisturbed K)) pg_inv
    (keep_time K) (pg_kept (undisturbed K))"
proof -
  have "dp_worker (wire_dispatcher (undisturbed K) P Sign F cvt cfg) = wire_worker (undisturbed K) P Sign F cvt cfg"
    by (simp add: wire_dispatcher_def NewDispatcher_def)
  with wire_worker_worker [OF assms(1), of K Sign F cvt cfg] assms(2) show ?thesis
    by (intro dispatcher.intro)
      (simp_all add: dispatcher_axioms_def wire_dispatcher_def NewDispatcher_def wire_worker_def NewWorker_def)
qed

lemma wire_service_service:
  assumes "rate_provider P" "0 \<le> cfg_DispatchBatchSize cfg"
  shows "service (E\<lparr>he_repo := pg_ops (undisturbed K)\<rparr>) (wire_dispatcher (undisturbed K) P Sign F cvt cfg)
    (pg_abs (undisturbed K)) pg_inv (keep_time K) (pg_kept (undisturbed K))"
  by (rule service.intro [OF pg_api.api_axioms wire_dispatcher_dispatcher [OF assms]])

lemma wire_drain_window:
  assumes "rate_provider P" "0 \<le> cfg_DispatchBatchSize cfg" "\<And>x y. x \<le> y \<Longrightarrow> keep_time K x \<le> keep_time K y"
    and "T - t0 \<le> cfg_DispatchVisibilityTimeout cfg"
  shows "drain_window (wire_dispatcher (undisturbed K) P Sign F cvt cfg) (pg_abs (undisturbed K)) pg_inv
    (keep_time K) (pg_kept (undisturbed K)) (clock_within t0 T) t0 T"
  using wire_dispatcher_dispatcher [OF assms(1,2)] assms(3,4) clock_within_Now
  by (intro drain_window.intro)
    (auto simp: drain_window_axioms_def wire_dispatcher_def NewDispatcher_def wire_worker_def NewWorker_def)

lemma Load_provider:
  assumes "Load U args getenv = Ok cfg"
  shows "cfg_Provider cfg \<in> {ProviderFake, ProviderExchangerateDev}" "0 \<le> cfg_DispatchBatchSize cfg"
proof -
  have "check_config cfg = Ok cfg" using Load_stages [OF assms] by metis
  then show "cfg_Provider cfg \<in> {ProviderFake, ProviderExchangerateDev}"
    by (auto simp: check_config_Ok Provider_valid_def)
  have "(''DISPATCH_BATCH_SIZE'', cfg_DispatchBatchSize, cfg_DispatchBatchSize_update) \<in> set int_fields"
    by (simp add: int_fields_def)
  with Load_positive(3) [OF assms] have "0 < cfg_DispatchBatchSize cfg" by blast
  then show "0 \<le> cfg_DispatchBatchSize cfg" by simp
qed

lemma newRateProvider_total:
  assumes "cfg_Provider cfg \<in> {ProviderFake, ProviderExchangerateDev}"
  shows "is_ok (newRateProvider S cfg)"
  using assms by (auto simp: newRateProvider_def Let_def split: prod.split)

section \<open>Concrete values\<close>

definition sample_upstream :: "http_client \<Rightarrow> (unit, int) exchange_env \<times> unit" where
  "sample_upstream client = (\<lparr>http_Do = (\<lambda>h url auth. (Response 503 [] (Body ''busy''), h)),
     json_errtext = (\<lambda>b. ''eof''), parse_rfc3339 = (\<lambda>s. None), http_ParseTime = (\<lambda>s. None),
     time_Now = (\<lambda>h. 0), NewFromString = (\<lambda>s. Inl s)\<rparr>, ())"

definition sample_outside :: "(unit, int) outside" where
  "sample_outside = \<lparr>os_decimal = sample_decimal, os_upstream = sample_upstream,
     os_clock = NewSystemClock 4000 [], os_draws = (\<lambda>n. \<lparr>draw_delay = 0, draw_rate = 0, ctx_ends = False\<rparr>),
     os_getenv = sample_getenv, os_fmt = sample_fmt\<rparr>"

definition sample_args :: "string list" where
  "sample_args = concat (map render_flag [SetStorage False ''Postgres'', SetProvider True ''FAKE''])"

definition sample_adapter :: "(unit adapter, int) RateProvider_ops \<times> unit adapter" where
  "sample_adapter =
     (on_left (fake_provider system_clock sample_decimal (cfg_QuoteTTL sample_config)),
      Inl (NewFakeRateProvider (NewSystemClock 4000 []) 0 0 0 (cfg_QuoteTTL sample_config)
             (\<lambda>n. \<lparr>draw_delay = 0, draw_rate = 0, ctx_ends = False\<rparr>)))"

lemma sample_newRateProvider: "newRateProvider sample_outside sample_config = Ok sample_adapter"
  by (simp add: newRateProvider_def sample_outside_def sample_adapter_def sample_config_def default_config_def
      ProviderFake_def)

lemma sample_args_Load: "Load config_unicode sample_args sample_getenv = Ok sample_config"
  unfolding sample_args_def by (rule sample_Load)

definition sample_pg_env :: "(PgRepo, SystemClock, int) http_env" where
  "sample_pg_env = \<lparr>he_repo = pg_ops (undisturbed sample_pg), he_clock = system_clock,
     he_unicode = sample_unicode, he_fmt = sample_fmt,
     he_parse_uuid = (\<lambda>s. if s = uuid_String 1 then Some 1 else None), he_StringFixed = itoa,
     he_ready = (\<lambda>s. True)\<rparr>"

lemma sample_pg_env_repo [simp]: "sample_pg_env\<lparr>he_repo := pg_ops (undisturbed sample_pg)\<rparr> = sample_pg_env"
  by (simp add: sample_pg_env_def)

definition sample_started :: "(PgRepo, unit adapter, SystemClock) service" where
  "sample_started = wire_service sample_config pg_migrated (snd sample_adapter) (NewSystemClock 5000 [10, 20, 30, 40])
     (\<lambda>n. of_nat (n + 1)) (\<lambda>n. 0)"

definition sample_wired :: "(PgRepo, unit adapter, SystemClock, int) Dispatcher" where
  "sample_wired = wire_dispatcher (undisturbed sample_pg) (fst sample_adapter) sgn sample_fmt 0 sample_config"

definition sample_posted :: "(PgRepo, unit adapter, SystemClock) service" where
  "sample_posted = sample_started\<lparr>sc_server :=
     fst (snd (NewRouter sample_pg_env (cfg_CORSAllowedOrigins sample_config) sample_post
                 (sc_server sample_started) new_response))\<rparr>"

definition sample_passed :: "(PgRepo, unit adapter, SystemClock) service" where
  "sample_passed = put_world (snd (runPassRecovered sample_wired rev (world_of sample_posted))) sample_posted"

lemma sample_server_steps:
  "service_step sample_pg_env (cfg_CORSAllowedOrigins sample_config) sample_wired
     (\<lambda>r i. st_rows (pg_abs (undisturbed sample_pg) r) i \<noteq> None) sample_started sample_posted"
  "service_step sample_pg_env (cfg_CORSAllowedOrigins sample_config) sample_wired
     (\<lambda>r i. st_rows (pg_abs (undisturbed sample_pg) r) i \<noteq> None) sample_posted sample_passed"
proof -
  show "service_step sample_pg_env (cfg_CORSAllowedOrigins sample_config) sample_wired
     (\<lambda>r i. st_rows (pg_abs (undisturbed sample_pg) r) i \<noteq> None) sample_started sample_posted"
    unfolding sample_posted_def
    by (rule Step_request [where rq = sample_post and res = "fst (NewRouter sample_pg_env
          (cfg_CORSAllowedOrigins sample_config) sample_post (sc_server sample_started) new_response)"
          and w = "snd (snd (NewRouter sample_pg_env
          (cfg_CORSAllowedOrigins sample_config) sample_post (sc_server sample_started) new_response))"])
      (simp_all add: ids_fresh_def sample_started_def wire_service_def pg_migrated_def)
  show "service_step sample_pg_env (cfg_CORSAllowedOrigins sample_config) sample_wired
     (\<lambda>r i. st_rows (pg_abs (undisturbed sample_pg) r) i \<noteq> None) sample_posted sample_passed"
    unfolding sample_passed_def
    by (rule Step_pass [where order = rev, OF _ prod.collapse [symmetric]]) simp
qed

lemma sample_server_run:
  "service_run sample_pg_env (cfg_CORSAllowedOrigins sample_config) sample_wired
     (\<lambda>r i. st_rows (pg_abs (undisturbed sample_pg) r) i \<noteq> None) sample_started sample_passed"
  using sample_server_steps by (blast intro: service_run.intros)

section \<open>Properties\<close>

text \<open>C17. The service as \<open>run\<close> wires it from a configuration that \<open>Load\<close> returned, on a freshly migrated
  database and with either adapter: after any sequence of HTTP requests, dispatcher passes and clock
  changes the tables are well formed and every row, key and journal entry has only evolved as the
  repository promises. Calls may fail, but a failed call has no
  effect and no row is skipped for the lock of another transaction (\<open>undisturbed\<close>).\<close>

theorem server_sound:
  assumes "Load U args (os_getenv S) = Ok cfg" "newRateProvider S cfg = Ok (P, p)"
    and "service_run (E\<lparr>he_repo := pg_ops (undisturbed K)\<rparr>) (cfg_CORSAllowedOrigins cfg)
      (wire_dispatcher (undisturbed K) P Sign F cvt cfg)
      (\<lambda>r i. st_rows (pg_abs (undisturbed K) r) i \<noteq> None)
      (wire_service cfg pg_migrated p c ids rand) s"
    and "service_run (E\<lparr>he_repo := pg_ops (undisturbed K)\<rparr>) (cfg_CORSAllowedOrigins cfg)
      (wire_dispatcher (undisturbed K) P Sign F cvt cfg)
      (\<lambda>r i. st_rows (pg_abs (undisturbed K) r) i \<noteq> None) s s'"
  shows "pg_inv (sv_repo (sc_server s')) \<and> store_ok (pg_abs (undisturbed K) (sv_repo (sc_server s')))
    \<and> evolves (pg_abs (undisturbed K) (sv_repo (sc_server s))) (pg_abs (undisturbed K) (sv_repo (sc_server s')))"
proof -
  note svc = wire_service_service [OF newRateProvider_provider [OF assms(2)] Load_provider(2) [OF assms(1)],
      where E = E and K = K and Sign = Sign and F = F and cvt = cvt]
  note inv = service.service_inv_def [OF svc]
  have "service.service_inv (pg_abs (undisturbed K)) pg_inv (wire_service cfg pg_migrated p c ids rand)"
    by (simp add: inv wire_service_def pg_migrated_ok)
  from service.run_inv [OF svc assms(3) this] service.run_inv [OF svc assms(4)] show ?thesis
    by (simp add: inv)
qed

theorem server_sound_witness:
  "store_ok (pg_abs (undisturbed sample_pg) (sv_repo (sc_server sample_passed)))"
proof -
  have "newRateProvider sample_outside sample_config = Ok (fst sample_adapter, snd sample_adapter)"
    by (simp add: sample_newRateProvider)
  moreover have "Load config_unicode sample_args (os_getenv sample_outside) = Ok sample_config"
    using sample_args_Load by (simp add: sample_outside_def)
  ultimately show ?thesis
    using server_sound [where U = config_unicode and args = sample_args and S = sample_outside
        and cfg = sample_config and P = "fst sample_adapter" and p = "snd sample_adapter" and E = sample_pg_env
        and K = sample_pg and Sign = sgn and F = sample_fmt and cvt = 0
        and c = "NewSystemClock 5000 [10, 20, 30, 40]" and ids = "\<lambda>n. of_nat (n + 1)" and rand = "\<lambda>n. 0"
        and s = sample_passed and s' = sample_passed]
      sample_server_run Run_refl
    unfolding sample_pg_env_repo sample_wired_def [symmetric] sample_started_def [symmetric] by blast
qed

text \<open>C18. The drain loop of the wired dispatcher returns, whatever the backlog, the adapter and the
  upstream do, as long as the clock readings of the drain stay within the configured visibility timeout
  and the column precision keeps instants in order. Calls may fail, but a failed call has no
  effect and no row is skipped for the lock of another transaction (\<open>undisturbed\<close>).\<close>

theorem server_drain_terminates:
  assumes "Load U args (os_getenv S) = Ok cfg" "newRateProvider S cfg = Ok (P, p)"
    and "pg_inv (w_repo w)" "store_ok (pg_abs (undisturbed K) (w_repo w))"
    and "\<And>xs. mset (order xs) = mset xs" "\<And>x y. x \<le> y \<Longrightarrow> keep_time K x \<le> keep_time K y"
    and "int (sum_list (elapses (w_clock w))) \<le> cfg_DispatchVisibilityTimeout cfg"
  shows "\<exists>stopped w'. drain (wire_dispatcher (undisturbed K) P Sign F cvt cfg) order cancelled w = Some (stopped, w')
    \<and> pg_inv (w_repo w') \<and> store_ok (pg_abs (undisturbed K) (w_repo w'))"
proof -
  let ?t0 = "wall (w_clock w)" and ?T = "wall (w_clock w) + cfg_DispatchVisibilityTimeout cfg"
  have "drain_window (wire_dispatcher (undisturbed K) P Sign F cvt cfg) (pg_abs (undisturbed K)) pg_inv
      (keep_time K) (pg_kept (undisturbed K)) (clock_within ?t0 ?T) ?t0 ?T"
    using newRateProvider_provider [OF assms(2)] Load_provider(2) [OF assms(1)] assms(6)
    by (intro wire_drain_window) auto
  from drain_window.drain_returns [OF this assms(3,4) _ assms(5)] assms(7) show ?thesis
    by (fastforce simp: clock_within_def)
qed

theorem server_drain_terminates_witness:
  "\<exists>stopped w'. drain sample_wired rev (\<lambda>n. False) (world_of sample_started) = Some (stopped, w')
    \<and> pg_inv (w_repo w') \<and> store_ok (pg_abs (undisturbed sample_pg) (w_repo w'))"
  unfolding sample_wired_def
proof (rule server_drain_terminates)
  show "Load config_unicode sample_args (os_getenv sample_outside) = Ok sample_config"
    using sample_args_Load by (simp add: sample_outside_def)
  show "newRateProvider sample_outside sample_config = Ok (fst sample_adapter, snd sample_adapter)"
    by (simp add: sample_newRateProvider)
  show "int (sum_list (elapses (w_clock (world_of sample_started)))) \<le> cfg_DispatchVisibilityTimeout sample_config"
    by (simp add: world_of_def sample_started_def wire_service_def NewSystemClock_def sample_config_def
        default_config_def Second_def)
  show "keep_time sample_pg x \<le> keep_time sample_pg y" if "x \<le> y" for x y
    using that by (simp add: sample_pg_def zdiv_mono1)
qed (simp_all add: world_of_def sample_started_def wire_service_def pg_migrated_ok)

text \<open>The exit code: the process ends with 0 exactly when the configuration loads, the migrations and
  the pool succeed and the server closes or shuts down cleanly; a configuration that loads always names
  an adapter, so choosing one never stops the start. A pass is abandoned only by a process that got as far
  as serving, and only after \<open>ShutdownTimeout\<close>.\<close>

theorem run_exit_code:
  "(fst (run U S args G X serve t) = 0 \<longleftrightarrow>
     (\<exists>cfg. Load U args (os_getenv S) = Ok cfg \<and> Migrate G (cfg_DatabaseURL cfg) = None
        \<and> is_ok (NewPool X (cfg_DatabaseURL cfg) (cfg_PostgresMaxConns cfg) (cfg_PostgresMaxConnLifetime cfg)
                   (cfg_PostgresHealthCheckPeriod cfg))
        \<and> serve (wire_http cfg) \<in> {Serve_returned True, Signalled None}))
   \<and> (snd (run U S args G X serve t) \<longleftrightarrow>
     (\<exists>cfg. Load U args (os_getenv S) = Ok cfg \<and> Migrate G (cfg_DatabaseURL cfg) = None
        \<and> is_ok (NewPool X (cfg_DatabaseURL cfg) (cfg_PostgresMaxConns cfg) (cfg_PostgresMaxConnLifetime cfg)
                   (cfg_PostgresHealthCheckPeriod cfg))
        \<and> cfg_ShutdownTimeout cfg < t))"
proof (cases "Load U args (os_getenv S)")
  case (Ok cfg)
  from newRateProvider_total [OF Load_provider(1) [OF Ok], of S] Ok show ?thesis
    by (auto simp: run_def split: serve_end.split)
qed (simp_all add: run_def)

text \<open>The pool limit that the server opens its pool with is the configured one when that fits 32 bits;
  so it covers the workers of the dispatcher, as \<open>Load\<close> checked.\<close>

theorem pool_covers_workers:
  assumes "Load U args getenv = Ok cfg" "0 < cfg_PostgresMaxConns cfg" "cfg_PostgresMaxConns cfg < 2 ^ 31"
  shows "MaxConns (pool_overrides (cfg_PostgresMaxConns cfg) t h c) = cfg_PostgresMaxConns cfg
    \<and> cfg_DispatchPoolSize cfg \<le> MaxConns (pool_overrides (cfg_PostgresMaxConns cfg) t h c)"
proof -
  have "check_config cfg = Ok cfg" using Load_stages [OF assms(1)] by metis
  with assms(2,3) show ?thesis by (simp add: check_config_Ok pool_overrides_def wrap32_def Let_def)
qed

theorem pool_covers_workers_witness:
  "MaxConns (pool_overrides 20 0 0 \<lparr>MaxConns = 4, MaxConnLifetime = 0, HealthCheckPeriod = 0\<rparr>) = 20
    \<and> (16::int) \<le> 20"
  using pool_covers_workers [OF sample_Load, of 0 0 "\<lparr>MaxConns = 4, MaxConnLifetime = 0, HealthCheckPeriod = 0\<rparr>"]
  by (simp add: sample_config_def)

text \<open>Beyond 32 bits the conversion wraps: a configuration that \<open>Load\<close> accepts because the pool is larger
  than the number of workers opens a pool of a single connection.\<close>

theorem pool_limit_wraps:
  "check_config (sample_config\<lparr>cfg_PostgresMaxConns := 2 ^ 32 + 1\<rparr>) = Ok (sample_config\<lparr>cfg_PostgresMaxConns := 2 ^ 32 + 1\<rparr>)
    \<and> cfg_DispatchPoolSize sample_config = 16 \<and> MaxConns (pool_overrides (2 ^ 32 + 1) t h c) = 1"
  by (simp add: check_config_Ok sample_config_def Provider_valid_def Storage_valid_def ProviderFake_def
      StoragePostgres_def default_config_def Second_def Minute_def pool_overrides_def wrap32_def Let_def)

end
