(* ===== verification/Attempts.thy ===== *)
theory Attempts
  imports Server Wire
begin

text \<open>
  The attempts budget (\<open>DISPATCH_MAX_ATTEMPTS\<close>) over whole runs: a claim of a pending row uses an attempt, and only
  a worker that still has one makes a row pending again. So no request is tried more often than configured, and
  every request is finished once enough passes have resolved it, whatever requests, passes and clock changes the
  service goes through.
\<close>

section \<open>The budget of a row\<close>

definition row_within :: "int \<Rightarrow> queue_row \<Rightarrow> bool" where
  "row_within m q \<longleftrightarrow> Attempts (q_req q) \<le> m \<and> (Status (q_req q) = StatusPending \<longrightarrow> Attempts (q_req q) < m)"

definition within_attempts :: "int \<Rightarrow> 'd store \<Rightarrow> bool" where
  "within_attempts m S \<longleftrightarrow> (\<forall>i q. st_rows S i = Some q \<longrightarrow> row_within m q)"

text \<open>How often it can still be resolved: once for every attempt that is left and for the one in progress.\<close>

definition row_budget :: "int \<Rightarrow> queue_row \<Rightarrow> nat" where
  "row_budget m q =
     (case Status (q_req q) of
        StatusPending \<Rightarrow> nat (m - Attempts (q_req q))
      | StatusInProgress \<Rightarrow> nat (m - Attempts (q_req q) + 1)
      | _ \<Rightarrow> 0)"

text \<open>A row moves on within its budget; when it moves out of progress, it has spent some.\<close>

definition spends :: "int \<Rightarrow> queue_row \<Rightarrow> queue_row \<Rightarrow> bool" where
  "spends m q q' \<longleftrightarrow> (row_within m q \<longrightarrow> row_within m q' \<and> row_budget m q' \<le> row_budget m q
     \<and> (q' \<noteq> q \<longrightarrow> Status (q_req q') \<noteq> StatusInProgress \<longrightarrow> row_budget m q' < row_budget m q))"

definition spending :: "int \<Rightarrow> 'd store \<Rightarrow> 'd store \<Rightarrow> bool" where
  "spending m S S' \<longleftrightarrow> (\<forall>i q'. st_rows S' i = Some q' \<longrightarrow>
     (case st_rows S i of None \<Rightarrow> row_within m q' | Some q \<Rightarrow> spends m q q'))"

lemma row_budget_le:
  assumes "row_ok S i q"
  shows "row_budget m q \<le> nat m"
proof (cases "Status (q_req q)")
  case StatusInProgress
  with assms have "0 < Attempts (q_req q)" by (simp add: row_ok_def)
  with StatusInProgress show ?thesis by (simp add: row_budget_def)
qed (use assms in \<open>auto simp: row_budget_def row_ok_def intro!: nat_mono\<close>)

lemma row_budget_finished:
  "row_within m q \<Longrightarrow> Status_Valid (Status (q_req q)) \<Longrightarrow>
    0 < row_budget m q \<or> Status (q_req q) \<in> {StatusSucceeded, StatusFailed}"
  by (cases "Status (q_req q)") (auto simp: row_budget_def row_within_def Status_Valid_def)

lemma spends_refl [simp]: "spends m q q"
  by (simp add: spends_def)

lemma spending_refl [simp]: "spending m S S"
  by (simp add: spending_def)

lemma within_attempts_empty: "within_attempts m empty_store"
  by (simp add: within_attempts_def empty_store_def)

lemma within_attempts_spending: "within_attempts m S \<Longrightarrow> spending m S S' \<Longrightarrow> within_attempts m S'"
  unfolding within_attempts_def spending_def spends_def by (metis (no_types, lifting) not_None_eq option.case)

lemma row_within_new: "0 < m \<Longrightarrow> row_within m (new_row ct (NewCurrencyRateUpdateRequest i p t) key)"
  by (simp add: row_within_def new_row_def NewCurrencyRateUpdateRequest_def)

text \<open>What a worker makes of a row in progress: finished, or pending if there is an attempt left.\<close>

definition works :: "int \<Rightarrow> queue_row \<Rightarrow> queue_row \<Rightarrow> bool" where
  "works m q q' \<longleftrightarrow> q' = q \<or> (Status (q_req q) = StatusInProgress \<and>
     (Status (q_req q') \<in> {StatusSucceeded, StatusFailed} \<and> Attempts (q_req q') = Attempts (q_req q)
      \<or> Status (q_req q') = StatusPending \<and> Attempts (q_req q') = Attempts (q_req q) \<and> Attempts (q_req q) < m))"

lemma works_trans: "works m q q' \<Longrightarrow> works m q' q'' \<Longrightarrow> works m q q''"
  by (auto simp: works_def)

lemma works_spends: "works n q q' \<Longrightarrow> n \<le> m \<Longrightarrow> spends m q q'"
  by (auto simp: works_def spends_def row_within_def row_budget_def)

text \<open>A claim and the work on it.\<close>

lemma claimed_works_spends:
  assumes "claimable n v q" "works k (claimed_row now q) q'" "k \<le> m"
  shows "spends m q q'"
proof -
  have c: "Status (q_req (claimed_row now q)) = StatusInProgress"
    "row_within m q \<Longrightarrow> row_within m (claimed_row now q) \<and> row_budget m (claimed_row now q) \<le> row_budget m q"
    using assms(1) by (auto simp: claimed_row_def claimable_def row_within_def row_budget_def)
  from works_spends [OF assms(2,3)] c show ?thesis by (cases "q' = claimed_row now q") (fastforce simp: spends_def)+
qed

text \<open>The batch a pass works through: each request as its row was claimed.\<close>

definition counted :: "'d store \<Rightarrow> CurrencyRateUpdateRequest \<Rightarrow> bool" where
  "counted S req \<longleftrightarrow> (\<forall>q. st_rows S (ID req) = Some q \<longrightarrow> Attempts (q_req q) = Attempts req)"

lemma claim_spec_counted:
  assumes "claim_spec ct S limit now vis (Ok claimed) S'" "req \<in> set claimed"
  shows "counted S' req"
proof -
  from assms obtain q where q: "st_rows S' (ID req) = Some q" "req\<lparr>Reused := Reused (q_req q)\<rparr> = q_req q"
    unfolding claim_spec_def Let_def by blast
  from arg_cong [OF q(2), of Attempts] q(1) show ?thesis by (simp add: counted_def)
qed

section \<open>Worker, pass, request, step\<close>

context worker
begin

lemma Process_works:
  assumes "inv (w_repo w)" "store_ok (abs (w_repo w))" "held (abs (w_repo w)) req" "counted (abs (w_repo w)) req"
    and "Process W w req = (res, w')"
  shows "rel_option (works (maxAttempts W)) (st_rows (abs (w_repo w)) i) (st_rows (abs (w_repo w')) i)"
proof (cases "is_ok res \<and> i = ID req")
  case False
  with Process_effect [OF assms(1-3,5)] process_spec_other have "st_rows (abs (w_repo w')) i = st_rows (abs (w_repo w)) i"
    by (metis process_spec_def)
  then show ?thesis by (simp add: option.rel_refl works_def)
next
  case True
  then have ok: "res = Ok ()" by (cases res) auto
  from Process_effect [OF assms(1-3,5)] True obtain q q' where
    q: "st_rows (abs (w_repo w)) i = Some q" "Status (q_req q) = StatusInProgress"
      "st_rows (abs (w_repo w')) = (st_rows (abs (w_repo w)))(i \<mapsto> q')"
      "resolved (abs (w_repo w)) (abs (w_repo w')) (Pair req) q q'"
    by (auto simp: process_spec_def)
  have n: "Attempts (q_req q') = Attempts (q_req q)" "Attempts (q_req q) = Attempts req"
    "Status (q_req q') \<in> {StatusSucceeded, StatusFailed, StatusPending}"
    using q(1,4) assms(4) True by (auto simp: resolved_def succeeded_row_def failed_row_def counted_def)
  have "Attempts req < maxAttempts W" if "Status (q_req q') = StatusPending"
    using exhausted_closes [OF assms(1-3) assms(5) [unfolded ok]] that q(3) True by fastforce
  then show ?thesis using n q(1-3) by (auto simp: works_def)
qed

lemma Process_others:
  assumes "inv (w_repo w)" "store_ok (abs (w_repo w))" "held (abs (w_repo w)) req" "Process W w req = (res, w')"
    and "counted (abs (w_repo w)) other" "ID other \<noteq> ID req"
  shows "counted (abs (w_repo w')) other"
  using Process_effect [OF assms(1-4)] process_spec_other assms(5,6) unfolding counted_def by metis

end

context dispatcher
begin

lemma process_rows_works:
  assumes "inv (w_repo w)" "store_ok (abs (w_repo w))" "batch_held (abs (w_repo w)) reqs"
    and "\<forall>req \<in> set reqs. counted (abs (w_repo w)) req"
  shows "rel_option (works (maxAttempts (dp_worker D))) (st_rows (abs (w_repo w)) i)
    (st_rows (abs (w_repo (process_rows (dp_worker D) w reqs))) i)"
  using assms
proof (induction reqs arbitrary: w)
  case Nil
  then show ?case by (simp add: option.rel_refl works_def)
next
  case (Cons req reqs)
  obtain res w' where p: "Process (dp_worker D) w req = (res, w')" by fastforce
  have h: "held (abs (w_repo w)) req" "counted (abs (w_repo w)) req"
    using Cons.prems(3,4) by (simp_all add: batch_held_def)
  note e = Process_effect [OF Cons.prems(1,2) h(1) p]
  have "batch_held (abs (w_repo w')) reqs"
    using Cons.prems(3) e held_evolves unfolding batch_held_def by fastforce
  moreover have "\<forall>other \<in> set reqs. counted (abs (w_repo w')) other"
  proof
    fix other assume o: "other \<in> set reqs"
    have "ID req \<notin> ID ` set reqs" using Cons.prems(3) by (simp add: batch_held_def)
    with o have "ID other \<noteq> ID req" by (metis imageI)
    with o Cons.prems(4) show "counted (abs (w_repo w')) other"
      by (intro Process_others [OF Cons.prems(1,2) h(1) p]) simp_all
  qed
  ultimately have "rel_option (works (maxAttempts (dp_worker D))) (st_rows (abs (w_repo w')) i)
      (st_rows (abs (w_repo (process_rows (dp_worker D) w' reqs))) i)"
    using Cons.IH [of w'] e by blast
  with Process_works [OF Cons.prems(1,2) h p, of i] works_trans show ?case
    by (auto simp: p option.rel_sel)
qed

lemma pass_spending:
  assumes "inv (w_repo w)" "store_ok (abs (w_repo w))" "\<And>xs. mset (order xs) = mset xs"
    and "ClaimAndDispatch D order w = (res, w')" "maxAttempts (dp_worker D) \<le> m"
  shows "spending m (abs (w_repo w)) (abs (w_repo w'))"
proof -
  obtain now c where t: "Now (dp_clock D) (w_clock w) = (now, c)" by fastforce
  obtain cres r where c: "ClaimBatch (wk_repo (dp_worker D)) (w_repo w) (batchSize D) now (now - visibilityTimeout D) = (cres, r)"
    by fastforce
  let ?w1 = "w\<lparr>w_clock := c, w_repo := r\<rparr>"
  note law = repo.claim_law [OF assms(1,2) batch_nonneg c]
  note keeps = repo.claim_keeps [OF assms(1,2) batch_nonneg c]
  show ?thesis
  proof (cases "fault (abs (w_repo w)) cres (abs r)")
    case True
    then obtain e where "cres = Err e" "abs r = abs (w_repo w)" by (auto simp: fault_def)
    with assms(4) t c show ?thesis by (auto simp: ClaimAndDispatch_def Let_def go_defs same_repo)
  next
    case False
    with law obtain claimed where ok: "cres = Ok claimed"
      and spec: "claim_spec ct (abs (w_repo w)) (batchSize D) now (now - visibilityTimeout D) (Ok claimed) (abs r)"
      by (auto simp: claim_spec_def)
    note cl = claim_spec_held [OF spec]
    let ?w2 = "process_rows (dp_worker D) ?w1 (order claimed)"
    have w': "w' = (if claimed = [] then ?w1 else ?w2)"
      using assms(4) t c ok by (auto simp: ClaimAndDispatch_def Let_def go_defs same_repo split: if_splits)
    have "set (order claimed) = set claimed" using assms(3) by (rule mset_eq_setD)
    then have "rel_option (works (maxAttempts (dp_worker D))) (st_rows (abs r) i) (st_rows (abs (w_repo ?w2)) i)" for i
      using keeps batch_held_order [OF cl(1) assms(3)] claim_spec_counted [OF spec] process_rows_works [of ?w1 "order claimed" i]
      by simp
    moreover have "works (maxAttempts (dp_worker D)) q q" for q by (simp add: works_def)
    ultimately have work: "rel_option (works (maxAttempts (dp_worker D))) (st_rows (abs r) i) (st_rows (abs (w_repo w')) i)" for i
      using w' by (auto simp: option.rel_refl)
    show ?thesis
      unfolding spending_def
    proof (intro allI impI)
      fix i q' assume q': "st_rows (abs (w_repo w')) i = Some q'"
      with work [of i] obtain q1 where q1: "st_rows (abs r) i = Some q1" "works (maxAttempts (dp_worker D)) q1 q'"
        by (cases "st_rows (abs r) i") auto
      show "case st_rows (abs (w_repo w)) i of None \<Rightarrow> row_within m q' | Some q \<Rightarrow> spends m q q'"
      proof (cases "i \<in> ID ` set claimed")
        case True
        with cl(2) obtain q where q: "st_rows (abs (w_repo w)) i = Some q"
          "claimable (ct now) (ct (now - visibilityTimeout D)) q" by (auto simp: due_def)
        with cl(4) True q1(1) have "q1 = claimed_row (ct now) q" by simp
        with claimed_works_spends [OF q(2) _ assms(5)] q1(2) q(1) show ?thesis by simp
      next
        case False
        with cl(4) q1 works_spends [OF q1(2) assms(5)] show ?thesis by simp
      qed
    qed
  qed
qed

end

context api
begin

lemma mux_spending:
  assumes "inv (sv_repo s)" "store_ok (abs (sv_repo s))"
    and "st_rows (abs (sv_repo s)) (sv_ids s (sv_turn s)) = None"
    and "mux E rq s w = (res, s', w')" "0 < m"
  shows "spending m (abs (sv_repo s)) (abs (sv_repo s'))"
proof -
  consider "s' = s" | "postQuotesUpdatesHandler E rq s w = (res, s', w')"
    | "getQuotesLatestHandler E rq s w = (res, s', w')"
    | i where "getQuotesUpdateHandler E i rq s w = (res, s', w')"
    using assms(4) by (auto simp: mux_def Let_def healthzHandler_def readyzHandler_def split: if_splits)
  then show ?thesis
  proof cases
    case 2
    obtain res2 w2 where run: "postQuotesUpdatesHandler E rq s new_response = (res2, s', w2)"
      using post_state [of E rq s w new_response] 2 by (metis fst_conv prod.collapse snd_conv)
    show ?thesis
    proof (cases "wire_status w2 = 202")
      case True
      with post_effect [OF assms(1-3) run] obtain req where
        r: "req = NewCurrencyRateUpdateRequest (ID req) (Pair req) (CreatedAt req)" and
        new: "ID req = sv_ids s (sv_turn s)" and
        st: "abs (sv_repo s') = (abs (sv_repo s))\<lparr>st_rows := (st_rows (abs (sv_repo s)))
           (ID req \<mapsto> new_row ct req (rq_header rq ''Idempotency-Key''))\<rparr>" by auto
      have "row_within m (new_row ct req (rq_header rq ''Idempotency-Key''))"
        by (subst r) (rule row_within_new [OF assms(5)])
      then show ?thesis using assms(3) by (auto simp: spending_def st new split: option.splits if_splits)
    next
      case False
      with post_effect [OF assms(1-3) run] show ?thesis by simp
    qed
  qed (use get_latest_keeps [OF assms(1,2)] get_update_keeps [OF assms(1,2)] in auto)
qed

lemma NewRouter_spending:
  assumes "inv (sv_repo s)" "store_ok (abs (sv_repo s))"
    and "ids_fresh (\<lambda>i. st_rows (abs (sv_repo s)) i \<noteq> None) s"
    and "NewRouter E origins rq s w = (res, s', w')" "0 < m"
  shows "spending m (abs (sv_repo s)) (abs (sv_repo s'))"
proof (cases "rq_method rq = ''OPTIONS''")
  case True
  with assms show ?thesis by (auto simp: NewRouter_def corsMiddleware_def Let_def)
next
  case False
  then obtain rq1 s1 w1 where "NewRouter E origins rq s w = recoverMiddleware (loggingMiddleware (mux E)) rq1 s1 w1"
    and s1: "sv_repo s1 = sv_repo s" "sv_ids s1 = sv_ids s" "sv_turn s1 \<in> {sv_turn s, sv_turn s + 1}"
    by (cases "validRequestID (rq_header rq ''X-Request-Id'')")
       (auto simp: NewRouter_def corsMiddleware_def requestIDMiddleware_def Let_def)
  moreover obtain res2 s2 w2 where m: "mux E rq1 s1 w1 = (res2, s2, w2)" by (metis prod_cases3)
  ultimately have s': "sv_repo s' = sv_repo s2"
    using assms(4) by (cases res2; auto simp: recoverMiddleware_def loggingMiddleware_def)+
  have "st_rows (abs (sv_repo s1)) (sv_ids s1 (sv_turn s1)) = None"
    using assms(3) s1 by (auto simp: ids_fresh_def)
  from mux_spending [OF _ _ this m assms(5)] assms(1,2) s1(1) s' show ?thesis by simp
qed

end

text \<open>A run that counts the steps that resolved row \<open>i\<close>: it changed, and is not in progress after.\<close>

definition row_resolved :: "'d store \<Rightarrow> 'd store \<Rightarrow> uuid \<Rightarrow> bool" where
  "row_resolved S S' i \<longleftrightarrow> (\<exists>q q'. st_rows S i = Some q \<and> st_rows S' i = Some q' \<and> q' \<noteq> q
     \<and> Status (q_req q') \<noteq> StatusInProgress)"

inductive counted_run ::
  "('r, 'c, 'd) http_env \<Rightarrow> string list \<Rightarrow> ('r, 'p, 'c, 'd) Dispatcher \<Rightarrow> ('r \<Rightarrow> 'd store) \<Rightarrow> uuid
     \<Rightarrow> nat \<Rightarrow> ('r, 'p, 'c) service \<Rightarrow> ('r, 'p, 'c) service \<Rightarrow> bool"
  for E origins D abs i where
  Counted_refl: "counted_run E origins D abs i 0 s s"
| Counted_step: "counted_run E origins D abs i n s s'
    \<Longrightarrow> service_step E origins D (\<lambda>r i. st_rows (abs r) i \<noteq> None) s' s''
    \<Longrightarrow> n' = (if row_resolved (abs (sv_repo (sc_server s'))) (abs (sv_repo (sc_server s''))) i then Suc n else n)
    \<Longrightarrow> counted_run E origins D abs i n' s s''"

context service
begin

lemma step_spending:
  assumes "service_step E origins D stored s s'" "service_inv s" "maxAttempts (dp_worker D) \<le> m" "0 < m"
  shows "spending m (store s) (store s')"
  using assms(1)
proof (elim service_step_cases)
  fix rq res sv' w
  assume "s' = s\<lparr>sc_server := sv'\<rparr>"
    and "ids_fresh (stored (sv_repo (sc_server s))) (sc_server s)"
    and "NewRouter E origins rq (sc_server s) new_response = (res, sv', w)"
  with assms(2) NewRouter_spending [OF _ _ this(2,3) assms(4)] show ?thesis by (auto simp: service_inv_def)
next
  fix order pres w'
  assume s': "s' = put_world w' s" and o: "\<And>xs. mset (order xs) = mset xs"
    and run: "runPassRecovered D order (world_of s) = (pres, w')"
  obtain res where p: "ClaimAndDispatch D order (world_of s) = (res, w')"
    using run by (auto simp: runPassRecovered_def split: prod.splits gores.splits)
  have i: "inv (w_repo (world_of s))" "store_ok (abs (w_repo (world_of s)))"
    using assms(2) by (simp_all add: service_inv_def)
  from pass_spending [OF i o p assms(3)] show ?thesis by (simp add: s')
next
  fix c
  assume "s' = s\<lparr>sc_server := (sc_server s)\<lparr>sv_clock := c\<rparr>\<rparr>"
  then show ?thesis by simp
qed

lemma run_within:
  assumes "service_run E origins D stored s s'" "service_inv s"
    and "within_attempts m (store s)" "maxAttempts (dp_worker D) \<le> m" "0 < m"
  shows "within_attempts m (store s')"
  using assms(1-3)
proof (induction rule: service_run.induct)
  case (Run_step s s' s'')
  then show ?case using within_attempts_spending step_spending [OF _ _ assms(4,5)] run_inv by blast
qed

lemma counted_run_budget:
  assumes "counted_run E origins D abs i n s s'" "service_inv s" "st_rows (store s) i = Some q"
    and "within_attempts m (store s)" "maxAttempts (dp_worker D) \<le> m" "0 < m"
  shows "service_inv s' \<and> within_attempts m (store s')
    \<and> (\<exists>q'. st_rows (store s') i = Some q' \<and> row_budget m q' + n \<le> row_budget m q)"
  using assms(1-4)
proof (induction rule: counted_run.induct)
  case (Counted_refl s)
  then show ?case by simp
next
  case (Counted_step n s s' s'' n')
  then obtain q1 where ih: "service_inv s'" "within_attempts m (store s')" "st_rows (store s') i = Some q1"
    "row_budget m q1 + n \<le> row_budget m q" by blast
  note st = step_inv [OF Counted_step.hyps(2) ih(1)] step_spending [OF Counted_step.hyps(2) ih(1) assms(5,6)]
  then obtain q2 where q2: "st_rows (store s'') i = Some q2" using ih(3) unfolding evolves_def by blast
  with st(2) ih(3) have "spends m q1 q2" unfolding spending_def by (metis option.case(2))
  with ih(2,3) have "row_budget m q2 \<le> row_budget m q1"
    "row_resolved (store s') (store s'') i \<Longrightarrow> row_budget m q2 < row_budget m q1"
    using q2 by (auto simp: spends_def within_attempts_def row_resolved_def)
  with ih(4) q2 st(1) within_attempts_spending [OF ih(2) st(2)] show ?case
    unfolding Counted_step.hyps(3) by (auto split: if_splits)
qed

end

section \<open>The wired service\<close>

lemma wired_within:
  assumes "Load U args (os_getenv S) = Ok cfg" "newRateProvider S cfg = Ok (P, p)"
    and "service_run (E\<lparr>he_repo := pg_ops (undisturbed K)\<rparr>) (cfg_CORSAllowedOrigins cfg)
      (wire_dispatcher (undisturbed K) P Sign F cvt cfg)
      (\<lambda>r i. st_rows (pg_abs (undisturbed K) r) i \<noteq> None)
      (wire_service cfg pg_migrated p c ids rand) s"
  shows "0 < cfg_DispatchMaxAttempts cfg"
    and "maxAttempts (dp_worker (wire_dispatcher (undisturbed K) P Sign F cvt cfg)) \<le> cfg_DispatchMaxAttempts cfg"
    and "service.service_inv (pg_abs (undisturbed K)) pg_inv s"
    and "within_attempts (cfg_DispatchMaxAttempts cfg) (pg_abs (undisturbed K) (sv_repo (sc_server s)))"
proof -
  note svc = wire_service_service [OF newRateProvider_provider [OF assms(2)] Load_provider(2) [OF assms(1)],
      where E = E and K = K and Sign = Sign and F = F and cvt = cvt]
  have "(''DISPATCH_MAX_ATTEMPTS'', cfg_DispatchMaxAttempts, cfg_DispatchMaxAttempts_update) \<in> set int_fields"
    by (simp add: int_fields_def)
  with Load_positive(3) [OF assms(1)] show pos: "0 < cfg_DispatchMaxAttempts cfg" by blast
  have inv: "service.service_inv (pg_abs (undisturbed K)) pg_inv (wire_service cfg pg_migrated p c ids rand)"
    by (simp add: service.service_inv_def [OF svc] wire_service_def pg_migrated_ok)
  show m: "maxAttempts (dp_worker (wire_dispatcher (undisturbed K) P Sign F cvt cfg)) \<le> cfg_DispatchMaxAttempts cfg"
    by (simp add: wire_dispatcher_def wire_worker_def NewDispatcher_def NewWorker_def)
  have start: "within_attempts (cfg_DispatchMaxAttempts cfg)
      (pg_abs (undisturbed K) (sv_repo (sc_server (wire_service cfg pg_migrated p c ids rand))))"
    by (simp add: wire_service_def pg_abs_migrated within_attempts_empty)
  from service.run_within [OF svc assms(3) inv start m pos] service.run_inv [OF svc assms(3) inv]
  show "within_attempts (cfg_DispatchMaxAttempts cfg) (pg_abs (undisturbed K) (sv_repo (sc_server s)))"
    "service.service_inv (pg_abs (undisturbed K)) pg_inv s" by blast+
qed

text \<open>C19. No request is tried more often than configured: whatever sequence of HTTP requests, dispatcher passes and
  clock changes the service goes through on a freshly migrated database, with either adapter, no row ever has
  used more than \<open>DISPATCH_MAX_ATTEMPTS\<close> attempts, and a row that waits has one left. Calls may fail, but a failed call has no
  effect and no row is skipped for the lock of another transaction (\<open>undisturbed\<close>).\<close>

theorem server_attempts_bounded:
  assumes "Load U args (os_getenv S) = Ok cfg" "newRateProvider S cfg = Ok (P, p)"
    and "service_run (E\<lparr>he_repo := pg_ops (undisturbed K)\<rparr>) (cfg_CORSAllowedOrigins cfg)
      (wire_dispatcher (undisturbed K) P Sign F cvt cfg)
      (\<lambda>r i. st_rows (pg_abs (undisturbed K) r) i \<noteq> None)
      (wire_service cfg pg_migrated p c ids rand) s"
    and "st_rows (pg_abs (undisturbed K) (sv_repo (sc_server s))) i = Some q"
  shows "Attempts (q_req q) \<le> cfg_DispatchMaxAttempts cfg
    \<and> (Status (q_req q) = StatusPending \<longrightarrow> Attempts (q_req q) < cfg_DispatchMaxAttempts cfg)"
  using wired_within(4) [OF assms(1-3)] assms(4) unfolding within_attempts_def row_within_def by blast

text \<open>The request that the sample run posts is in the queue.\<close>

lemma sample_posted_row:
  "\<exists>i q. st_rows (pg_abs (undisturbed sample_pg) (sv_repo (sc_server sample_posted))) i = Some q"
proof -
  let ?E = "sample_pg_env" and ?s = "sc_server sample_started"
  obtain res s' w' where run: "NewRouter ?E (cfg_CORSAllowedOrigins sample_config) sample_post ?s new_response = (res, s', w')"
    by (metis prod.collapse)
  have "rq_method sample_post = ''POST''" "rq_path sample_post = [''api'', ''v1'', ''quotes'', ''updates'']"
    by (simp_all add: sample_post_def)
  from NewRouter_POST [OF this run] obtain rq1 s1 res2 s2 w2 where
    rq: "rq_body rq1 = rq_body sample_post" "rq_header rq1 = rq_header sample_post"
    and s1: "s1 = ?s \<or> s1 = ?s\<lparr>sv_turn := sv_turn ?s + 1\<rparr>"
    and h: "postQuotesUpdatesHandler ?E rq1 s1 new_response = (res2, s2, w2)" "sv_repo s' = sv_repo s2"
    by (metis (no_types, lifting))
  have "sv_repo ?s = pg_migrated" "sv_ids ?s = (\<lambda>n. of_nat (n + 1))" by (simp_all add: sample_started_def wire_service_def)
  with s1 have started: "sv_repo s1 = pg_migrated" "sv_ids s1 = (\<lambda>n. of_nat (n + 1))" by auto
  have dec: "decode_createUpdateRequest (rq_body rq1) = Decoded ''eur/MXN''" "rq_header rq1 ''Idempotency-Key'' = ''k''"
    using rq by simp_all
  have create: "\<exists>r. pg_CreateUpdateRequest (undisturbed sample_pg) pg_migrated (NewCurrencyRateUpdateRequest new sample_pair t) ''k''
      = (Ok (), r) \<and> tbl_updates r \<noteq> []" for new t
    by (simp add: pg_CreateUpdateRequest_def round_trip_def undisturbed_def sample_pg_def pg_migrated_def
        sql_insert_update_def pair_columns [OF sample_pair_ok] NewCurrencyRateUpdateRequest_def Let_def nullif_def)
  obtain now c1 where now: "Now (he_clock ?E) (sv_clock s1) = (now, c1)" by fastforce
  obtain r where r: "pg_CreateUpdateRequest (undisturbed sample_pg) pg_migrated
      (NewCurrencyRateUpdateRequest (of_nat (sv_turn s1 + 1)) sample_pair now) ''k'' = (Ok (), r)" "tbl_updates r \<noteq> []"
    using create by blast
  have "RequestUpdate (he_repo ?E) (he_clock ?E) (he_unicode ?E) (sv_ids s1 (sv_turn s1)) (sv_repo s1) (sv_clock s1)
      ''eur/MXN'' ''k'' = (Ok \<lparr>Request = NewCurrencyRateUpdateRequest (of_nat (sv_turn s1 + 1)) sample_pair now,
        Replayed = False\<rparr>, r, c1)"
    using r(1) now by (simp add: RequestUpdate_def sample_parse started sample_pg_env_def pg_ops_def)
  with h(1) dec have "sv_repo s2 = r"
    by (auto simp: postQuotesUpdatesHandler_def maxIdempotencyKeyLen_def Let_def)
  with r(2) have "tbl_updates (sv_repo s2) \<noteq> []" by simp
  then have "dom (map_of (tbl_updates (sv_repo s2))) \<noteq> {}" by (simp add: dom_map_of_conv_image_fst)
  then obtain i c where "map_of (tbl_updates (sv_repo s2)) i = Some c" by blast
  then show ?thesis using h(2) run by (auto simp: sample_posted_def)
qed

lemma sample_passed_row:
  "\<exists>i q. st_rows (pg_abs (undisturbed sample_pg) (sv_repo (sc_server sample_passed))) i = Some q"
proof -
  have conf: "Load config_unicode sample_args (os_getenv sample_outside) = Ok sample_config"
    "newRateProvider sample_outside sample_config = Ok (fst sample_adapter, snd sample_adapter)"
    using sample_args_Load by (simp_all add: sample_outside_def sample_newRateProvider [unfolded sample_outside_def])
  have svc: "service sample_pg_env sample_wired (pg_abs (undisturbed sample_pg)) pg_inv (keep_time sample_pg)
      (pg_kept (undisturbed sample_pg))"
    using wire_service_service [OF newRateProvider_provider [OF conf(2)] Load_provider(2) [OF conf(1)],
        where E = sample_pg_env and K = sample_pg and Sign = sgn and F = sample_fmt and cvt = 0]
    by (simp add: sample_wired_def)
  have inv: "service.service_inv (pg_abs (undisturbed sample_pg)) pg_inv sample_started"
    by (simp add: service.service_inv_def [OF svc] sample_started_def wire_service_def pg_migrated_ok)
  from service.step_inv [OF svc sample_server_steps(2)] service.step_inv [OF svc sample_server_steps(1) inv]
  have "evolves (pg_abs (undisturbed sample_pg) (sv_repo (sc_server sample_posted)))
      (pg_abs (undisturbed sample_pg) (sv_repo (sc_server sample_passed)))" by blast
  with sample_posted_row show ?thesis unfolding evolves_def by blast
qed

theorem server_attempts_bounded_witness:
  "\<exists>i q. st_rows (pg_abs (undisturbed sample_pg) (sv_repo (sc_server sample_passed))) i = Some q
     \<and> Attempts (q_req q) \<le> cfg_DispatchMaxAttempts sample_config"
proof -
  have "newRateProvider sample_outside sample_config = Ok (fst sample_adapter, snd sample_adapter)"
    by (simp add: sample_newRateProvider)
  moreover have "Load config_unicode sample_args (os_getenv sample_outside) = Ok sample_config"
    using sample_args_Load by (simp add: sample_outside_def)
  moreover obtain i q where "st_rows (pg_abs (undisturbed sample_pg) (sv_repo (sc_server sample_passed))) i = Some q"
    using sample_passed_row by blast
  ultimately show ?thesis
    using server_attempts_bounded [where U = config_unicode and args = sample_args and S = sample_outside
        and cfg = sample_config and P = "fst sample_adapter" and p = "snd sample_adapter" and E = sample_pg_env
        and K = sample_pg and Sign = sgn and F = sample_fmt and cvt = 0
        and c = "NewSystemClock 5000 [10, 20, 30, 40]" and ids = "\<lambda>n. of_nat (n + 1)" and rand = "\<lambda>n. 0"
        and s = sample_passed]
      sample_server_run
    unfolding sample_pg_env_repo sample_wired_def [symmetric] sample_started_def [symmetric] by blast
qed

text \<open>C3. Every request is finished in time: from its acceptance on, however requests, passes and clock changes
  alternate, a request is resolved at most \<open>DISPATCH_MAX_ATTEMPTS\<close> times, a resolution being a pass that leaves
  its row changed and not in progress; the last of them leaves it succeeded or failed for good. Calls may fail, but a failed call has no
  effect and no row is skipped for the lock of another transaction (\<open>undisturbed\<close>).\<close>

theorem server_requests_finish:
  assumes "Load U args (os_getenv S) = Ok cfg" "newRateProvider S cfg = Ok (P, p)"
    and "service_run (E\<lparr>he_repo := pg_ops (undisturbed K)\<rparr>) (cfg_CORSAllowedOrigins cfg)
      (wire_dispatcher (undisturbed K) P Sign F cvt cfg)
      (\<lambda>r i. st_rows (pg_abs (undisturbed K) r) i \<noteq> None)
      (wire_service cfg pg_migrated p c ids rand) s"
    and "st_rows (pg_abs (undisturbed K) (sv_repo (sc_server s))) i \<noteq> None"
    and "counted_run (E\<lparr>he_repo := pg_ops (undisturbed K)\<rparr>) (cfg_CORSAllowedOrigins cfg)
      (wire_dispatcher (undisturbed K) P Sign F cvt cfg) (pg_abs (undisturbed K)) i n s s'"
  shows "\<exists>q. st_rows (pg_abs (undisturbed K) (sv_repo (sc_server s'))) i = Some q
    \<and> int n \<le> cfg_DispatchMaxAttempts cfg
    \<and> (int n < cfg_DispatchMaxAttempts cfg \<or> Status (q_req q) \<in> {StatusSucceeded, StatusFailed})"
proof -
  note svc = wire_service_service [OF newRateProvider_provider [OF assms(2)] Load_provider(2) [OF assms(1)],
      where E = E and K = K and Sign = Sign and F = F and cvt = cvt]
  note run = wired_within [OF assms(1-3)]
  from assms(4) obtain q0 where q0: "st_rows (pg_abs (undisturbed K) (sv_repo (sc_server s))) i = Some q0" by blast
  from service.counted_run_budget [OF svc assms(5) run(3) q0 run(4,2,1)] obtain q where
    inv: "service.service_inv (pg_abs (undisturbed K)) pg_inv s'"
    and within: "within_attempts (cfg_DispatchMaxAttempts cfg) (pg_abs (undisturbed K) (sv_repo (sc_server s')))"
    and q: "st_rows (pg_abs (undisturbed K) (sv_repo (sc_server s'))) i = Some q"
      "row_budget (cfg_DispatchMaxAttempts cfg) q + n \<le> row_budget (cfg_DispatchMaxAttempts cfg) q0" by blast
  have ok: "store_ok (pg_abs (undisturbed K) (sv_repo (sc_server s)))"
    "store_ok (pg_abs (undisturbed K) (sv_repo (sc_server s')))"
    using inv run(3) unfolding service.service_inv_def [OF svc] by simp_all
  have "row_budget (cfg_DispatchMaxAttempts cfg) q0 \<le> nat (cfg_DispatchMaxAttempts cfg)"
    by (rule row_budget_le [OF store_ok_rowD [OF ok(1) q0]])
  moreover have "Status_Valid (Status (q_req q))"
    using store_ok_rowD [OF ok(2) q(1)] unfolding row_ok_def by blast
  moreover have "row_within (cfg_DispatchMaxAttempts cfg) q" using within q(1) unfolding within_attempts_def by blast
  ultimately have "0 < row_budget (cfg_DispatchMaxAttempts cfg) q \<or> Status (q_req q) \<in> {StatusSucceeded, StatusFailed}"
    "row_budget (cfg_DispatchMaxAttempts cfg) q + n \<le> nat (cfg_DispatchMaxAttempts cfg)"
    using row_budget_finished q(2) by fastforce+
  with q(1) run(1) show ?thesis by auto
qed

lemma sample_counted_run:
  "\<exists>n. counted_run sample_pg_env (cfg_CORSAllowedOrigins sample_config) sample_wired (pg_abs (undisturbed sample_pg)) i n
     sample_posted sample_passed"
  using Counted_step [OF Counted_refl sample_server_steps(2) refl] by blast

theorem server_requests_finish_witness:
  "\<exists>i n q. st_rows (pg_abs (undisturbed sample_pg) (sv_repo (sc_server sample_passed))) i = Some q
    \<and> counted_run sample_pg_env (cfg_CORSAllowedOrigins sample_config) sample_wired (pg_abs (undisturbed sample_pg)) i n
         sample_posted sample_passed
    \<and> (int n < cfg_DispatchMaxAttempts sample_config \<or> Status (q_req q) \<in> {StatusSucceeded, StatusFailed})"
proof -
  obtain i where i: "st_rows (pg_abs (undisturbed sample_pg) (sv_repo (sc_server sample_posted))) i \<noteq> None"
    using sample_posted_row by blast
  obtain n where n: "counted_run sample_pg_env (cfg_CORSAllowedOrigins sample_config) sample_wired
      (pg_abs (undisturbed sample_pg)) i n sample_posted sample_passed" using sample_counted_run by blast
  have rp: "newRateProvider sample_outside sample_config = Ok (fst sample_adapter, snd sample_adapter)"
    by (simp add: sample_newRateProvider)
  have ld: "Load config_unicode sample_args (os_getenv sample_outside) = Ok sample_config"
    using sample_args_Load by (simp add: sample_outside_def)
  from server_requests_finish [where c = "NewSystemClock 5000 [10, 20, 30, 40]" and ids = "\<lambda>n. of_nat (n + 1)"
      and rand = "\<lambda>n. 0" and E = sample_pg_env and K = sample_pg and Sign = sgn and F = sample_fmt and cvt = 0,
      OF ld rp, unfolded sample_pg_env_repo, folded sample_wired_def sample_started_def,
      OF Run_step [OF Run_refl sample_server_steps(1)] i n]
  obtain q where "st_rows (pg_abs (undisturbed sample_pg) (sv_repo (sc_server sample_passed))) i = Some q"
    "int n < cfg_DispatchMaxAttempts sample_config \<or> Status (q_req q) \<in> {StatusSucceeded, StatusFailed}"
    by (elim exE conjE)
  with n show ?thesis by (intro exI conjI)
qed

end
