(* ===== verification/Pool.thy ===== *)
theory Pool
  imports DrainLoop
begin

text \<open>
  The pool of \<open>Dispatcher.ClaimAndDispatch\<close> (\<open>dispatcher.go\<close>) with the calls of \<open>Worker.Process\<close>
  (\<open>worker.go\<close>) running at the same time: a step relation in which every call on shared state
  (repository, clock, limiter, provider) is one step, and the calls of different rows interleave.
  \<open>errgroup.SetLimit\<close> bounds the rows in flight, \<open>singleflight.Do\<close> lets one caller per pair fetch while
  the others wait for its result; both are used as they are documented.
\<close>

section \<open>Where a row is\<close>

type_synonym 'd outcome = "'d resolvedQuote go"

text \<open>
  \<open>Queued\<close>: not handed to the pool yet. \<open>Called\<close>: about to call \<open>sf.Do\<close>. \<open>Joined\<close>: waiting for the call
  of another row. \<open>At_...\<close>: inside \<open>fetch\<close>, named after the call that is next; \<open>At_return\<close>: \<open>fetch\<close> has
  returned. \<open>Resolved_as\<close>: \<open>resolve\<close> has returned. \<open>At_close\<close>: the completion time is read.
\<close>

datatype 'd phase =
  Queued | Called | Joined
| At_latest | At_check "'d CurrencyRate" int | At_budget | At_allow gotime | At_provider
| At_cool_now go_error duration | At_cool go_error gotime | At_rate "'d ProviderQuote" | At_return "'d outcome"
| Resolved_as "'d outcome" | At_close "'d outcome" gotime | Finished "unit go"

text \<open>The call in flight that holds the key of its pair.\<close>

fun leading :: "'d phase \<Rightarrow> bool" where
  "leading At_latest = True"
| "leading (At_check rate k) = True"
| "leading At_budget = True"
| "leading (At_allow t) = True"
| "leading At_provider = True"
| "leading (At_cool_now e d) = True"
| "leading (At_cool e t) = True"
| "leading (At_rate raw) = True"
| "leading (At_return res) = True"
| "leading ph = False"

text \<open>The phases a row leaves by a call of its own.\<close>

fun active :: "'d phase \<Rightarrow> bool" where
  "active (At_return res) = False"
| "active (Resolved_as res) = True"
| "active (At_close res now) = True"
| "active ph = leading ph"

fun running :: "'d phase \<Rightarrow> bool" where
  "running Queued = False"
| "running (Finished res) = False"
| "running ph = True"

section \<open>One call\<close>

fun task_step ::
  "('r, 'p, 'c, 'd) Worker \<Rightarrow> ('r, 'p, 'c) world \<Rightarrow> CurrencyRateUpdateRequest \<Rightarrow> 'd phase
     \<Rightarrow> 'd phase \<times> ('r, 'p, 'c) world" where
  "task_step W w req At_latest =
     (let (res, r) = GetLatestQuote (wk_repo W) (w_repo w) (Pair req)
      in (case res of
            Panic \<Rightarrow> At_return Panic
          | Ok (latest, quoteID) \<Rightarrow> At_check latest quoteID
          | Err e \<Rightarrow> if \<not> errors_Is (\<lambda>x. x = ErrNotFound) e then At_return (Err e) else At_budget,
          w\<lparr>w_repo := r\<rparr>))"
| "task_step W w req (At_check latest quoteID) =
     (let (t, w1) = read_clock W w
      in (if time_Before t (StaleAfter latest) then At_return (Ok (latest, quoteID)) else At_budget, w1))"
| "task_step W w req At_budget = (let (t, w1) = read_clock W w in (At_allow t, w1))"
| "task_step W w req (At_allow t) =
     (let ((ok, retryAfter), l) = Allow (w_limiter w) t
      in (if \<not> ok
          then At_return (failRate RateLimitedError ''outbound rate budget exhausted'' True retryAfter [])
          else At_provider, w\<lparr>w_limiter := l\<rparr>))"
| "task_step W w req At_provider =
     (let (res, p) = rp_GetCurrencyRate (wk_provider W) (w_prov w) (Pair req)
      in (case res of
            Panic \<Rightarrow> At_return Panic
          | Err e \<Rightarrow> (case errors_As_rate e of
                        Some r \<Rightarrow> if 0 < err_retryAfter r then At_cool_now e (err_retryAfter r) else At_return (Err e)
                      | None \<Rightarrow> At_return (Err e))
          | Ok raw \<Rightarrow> At_rate raw, w\<lparr>w_prov := p\<rparr>))"
| "task_step W w req (At_cool_now e d) = (let (t, w1) = read_clock W w in (At_cool e (time_Add t d), w1))"
| "task_step W w req (At_cool e t) = (At_return (Err e), w\<lparr>w_limiter := CoolDown (w_limiter w) t\<rparr>)"
| "task_step W w req (At_rate raw) =
     (let (t, w1) = read_clock W w
      in (At_return (case NewCurrencyRate (wk_Sign W) (pq_Value raw) (pq_Derived raw) (pq_Quality raw)
                            (rp_Provider (wk_provider W)) (rp_Indicative (wk_provider W)) (pq_QuotedAt raw) t
                            (rp_StaleAfter (wk_provider W) (pq_Quality raw) (pq_QuotedAt raw)) of
                       Panic \<Rightarrow> Panic
                     | Err e \<Rightarrow> failRate MalformedResponseError (error_text (wk_fmt W) e) False 0 []
                     | Ok rate \<Rightarrow> Ok (rate, 0)), w1))"
| "task_step W w req (Resolved_as res) =
     (case res of
        Panic \<Rightarrow> (Finished Panic, w)
      | _ \<Rightarrow> (let (now, w1) = read_clock W w in (At_close res now, w1)))"
| "task_step W w req (At_close res now) =
     (case res of
        Panic \<Rightarrow> (Finished Panic, w)
      | Err e \<Rightarrow> (let (x, w') = fail W w req e now in (Finished x, w'))
      | Ok (rate, quoteID) \<Rightarrow>
          (let (x, r) = (if quoteID \<noteq> 0
                         then CompleteSuccessReuse (wk_repo W) (w_repo w) (ID req) quoteID now
                         else CompleteSuccess (wk_repo W) (w_repo w) (ID req) (Pair req) rate now)
           in (Finished x, w\<lparr>w_repo := r\<rparr>)))"
| "task_step W w req ph = (ph, w)"

section \<open>The pool\<close>

text \<open>\<open>reqs\<close> is the claimed batch; the phases are those of its rows, in order.\<close>

type_synonym ('r, 'p, 'c, 'd) pool = "('r, 'p, 'c) world \<times> 'd phase list"

definition in_flight :: "CurrencyRateUpdateRequest list \<Rightarrow> 'd phase list \<Rightarrow> CurrencyPair \<Rightarrow> bool" where
  "in_flight reqs phs pair \<longleftrightarrow> list_ex (\<lambda>(req, ph). Pair req = pair \<and> leading ph) (zip reqs phs)"

text \<open>The result of a shared call goes to every caller that waits for it.\<close>

definition deliver ::
  "CurrencyRateUpdateRequest list \<Rightarrow> CurrencyPair \<Rightarrow> 'd outcome \<Rightarrow> 'd phase list \<Rightarrow> 'd phase list" where
  "deliver reqs pair res phs =
     map2 (\<lambda>req ph. if ph = Joined \<and> Pair req = pair then Resolved_as res else ph) reqs phs"

text \<open>
  \<open>g.Go\<close> hands out the rows in order, as long as fewer than \<open>limit\<close> are in flight (a negative limit is
  none). A caller of \<open>sf.Do\<close> leads when no call for its pair is in flight, and joins it otherwise.
\<close>

inductive pool_step ::
  "('r, 'p, 'c, 'd) Worker \<Rightarrow> int \<Rightarrow> CurrencyRateUpdateRequest list
     \<Rightarrow> ('r, 'p, 'c, 'd) pool \<Rightarrow> ('r, 'p, 'c, 'd) pool \<Rightarrow> bool"
  for W limit reqs where
  Pool_go: "i < length phs \<Longrightarrow> phs ! i = Queued \<Longrightarrow> Queued \<notin> set (take i phs)
    \<Longrightarrow> int (length (filter running phs)) < limit \<or> limit < 0
    \<Longrightarrow> pool_step W limit reqs (w, phs) (w, phs[i := Called])"
| Pool_lead: "i < length phs \<Longrightarrow> phs ! i = Called \<Longrightarrow> \<not> in_flight reqs phs (Pair (reqs ! i))
    \<Longrightarrow> pool_step W limit reqs (w, phs) (w, phs[i := At_latest])"
| Pool_join: "i < length phs \<Longrightarrow> phs ! i = Called \<Longrightarrow> in_flight reqs phs (Pair (reqs ! i))
    \<Longrightarrow> pool_step W limit reqs (w, phs) (w, phs[i := Joined])"
| Pool_call: "i < length phs \<Longrightarrow> active (phs ! i) \<Longrightarrow> task_step W w (reqs ! i) (phs ! i) = (ph, w')
    \<Longrightarrow> pool_step W limit reqs (w, phs) (w', phs[i := ph])"
| Pool_return: "i < length phs \<Longrightarrow> phs ! i = At_return res
    \<Longrightarrow> pool_step W limit reqs (w, phs)
          (w, deliver reqs (Pair (reqs ! i)) res (phs[i := Resolved_as res]))"

inductive_cases pool_step_cases: "pool_step W limit reqs c c'"

text \<open>Runs, with the number of steps of the pool; between them the world changes as \<open>interf\<close> allows.\<close>

inductive pool_run ::
  "('r, 'p, 'c, 'd) Worker \<Rightarrow> int \<Rightarrow> CurrencyRateUpdateRequest list
     \<Rightarrow> (('r, 'p, 'c) world \<Rightarrow> ('r, 'p, 'c) world \<Rightarrow> bool)
     \<Rightarrow> ('r, 'p, 'c, 'd) pool \<Rightarrow> nat \<Rightarrow> ('r, 'p, 'c, 'd) pool \<Rightarrow> bool"
  for W limit reqs interf where
  Pool_refl: "pool_run W limit reqs interf c 0 c"
| Pool_own: "pool_run W limit reqs interf c k c' \<Longrightarrow> pool_step W limit reqs c' c''
    \<Longrightarrow> pool_run W limit reqs interf c (Suc k) c''"
| Pool_env: "pool_run W limit reqs interf c k (w, phs) \<Longrightarrow> interf w w'
    \<Longrightarrow> pool_run W limit reqs interf c k (w', phs)"

definition pool_start :: "CurrencyRateUpdateRequest list \<Rightarrow> 'd phase list" where
  "pool_start reqs = replicate (length reqs) Queued"

fun finished :: "'d phase \<Rightarrow> bool" where
  "finished (Finished res) = True"
| "finished ph = False"

definition pool_done :: "'d phase list \<Rightarrow> bool" where
  "pool_done phs \<longleftrightarrow> list_all finished phs"

section \<open>Every schedule is finite\<close>

fun calls_left :: "'d phase \<Rightarrow> nat" where
  "calls_left Queued = 12"
| "calls_left Called = 11"
| "calls_left Joined = 10"
| "calls_left At_latest = 10"
| "calls_left (At_check rate k) = 9"
| "calls_left At_budget = 8"
| "calls_left (At_allow t) = 7"
| "calls_left At_provider = 6"
| "calls_left (At_cool_now e d) = 5"
| "calls_left (At_cool e t) = 4"
| "calls_left (At_rate raw) = 4"
| "calls_left (At_return res) = 3"
| "calls_left (Resolved_as res) = 2"
| "calls_left (At_close res now) = 1"
| "calls_left (Finished res) = 0"

lemma task_step_calls_left: "active ph \<Longrightarrow> calls_left (fst (task_step W w req ph)) < calls_left ph"
  by (cases ph) (auto simp: Let_def split: prod.splits gores.splits option.splits if_splits)

lemma sum_list_update_less:
  assumes "i < length xs" "f x < f (xs ! i)"
  shows "sum_list (map f (xs[i := x])) < (sum_list (map f xs) :: nat)"
  using assms by (induction xs arbitrary: i) (auto split: nat.splits)

lemma sum_list_deliver: "length phs \<le> length reqs
  \<Longrightarrow> sum_list (map calls_left (deliver reqs pair res phs)) \<le> sum_list (map calls_left phs)"
  unfolding deliver_def
proof (induction phs arbitrary: reqs)
  case (Cons ph phs)
  then obtain req rest where "reqs = req # rest" by (cases reqs) auto
  with Cons.IH [of rest] Cons.prems show ?case by fastforce
qed simp

lemma pool_step_calls_left:
  assumes "pool_step W limit reqs c c'" "length (snd c) \<le> length reqs"
  shows "sum_list (map calls_left (snd c')) < sum_list (map calls_left (snd c))
    \<and> length (snd c') = length (snd c)"
  using assms
proof (cases rule: pool_step.cases)
  case (Pool_call i phs w ph w')
  then have "calls_left ph < calls_left (phs ! i)"
    using task_step_calls_left [of "phs ! i" W w "reqs ! i"] by simp
  with Pool_call show ?thesis by (simp add: sum_list_update_less)
next
  case (Pool_return i phs res w)
  then have "sum_list (map calls_left (phs[i := Resolved_as res])) < sum_list (map calls_left phs)"
    by (intro sum_list_update_less) simp_all
  with Pool_return assms(2) sum_list_deliver [of "phs[i := Resolved_as res]" reqs "Pair (reqs ! i)" res]
  show ?thesis by (simp add: deliver_def)
qed (simp_all add: sum_list_update_less)

lemma pool_run_calls_left:
  assumes "pool_run W limit reqs interf c k c'" "length (snd c) \<le> length reqs"
  shows "k + sum_list (map calls_left (snd c')) \<le> sum_list (map calls_left (snd c))
    \<and> length (snd c') = length (snd c)"
  using assms
proof (induction rule: pool_run.induct)
  case (Pool_own c k c' c'')
  with pool_step_calls_left [OF Pool_own.hyps(2)] show ?case by fastforce
qed simp_all

section \<open>Well-formed pools\<close>

text \<open>One call in flight per pair, and nobody waits for a call that is not there.\<close>

definition pool_ok :: "CurrencyRateUpdateRequest list \<Rightarrow> 'd phase list \<Rightarrow> bool" where
  "pool_ok reqs phs \<longleftrightarrow> length phs = length reqs
     \<and> (\<forall>i < length phs. \<forall>j < length phs. leading (phs ! i) \<and> leading (phs ! j)
          \<and> Pair (reqs ! i) = Pair (reqs ! j) \<longrightarrow> i = j)
     \<and> (\<forall>i < length phs. phs ! i = Joined \<longrightarrow> in_flight reqs phs (Pair (reqs ! i)))"

lemma in_flight_iff: "length phs = length reqs
  \<Longrightarrow> in_flight reqs phs pair \<longleftrightarrow> (\<exists>i < length phs. Pair (reqs ! i) = pair \<and> leading (phs ! i))"
  by (auto simp: in_flight_def list_ex_length)

lemma deliver_nth: "i < length phs \<Longrightarrow> length phs = length reqs \<Longrightarrow> deliver reqs pair res phs ! i =
    (if phs ! i = Joined \<and> Pair (reqs ! i) = pair then Resolved_as res else phs ! i)"
  by (simp add: deliver_def)

lemma deliver_length [simp]: "length phs = length reqs \<Longrightarrow> length (deliver reqs pair res phs) = length phs"
  by (simp add: deliver_def)

lemma task_step_leading:
  "active ph \<Longrightarrow> leading (fst (task_step W w req ph)) = leading ph \<and> fst (task_step W w req ph) \<noteq> Joined"
  by (cases ph) (auto simp: Let_def split: prod.splits gores.splits option.splits if_splits)

lemma active_running: "active ph \<Longrightarrow> running ph" "leading ph \<Longrightarrow> running ph"
  by (cases ph; simp)+

lemma pool_ok_start: "pool_ok reqs (pool_start reqs)"
  by (simp add: pool_ok_def pool_start_def)

lemma pool_ok_leads: "pool_ok reqs phs \<Longrightarrow> i < length phs \<Longrightarrow> j < length phs \<Longrightarrow> leading (phs ! i)
    \<Longrightarrow> leading (phs ! j) \<Longrightarrow> Pair (reqs ! i) = Pair (reqs ! j) \<Longrightarrow> i = j"
  by (simp add: pool_ok_def)

lemma pool_ok_waits: "pool_ok reqs phs \<Longrightarrow> i < length phs \<Longrightarrow> phs ! i = Joined
    \<Longrightarrow> \<exists>j < length phs. Pair (reqs ! j) = Pair (reqs ! i) \<and> leading (phs ! j)"
  by (metis pool_ok_def in_flight_iff)

lemma pool_okI:
  assumes "length phs = length reqs"
    and "\<And>i j. i < length phs \<Longrightarrow> j < length phs \<Longrightarrow> leading (phs ! i) \<Longrightarrow> leading (phs ! j)
      \<Longrightarrow> Pair (reqs ! i) = Pair (reqs ! j) \<Longrightarrow> i = j"
    and "\<And>i. i < length phs \<Longrightarrow> phs ! i = Joined
      \<Longrightarrow> \<exists>j < length phs. Pair (reqs ! j) = Pair (reqs ! i) \<and> leading (phs ! j)"
  shows "pool_ok reqs phs"
  unfolding pool_ok_def using assms in_flight_iff [OF assms(1)] by blast

text \<open>A phase that changes without taking or giving up the lead.\<close>

lemma pool_ok_update:
  assumes "pool_ok reqs phs" "i < length phs" "leading ph = leading (phs ! i)"
    and "ph = Joined \<Longrightarrow> in_flight reqs phs (Pair (reqs ! i))"
  shows "pool_ok reqs (phs[i := ph])"
proof (rule pool_okI)
  have len: "length phs = length reqs" using assms(1) by (simp add: pool_ok_def)
  then show "length (phs[i := ph]) = length reqs" by simp
  have lead: "leading (phs[i := ph] ! j) = leading (phs ! j)" for j
    using assms(2,3) by (cases "j = i") simp_all
  show "j = k" if "j < length (phs[i := ph])" "k < length (phs[i := ph])" "leading (phs[i := ph] ! j)"
    "leading (phs[i := ph] ! k)" "Pair (reqs ! j) = Pair (reqs ! k)" for j k
    using that pool_ok_leads [OF assms(1)] unfolding lead by simp
  show "\<exists>k < length (phs[i := ph]). Pair (reqs ! k) = Pair (reqs ! j) \<and> leading (phs[i := ph] ! k)"
    if "j < length (phs[i := ph])" "phs[i := ph] ! j = Joined" for j
  proof (cases "j = i")
    case True
    with that assms(2,4) show ?thesis unfolding lead by (simp add: in_flight_iff [OF len])
  next
    case False
    with that pool_ok_waits [OF assms(1)] show ?thesis unfolding lead by simp
  qed
qed

lemma pool_ok_lead:
  assumes "pool_ok reqs phs" "i < length phs" "phs ! i = Called" "\<not> in_flight reqs phs (Pair (reqs ! i))"
  shows "pool_ok reqs (phs[i := At_latest])"
proof (rule pool_okI)
  have len: "length phs = length reqs" using assms(1) by (simp add: pool_ok_def)
  then show "length (phs[i := At_latest]) = length reqs" by simp
  have no: "\<not> leading (phs ! j)" if "j < length phs" "Pair (reqs ! j) = Pair (reqs ! i)" for j
    using that assms(4) by (auto simp: in_flight_iff [OF len])
  show "j = k" if "j < length (phs[i := At_latest])" "k < length (phs[i := At_latest])"
    "leading (phs[i := At_latest] ! j)" "leading (phs[i := At_latest] ! k)"
    "Pair (reqs ! j) = Pair (reqs ! k)" for j k
    using that no [of j] no [of k] pool_ok_leads [OF assms(1), of j k]
    by (cases "j = i"; cases "k = i") simp_all
  show "\<exists>k < length (phs[i := At_latest]). Pair (reqs ! k) = Pair (reqs ! j) \<and> leading (phs[i := At_latest] ! k)"
    if "j < length (phs[i := At_latest])" "phs[i := At_latest] ! j = Joined" for j
  proof -
    from that assms(2) have j: "j < length phs" "phs ! j = Joined" by (cases "j = i"; simp)+
    from pool_ok_waits [OF assms(1) this] obtain k
      where "k < length phs" "Pair (reqs ! k) = Pair (reqs ! j)" "leading (phs ! k)" by blast
    with assms(2) show ?thesis by (intro exI [of _ k]) (cases "k = i"; simp)
  qed
qed

lemma pool_ok_return:
  assumes "pool_ok reqs phs" "i < length phs" "phs ! i = At_return res"
  shows "pool_ok reqs (deliver reqs (Pair (reqs ! i)) res (phs[i := Resolved_as res]))"
    (is "pool_ok reqs ?phs")
proof (rule pool_okI)
  have len: "length phs = length reqs" using assms(1) by (simp add: pool_ok_def)
  then show "length ?phs = length reqs" by simp
  have nth: "?phs ! j = (if j = i then Resolved_as res else if phs ! j = Joined \<and> Pair (reqs ! j) = Pair (reqs ! i)
      then Resolved_as res else phs ! j)" if "j < length phs" for j
    using that len assms(2) by (simp add: deliver_nth nth_list_update)
  show "j = k" if "j < length ?phs" "k < length ?phs" "leading (?phs ! j)" "leading (?phs ! k)"
    "Pair (reqs ! j) = Pair (reqs ! k)" for j k
    using that len pool_ok_leads [OF assms(1), of j k] by (auto simp: nth split: if_splits)
  show "\<exists>k < length ?phs. Pair (reqs ! k) = Pair (reqs ! j) \<and> leading (?phs ! k)"
    if "j < length ?phs" "?phs ! j = Joined" for j
  proof -
    from that len have j: "j < length phs" "phs ! j = Joined" "Pair (reqs ! j) \<noteq> Pair (reqs ! i)"
      by (auto simp: nth split: if_splits)
    from pool_ok_waits [OF assms(1) j(1,2)] obtain k
      where k: "k < length phs" "Pair (reqs ! k) = Pair (reqs ! j)" "leading (phs ! k)" by blast
    with j(3) have "k \<noteq> i" by auto
    with k len show ?thesis by (intro exI [of _ k]) (auto simp: nth)
  qed
qed

lemma pool_step_ok:
  assumes "pool_step W limit reqs c c'" "pool_ok reqs (snd c)"
  shows "pool_ok reqs (snd c')"
  using assms
proof (cases rule: pool_step.cases)
  case (Pool_call i phs w ph w')
  then have "ph = fst (task_step W w (reqs ! i) (phs ! i))" by simp
  with task_step_leading [OF Pool_call(4), of W w "reqs ! i"] Pool_call(1-3) assms(2)
    pool_ok_update [of reqs phs i ph] show ?thesis by simp
next
  case (Pool_go i phs w)
  with assms(2) pool_ok_update [of reqs phs i Called] show ?thesis by simp
next
  case (Pool_lead i phs w)
  with assms(2) pool_ok_lead [of reqs phs i] show ?thesis by simp
next
  case (Pool_join i phs w)
  with assms(2) pool_ok_update [of reqs phs i Joined] show ?thesis by simp
next
  case (Pool_return i phs res w)
  with assms(2) pool_ok_return [of reqs phs i res] show ?thesis by simp
qed

lemma pool_run_ok:
  assumes "pool_run W limit reqs interf c k c'" "pool_ok reqs (snd c)"
  shows "pool_ok reqs (snd c')"
  using assms by (induction rule: pool_run.induct) (auto dest: pool_step_ok)

section \<open>No schedule gets stuck\<close>

lemma leading_cases: "leading ph \<Longrightarrow> active ph \<or> (\<exists>res. ph = At_return res)"
  by (cases ph) simp_all

lemma pool_moves:
  assumes "i < length phs" "active (phs ! i) \<or> (\<exists>res. phs ! i = At_return res)"
  shows "\<exists>c'. pool_step W limit reqs (w, phs) c'"
  using assms Pool_call Pool_return by (metis prod.collapse)

lemma pool_progress:
  assumes "pool_ok reqs phs" "limit \<noteq> 0" "\<not> pool_done phs"
  shows "\<exists>c'. pool_step W limit reqs (w, phs) c'"
proof (cases "\<exists>i < length phs. running (phs ! i)")
  case True
  then obtain i where i: "i < length phs" "running (phs ! i)" by blast
  consider "phs ! i = Called" | "phs ! i = Joined"
    | "active (phs ! i) \<or> (\<exists>res. phs ! i = At_return res)"
    using i(2) by (cases "phs ! i") simp_all
  then show ?thesis
  proof cases
    case 1
    with i(1) show ?thesis using Pool_lead Pool_join by (metis (no_types))
  next
    case 2
    with pool_ok_waits [OF assms(1) i(1)] obtain j where "j < length phs" "leading (phs ! j)" by blast
    with pool_moves leading_cases show ?thesis by blast
  qed (rule pool_moves [OF i(1)])
next
  case False
  then have none: "filter running phs = []" by (auto simp: in_set_conv_nth filter_empty_conv)
  from assms(3) obtain k where "k < length phs" "\<not> finished (phs ! k)"
    by (auto simp: pool_done_def list_all_length)
  with False have "phs ! k = Queued" by (cases "phs ! k") auto
  with \<open>k < length phs\<close> have "Queued \<in> set phs" by (metis nth_mem)
  then obtain xs ys where "phs = xs @ Queued # ys" "Queued \<notin> set xs" by (meson split_list_first)
  then have go: "length xs < length phs" "phs ! length xs = Queued" "Queued \<notin> set (take (length xs) phs)"
    by simp_all
  from none assms(2) have "int (length (filter running phs)) < limit \<or> limit < 0" by auto
  from Pool_go [OF go this] show ?thesis by blast
qed

section \<open>One row after the other\<close>

text \<open>The calls of one row, with nothing in between, are \<open>fetch\<close> and \<open>Process\<close>.\<close>

definition call_seq ::
  "('r, 'p, 'c, 'd) Worker \<Rightarrow> CurrencyRateUpdateRequest
     \<Rightarrow> 'd phase \<times> ('r, 'p, 'c) world \<Rightarrow> 'd phase \<times> ('r, 'p, 'c) world \<Rightarrow> bool" where
  "call_seq W req = (\<lambda>x y. active (fst x) \<and> y = task_step W (snd x) req (fst x))\<^sup>*\<^sup>*"

lemma call_seq_refl [simp]: "call_seq W req x x"
  by (simp add: call_seq_def)

lemma call_seq_step: "active ph \<Longrightarrow> task_step W w req ph = y \<Longrightarrow> call_seq W req y z \<Longrightarrow> call_seq W req (ph, w) z"
  unfolding call_seq_def by (rule converse_rtranclp_into_rtranclp) auto

lemma call_seq_fetch_fresh:
  "call_seq W req (At_budget, w) (At_return (fst (fetch_fresh W w (Pair req))), snd (fetch_fresh W w (Pair req)))"
proof -
  obtain t w1 where t: "read_clock W w = (t, w1)" by fastforce
  obtain ok retryAfter l where a: "Allow (w_limiter w1) t = ((ok, retryAfter), l)" by (metis prod.collapse)
  let ?w2 = "w1\<lparr>w_limiter := l\<rparr>"
  obtain res p where g: "rp_GetCurrencyRate (wk_provider W) (w_prov ?w2) (Pair req) = (res, p)" by fastforce
  let ?w3 = "?w2\<lparr>w_prov := p\<rparr>"
  obtain t' w4 where t': "read_clock W ?w3 = (t', w4)" by fastforce
  note defs = fetch_fresh_def Let_def t a
  have "call_seq W req (At_allow t, w1)
    (At_return (fst (fetch_fresh W w (Pair req))), snd (fetch_fresh W w (Pair req)))"
  proof (cases ok)
    case False
    then show ?thesis by (intro call_seq_step [OF _ refl]) (simp_all add: defs)
  next
    case True
    have "call_seq W req (At_provider, ?w2)
      (At_return (fst (fetch_fresh W w (Pair req))), snd (fetch_fresh W w (Pair req)))"
    proof (cases res)
      case Panic
      with True g show ?thesis by (intro call_seq_step [OF _ refl]) (simp_all add: defs)
    next
      case (Ok raw)
      then have "call_seq W req (At_rate raw, ?w3)
        (At_return (fst (fetch_fresh W w (Pair req))), snd (fetch_fresh W w (Pair req)))"
        using True g t' by (intro call_seq_step [OF _ refl]) (simp_all add: defs split: gores.splits)
      with g Ok show ?thesis by (intro call_seq_step [where ph = At_provider]) simp_all
    next
      case (Err e)
      show ?thesis
      proof (cases "\<exists>r. errors_As_rate e = Some r \<and> 0 < err_retryAfter r")
        case False
        with Err True g show ?thesis
          by (intro call_seq_step [OF _ refl]) (auto simp: defs split: option.splits)
      next
        case cool: True
        then obtain r where r: "errors_As_rate e = Some r" "0 < err_retryAfter r" by blast
        have "call_seq W req (At_cool e (time_Add t' (err_retryAfter r)), w4)
          (At_return (fst (fetch_fresh W w (Pair req))), snd (fetch_fresh W w (Pair req)))"
          using True g Err r t' by (intro call_seq_step [OF _ refl]) (simp_all add: defs)
        then have "call_seq W req (At_cool_now e (err_retryAfter r), ?w3)
          (At_return (fst (fetch_fresh W w (Pair req))), snd (fetch_fresh W w (Pair req)))"
          using t' by (intro call_seq_step [where ph = "At_cool_now e (err_retryAfter r)"]) simp_all
        with g Err r show ?thesis by (intro call_seq_step [where ph = At_provider]) simp_all
      qed
    qed
    with True a show ?thesis by (intro call_seq_step [where ph = "At_allow t"]) simp_all
  qed
  with t show ?thesis by (intro call_seq_step [where ph = At_budget]) simp_all
qed

lemma call_seq_fetch:
  "call_seq W req (At_latest, w) (At_return (fst (fetch W w (Pair req))), snd (fetch W w (Pair req)))"
proof -
  obtain res r where g: "GetLatestQuote (wk_repo W) (w_repo w) (Pair req) = (res, r)" by fastforce
  let ?w1 = "w\<lparr>w_repo := r\<rparr>"
  obtain t w2 where t: "read_clock W ?w1 = (t, w2)" by fastforce
  note fresh = call_seq_fetch_fresh [of W req]
  show ?thesis
  proof (cases res)
    case (Ok q)
    then obtain latest k where q: "res = Ok (latest, k)" by (cases q) auto
    have "call_seq W req (At_check latest k, ?w1) (At_return (fst (fetch W w (Pair req))), snd (fetch W w (Pair req)))"
    proof (rule call_seq_step [OF _ refl])
      show "call_seq W req (task_step W ?w1 req (At_check latest k))
        (At_return (fst (fetch W w (Pair req))), snd (fetch W w (Pair req)))"
        using g t q fresh [of w2] by (cases "time_Before t (StaleAfter latest)") (simp_all add: fetch_def)
    qed simp
    with g q show ?thesis by (intro call_seq_step [where ph = At_latest]) simp_all
  next
    case (Err e)
    with g fresh [of ?w1] show ?thesis
      by (intro call_seq_step [OF _ refl], simp, cases "errors_Is (\<lambda>x. x = ErrNotFound) e")
        (simp_all add: fetch_def)
  next
    case Panic
    with g show ?thesis by (intro call_seq_step [OF _ refl]) (simp_all add: fetch_def)
  qed
qed

lemma call_seq_close:
  assumes "fetch W w (Pair req) = (res, w1)"
  shows "call_seq W req (Resolved_as res, w1) (Finished (fst (Process W w req)), snd (Process W w req))"
proof (cases res)
  case Panic
  with assms show ?thesis by (intro call_seq_step [OF _ refl]) (simp_all add: Process_def)
next
  case (Err e)
  obtain now w2 where t: "read_clock W w1 = (now, w2)" by fastforce
  have "call_seq W req (At_close res now, w2) (Finished (fst (Process W w req)), snd (Process W w req))"
    using assms Err t by (intro call_seq_step [OF _ refl]) (simp_all add: Process_def split: prod.split)
  with Err t show ?thesis by (intro call_seq_step [where ph = "Resolved_as res"]) simp_all
next
  case (Ok q)
  then obtain rate k where q: "res = Ok (rate, k)" by (cases q) auto
  obtain now w2 where t: "read_clock W w1 = (now, w2)" by fastforce
  have "call_seq W req (At_close res now, w2) (Finished (fst (Process W w req)), snd (Process W w req))"
    using assms q t by (intro call_seq_step [OF _ refl]) (simp_all add: Process_def Let_def split: prod.split)
  with q t show ?thesis by (intro call_seq_step [where ph = "Resolved_as res"]) simp_all
qed

lemma pool_run_trans: "pool_run W limit reqs interf c' m c'' \<Longrightarrow> pool_run W limit reqs interf c k c'
    \<Longrightarrow> pool_run W limit reqs interf c (k + m) c''"
  by (induction rule: pool_run.induct) (auto intro: pool_run.intros)

lemma pool_run_step: "pool_step W limit reqs c c' \<Longrightarrow> pool_run W limit reqs interf c' k c''
    \<Longrightarrow> pool_run W limit reqs interf c (Suc k) c''"
  using pool_run_trans [OF _ Pool_own [OF Pool_refl]] by fastforce

lemma pool_run_call_seq:
  assumes "call_seq W (reqs ! i) (ph, w) (ph', w')" "i < length phs"
  shows "\<exists>k. pool_run W limit reqs interf (w, phs[i := ph]) k (w', phs[i := ph'])"
  using assms(1) unfolding call_seq_def
proof (induction rule: rtranclp_induct2)
  case refl
  then show ?case using Pool_refl by blast
next
  case (step ph1 w1 ph2 w2)
  then obtain k where k: "pool_run W limit reqs interf (w, phs[i := ph]) k (w1, phs[i := ph1])" by blast
  have "pool_step W limit reqs (w1, phs[i := ph1]) (w2, phs[i := ph1, i := ph2])"
    using step.hyps(2) assms(2) by (intro Pool_call) simp_all
  from Pool_own [OF k this] show ?case by auto
qed

lemma deliver_none: "Joined \<notin> set phs \<Longrightarrow> length phs = length reqs \<Longrightarrow> deliver reqs pair res phs = phs"
  unfolding deliver_def by (rule nth_equalityI) (auto simp: set_conv_nth)

lemma pool_run_row:
  assumes "phs = pre @ Queued # rest" "length phs = length reqs" "\<forall>ph \<in> set (pre @ rest). \<not> running ph"
    and "Queued \<notin> set pre" "limit \<noteq> 0" "i = length pre"
  shows "\<exists>k. pool_run W limit reqs interf (w, phs) k
    (snd (Process W w (reqs ! i)), phs[i := Finished (fst (Process W w (reqs ! i)))])"
proof -
  let ?req = "reqs ! i"
  obtain res w1 where f: "fetch W w (Pair ?req) = (res, w1)" by fastforce
  have i: "i < length phs" "phs ! i = Queued" "Queued \<notin> set (take i phs)" using assms by simp_all
  have idle: "\<not> running (phs ! j)" if "j < length phs" for j
    using that assms(1,3) nth_mem [OF that] by auto
  have none: "\<not> in_flight reqs (phs[i := Called]) (Pair ?req)"
  proof -
    have "\<not> leading (phs[i := Called] ! j)" if "j < length phs" for j
      using idle [OF that] active_running(2) i(1) by (cases "j = i") auto
    with assms(2) show ?thesis by (auto simp: in_flight_iff)
  qed
  have "filter running phs = []" using assms(1,3) by simp
  then have "int (length (filter running phs)) < limit \<or> limit < 0" using assms(5) by auto
  from Pool_go [OF i this] have go: "pool_step W limit reqs (w, phs) (w, phs[i := Called])" .
  have "pool_step W limit reqs (w, phs[i := Called]) (w, phs[i := Called, i := At_latest])"
    using i(1) none by (intro Pool_lead) simp_all
  then have lead: "pool_step W limit reqs (w, phs[i := Called]) (w, phs[i := At_latest])" by simp
  from call_seq_fetch [of W ?req w] f
  have "call_seq W ?req (At_latest, w) (At_return res, w1)" by simp
  from pool_run_call_seq [OF this i(1)] obtain k
    where k: "pool_run W limit reqs interf (w, phs[i := At_latest]) k (w1, phs[i := At_return res])" by blast
  have "running Joined" by simp
  with assms(3) have "Joined \<notin> set (pre @ rest)" by blast
  with assms(1,6) have "Joined \<notin> set (phs[i := Resolved_as res])" by (simp add: list_update_append)
  from deliver_none [OF this] assms(2)
  have "deliver reqs (Pair ?req) res (phs[i := At_return res, i := Resolved_as res]) = phs[i := Resolved_as res]"
    by simp
  with Pool_return [of i "phs[i := At_return res]" res W limit reqs w1] i(1)
  have ret: "pool_step W limit reqs (w1, phs[i := At_return res]) (w1, phs[i := Resolved_as res])" by simp
  from pool_run_call_seq [OF call_seq_close [OF f] i(1)] obtain m
    where m: "pool_run W limit reqs interf (w1, phs[i := Resolved_as res]) m
      (snd (Process W w ?req), phs[i := Finished (fst (Process W w ?req))])" by blast
  from pool_run_step [OF go] pool_run_step [OF lead] pool_run_trans [OF pool_run_step [OF ret m] k]
  show ?thesis by blast
qed

lemma process_rows_append: "process_rows W w (xs @ ys) = process_rows W (process_rows W w xs) ys"
  by (induction xs arbitrary: w) simp_all

lemma pool_run_rows_upto:
  assumes "limit \<noteq> 0" "n \<le> length reqs"
  shows "\<exists>k ress. length ress = n \<and> pool_run W limit reqs interf (w, pool_start reqs) k
    (process_rows W w (take n reqs), map Finished ress @ replicate (length reqs - n) Queued)"
  using assms(2)
proof (induction n)
  case 0
  have "pool_run W limit reqs interf (w, pool_start reqs) 0 (w, pool_start reqs)" by (rule Pool_refl)
  then show ?case by (auto simp: pool_start_def)
next
  case (Suc n)
  then obtain k ress where n: "length ress = n" and k: "pool_run W limit reqs interf (w, pool_start reqs) k
    (process_rows W w (take n reqs), map Finished ress @ replicate (length reqs - n) Queued)" by auto
  let ?w = "process_rows W w (take n reqs)" and ?phs = "map Finished ress @ replicate (length reqs - n) Queued"
  have split: "?phs = map Finished ress @ Queued # replicate (length reqs - Suc n) Queued"
    using Suc.prems by (simp add: Suc_diff_Suc flip: replicate_Suc)
  have "\<exists>m. pool_run W limit reqs interf (?w, ?phs) m
      (snd (Process W ?w (reqs ! n)), ?phs[n := Finished (fst (Process W ?w (reqs ! n)))])"
    by (rule pool_run_row [OF split]) (use n Suc.prems assms(1) in auto)
  moreover have "?phs[n := Finished (fst (Process W ?w (reqs ! n)))]
      = map Finished (ress @ [fst (Process W ?w (reqs ! n))]) @ replicate (length reqs - Suc n) Queued"
    unfolding split using n by (simp add: list_update_append)
  moreover have "snd (Process W ?w (reqs ! n)) = process_rows W w (take (Suc n) reqs)"
    using Suc.prems by (simp add: take_Suc_conv_app_nth process_rows_append)
  ultimately obtain m where m: "pool_run W limit reqs interf (?w, ?phs) m (process_rows W w (take (Suc n) reqs),
      map Finished (ress @ [fst (Process W ?w (reqs ! n))]) @ replicate (length reqs - Suc n) Queued)" by metis
  from pool_run_trans [OF m k] n show ?case
    by (intro exI [of _ "k + m"] exI [of _ "ress @ [fst (Process W ?w (reqs ! n))]"]) simp
qed

section \<open>What the calls do to the store\<close>

definition error_ok :: "go_error \<Rightarrow> bool" where
  "error_ok e \<longleftrightarrow> (\<forall>r. errors_As_rate e = Some r \<longrightarrow> ErrorCode_Valid (err_code r))"

text \<open>A result of \<open>fetch\<close>: a new rate, or a quote that is in the journal, for the pair asked for.\<close>

fun outcome_ok :: "('d \<Rightarrow> int) \<Rightarrow> 'd store \<Rightarrow> CurrencyPair \<Rightarrow> 'd outcome \<Rightarrow> bool" where
  "outcome_ok Sign S pair Panic = True"
| "outcome_ok Sign S pair (Err e) = error_ok e"
| "outcome_ok Sign S pair (Ok (rate, k)) =
     (if k = 0 then rate_ok Sign rate else st_quotes S k = Some (pair, rate))"

fun phase_ok :: "('d \<Rightarrow> int) \<Rightarrow> 'd store \<Rightarrow> CurrencyPair \<Rightarrow> 'd phase \<Rightarrow> bool" where
  "phase_ok Sign S pair (At_check rate k) = (st_quotes S k = Some (pair, rate))"
| "phase_ok Sign S pair (At_cool_now e d) = error_ok e"
| "phase_ok Sign S pair (At_cool e t) = error_ok e"
| "phase_ok Sign S pair (At_return res) = outcome_ok Sign S pair res"
| "phase_ok Sign S pair (Resolved_as res) = outcome_ok Sign S pair res"
| "phase_ok Sign S pair (At_close res now) = outcome_ok Sign S pair res"
| "phase_ok Sign S pair ph = True"

lemma outcome_ok_mono: "outcome_ok Sign S pair res \<Longrightarrow> evolves S S' \<Longrightarrow> outcome_ok Sign S' pair res"
  by (cases "(Sign, S, pair, res)" rule: outcome_ok.cases)
    (auto simp: evolves_def map_le_def domI split: if_splits dest!: bspec)

lemma phase_ok_mono: "phase_ok Sign S pair ph \<Longrightarrow> evolves S S' \<Longrightarrow> phase_ok Sign S' pair ph"
  by (cases ph) (auto simp: outcome_ok_mono evolves_def map_le_def domI dest!: bspec)

lemma infra_error_ok: "infra e \<Longrightarrow> error_ok e"
  by (simp add: infra_def error_ok_def)

text \<open>A row that the pool has closed, in the store \<open>S\<close> of any later time, and a row before that.\<close>

definition closed :: "'d store \<Rightarrow> CurrencyPair \<Rightarrow> queue_row \<Rightarrow> queue_row \<Rightarrow> bool" where
  "closed S pair q q' \<longleftrightarrow>
     (\<exists>now k reused rate. q' = succeeded_row now k reused q \<and> st_quotes S k = Some (pair, rate))
     \<or> (\<exists>now code msg retryable next. q' = failed_row now code msg retryable next q \<and> code \<in> stored_codes)"

definition row_so_far :: "'d store \<Rightarrow> 'd store \<Rightarrow> CurrencyRateUpdateRequest \<Rightarrow> 'd phase \<Rightarrow> bool" where
  "row_so_far S0 S req ph \<longleftrightarrow>
     (if ph = Finished (Ok ())
      then \<exists>q q'. st_rows S0 (ID req) = Some q \<and> Status (q_req q) = StatusInProgress
             \<and> st_rows S (ID req) = Some q' \<and> closed S (Pair req) q q'
      else st_rows S (ID req) = st_rows S0 (ID req))"

lemma resolved_closed: "resolved S S' pair q q' \<Longrightarrow> closed S' pair q q'"
  unfolding resolved_def closed_def by blast

lemma closed_mono: "closed S pair q q' \<Longrightarrow> evolves S S' \<Longrightarrow> closed S' pair q q'"
  unfolding closed_def evolves_def map_le_def by (metis domI)

lemma row_so_far_mono:
  "row_so_far S0 S req ph \<Longrightarrow> evolves S S' \<Longrightarrow> st_rows S' (ID req) = st_rows S (ID req) \<Longrightarrow> row_so_far S0 S' req ph"
  unfolding row_so_far_def using closed_mono by (metis (no_types))

context worker
begin

text \<open>The row that makes a call is the only one the call can change, and only the closing call does;
  that call does what \<open>Process\<close> promises, to the store as it is then.\<close>

definition step_effect :: "('r, 'p, 'c) world \<Rightarrow> CurrencyRateUpdateRequest \<Rightarrow> 'd phase \<Rightarrow> ('r, 'p, 'c) world \<Rightarrow> bool" where
  "step_effect w req ph w' \<longleftrightarrow>
     inv (w_repo w') \<and> store_ok (abs (w_repo w')) \<and> evolves (abs (w_repo w)) (abs (w_repo w'))
     \<and> phase_ok (wk_Sign W) (abs (w_repo w')) (Pair req) ph
     \<and> (case ph of Finished res \<Rightarrow> process_spec (abs (w_repo w)) req res (abs (w_repo w'))
        | _ \<Rightarrow> abs (w_repo w') = abs (w_repo w))"

lemma step_effect_same:
  assumes "inv (w_repo w')" "abs (w_repo w') = abs (w_repo w)" "store_ok (abs (w_repo w))"
    and "phase_ok (wk_Sign W) (abs (w_repo w)) (Pair req) ph" "\<not> finished ph \<or> ph = Finished Panic"
  shows "step_effect w req ph w'"
  using assms by (auto simp: step_effect_def process_spec_same split: phase.split)

lemma latest_effect:
  assumes "inv (w_repo w)" "store_ok (abs (w_repo w))" "held (abs (w_repo w)) req"
    and "task_step W w req At_latest = (ph, w')"
  shows "step_effect w req ph w'"
proof -
  obtain res r where g: "GetLatestQuote (wk_repo W) (w_repo w) (Pair req) = (res, r)" by fastforce
  have pair: "pair_ok (Pair req)" using held_pair_ok assms(2,3) .
  note law = repo.latest_law [OF assms(1,2) pair g] and keep = repo.reads_keep(3) [OF assms(1,2) pair g]
  have e: "error_ok e" if "res = Err e" for e
    using law that infra_error_ok by (auto simp: latest_spec_def fault_def error_ok_def)
  have q: "st_quotes (abs (w_repo w)) k = Some (Pair req, rate)" if "res = Ok (rate, k)" for rate k
    using law that by (auto simp: latest_spec_def fault_def)
  show ?thesis
    using assms(2,4) g keep e q
    by (intro step_effect_same) (auto split: gores.splits if_splits)
qed

lemma fetch_call_phase:
  assumes "store_ok S" "leading ph" "active ph" "ph \<noteq> At_latest"
    and "phase_ok (wk_Sign W) S (Pair req) ph"
  shows "phase_ok (wk_Sign W) S (Pair req) (fst (task_step W w req ph))"
proof (cases ph)
  case (At_check rate k)
  then have "0 < k" using assms(1,5) store_ok_quote_pos by simp
  with At_check assms(5) show ?thesis by (simp add: Let_def split: prod.split)
next
  case At_provider
  obtain res p where g: "rp_GetCurrencyRate (wk_provider W) (w_prov w) (Pair req) = (res, p)" by fastforce
  have "error_ok e" if "res = Err e" for e
    using prov.classified [OF g [unfolded that]] by (simp add: error_ok_def)
  with At_provider g show ?thesis by (simp split: gores.split option.split)
next
  case (At_rate raw)
  then show ?thesis
    by (auto simp: Let_def NewCurrencyRate_Ok_iff rate_ok_def error_ok_def split: prod.split gores.split)
qed (use assms in \<open>auto simp: Let_def error_ok_def split: prod.split\<close>)

lemma fetch_call_effect:
  assumes "inv (w_repo w)" "store_ok (abs (w_repo w))" "leading ph" "active ph" "ph \<noteq> At_latest"
    and "phase_ok (wk_Sign W) (abs (w_repo w)) (Pair req) ph"
    and "task_step W w req ph = (ph', w')"
  shows "step_effect w req ph' w'"
proof -
  have repo: "w_repo w' = w_repo w"
    using assms(3,5,7) read_clock_frame
    by (cases ph) (fastforce simp: Let_def split: prod.splits gores.splits option.splits if_splits)+
  have "phase_ok (wk_Sign W) (abs (w_repo w)) (Pair req) ph'"
    using fetch_call_phase [OF assms(2-6), of w] assms(7) by simp
  moreover have "\<not> finished ph'"
    using assms(3,4,7) by (cases ph) (auto simp: Let_def split: prod.splits gores.splits option.splits if_splits)
  ultimately show ?thesis
    using assms(1,2) repo by (intro step_effect_same) simp_all
qed

lemma close_effect:
  assumes "inv (w_repo w)" "store_ok (abs (w_repo w))" "held (abs (w_repo w)) req"
    and "outcome_ok (wk_Sign W) (abs (w_repo w)) (Pair req) res"
    and "task_step W w req (At_close res now) = (ph, w')"
  shows "step_effect w req ph w'"
proof (cases res)
  case Panic
  with assms(1,2,5) show ?thesis by (intro step_effect_same) auto
next
  case (Err e)
  then obtain x where f: "fail W w req e now = (x, w')" and ph: "ph = Finished x"
    using assms(5) by (auto split: prod.splits)
  have "ErrorCode_Valid (err_code r)" if "errors_As_rate e = Some r" for r
    using assms(4) that by (simp add: Err error_ok_def)
  from fail_effect [OF assms(1,2) this f] show ?thesis by (simp add: step_effect_def ph)
next
  case (Ok rq)
  then obtain rate k where rq: "res = Ok (rate, k)" by (cases rq) auto
  have pair: "pair_ok (Pair req)" using held_pair_ok assms(2,3) .
  have same: "Pair (q_req x) = Pair req" if "st_rows (abs (w_repo w)) (ID req) = Some x" for x
    using that assms(3) by (auto simp: held_def)
  show ?thesis
  proof (cases "k = 0")
    case True
    then obtain x where ph: "ph = Finished x" and c: "CompleteSuccess (wk_repo W) (w_repo w) (ID req) (Pair req) rate now
        = (x, w_repo w')" using assms(5) rq by (auto split: prod.splits)
    from repo.success_keeps [OF assms(1,2) pair c same] repo.success_law [OF assms(1,2) pair c] success_process_spec
    show ?thesis by (simp add: step_effect_def ph) blast
  next
    case False
    then obtain x where ph: "ph = Finished x" and c: "CompleteSuccessReuse (wk_repo W) (w_repo w) (ID req) k now
        = (x, w_repo w')" using assms(5) rq by (auto split: prod.splits)
    from assms(4) rq False have j: "st_quotes (abs (w_repo w)) k = Some (Pair req, rate)" by simp
    then have "st_quotes (abs (w_repo w)) k \<noteq> None" by simp
    from repo.reuse_keeps [OF assms(1,2) c j same] repo.reuse_law [OF assms(1,2) this c] reuse_process_spec j
    show ?thesis by (simp add: step_effect_def ph) blast
  qed
qed

lemma resolved_effect:
  assumes "inv (w_repo w)" "store_ok (abs (w_repo w))"
    and "outcome_ok (wk_Sign W) (abs (w_repo w)) (Pair req) res"
    and "task_step W w req (Resolved_as res) = (ph, w')"
  shows "step_effect w req ph w'"
proof -
  have "w_repo w' = w_repo w"
    using assms(4) read_clock_frame by (fastforce split: gores.splits prod.splits)
  then show ?thesis
    using assms by (intro step_effect_same) (auto split: gores.splits prod.splits)
qed

lemma task_step_effect:
  assumes "inv (w_repo w)" "store_ok (abs (w_repo w))" "held (abs (w_repo w)) req"
    and "phase_ok (wk_Sign W) (abs (w_repo w)) (Pair req) ph" "active ph"
    and "task_step W w req ph = (ph', w')"
  shows "step_effect w req ph' w'"
proof -
  consider "ph = At_latest" | "leading ph" "ph \<noteq> At_latest" | res where "ph = Resolved_as res"
    | res now where "ph = At_close res now" using assms(5) by (cases ph) simp_all
  then show ?thesis
  proof cases
    case 1
    with latest_effect [OF assms(1-3)] assms(6) show ?thesis by simp
  next
    case 2
    from fetch_call_effect [OF assms(1,2) this(1) assms(5) this(2) assms(4,6)] show ?thesis .
  next
    case 3
    with resolved_effect [OF assms(1,2)] assms(4,6) show ?thesis by simp
  next
    case 4
    with close_effect [OF assms(1-3)] assms(4,6) show ?thesis by simp
  qed
qed

text \<open>The invariant of a pool at work on the batch \<open>reqs\<close>.\<close>

definition pool_inv :: "CurrencyRateUpdateRequest list \<Rightarrow> ('r, 'p, 'c, 'd) pool \<Rightarrow> bool" where
  "pool_inv reqs c \<longleftrightarrow> inv (w_repo (fst c)) \<and> store_ok (abs (w_repo (fst c)))
     \<and> batch_held (abs (w_repo (fst c))) reqs \<and> length (snd c) = length reqs
     \<and> (\<forall>i < length reqs. phase_ok (wk_Sign W) (abs (w_repo (fst c))) (Pair (reqs ! i)) (snd c ! i))"

text \<open>What others may do to the world meanwhile: anything a repository does.\<close>

definition rely :: "('r, 'p, 'c) world \<Rightarrow> ('r, 'p, 'c) world \<Rightarrow> bool" where
  "rely w w' \<longleftrightarrow> (inv (w_repo w) \<and> store_ok (abs (w_repo w))
     \<longrightarrow> inv (w_repo w') \<and> store_ok (abs (w_repo w')) \<and> evolves (abs (w_repo w)) (abs (w_repo w')))"

lemma pool_inv_world:
  assumes "pool_inv reqs (w, phs)" "inv (w_repo w')" "store_ok (abs (w_repo w'))"
    and "evolves (abs (w_repo w)) (abs (w_repo w'))"
  shows "pool_inv reqs (w', phs)"
  using assms held_evolves phase_ok_mono by (simp add: pool_inv_def batch_held_def) blast

lemma pool_inv_phase:
  assumes "pool_inv reqs (w, phs)" "phase_ok (wk_Sign W) (abs (w_repo w)) (Pair (reqs ! i)) ph"
  shows "pool_inv reqs (w, phs[i := ph])"
proof -
  have "phase_ok (wk_Sign W) (abs (w_repo w)) (Pair (reqs ! j)) (phs[i := ph] ! j)" if "j < length reqs" for j
    using assms that by (cases "j = i") (simp_all add: pool_inv_def)
  with assms(1) show ?thesis by (simp add: pool_inv_def)
qed

lemma pool_step_inv:
  assumes "pool_step W limit reqs c c'" "pool_inv reqs c"
  shows "pool_inv reqs c' \<and> evolves (abs (w_repo (fst c))) (abs (w_repo (fst c')))"
  using assms(1)
proof (cases rule: pool_step.cases)
  case (Pool_call i phs w ph w')
  from assms(2) Pool_call(1,3) have i: "inv (w_repo w)" "store_ok (abs (w_repo w))"
    "held (abs (w_repo w)) (reqs ! i)" "phase_ok (wk_Sign W) (abs (w_repo w)) (Pair (reqs ! i)) (phs ! i)"
    by (simp_all add: pool_inv_def batch_held_def)
  from task_step_effect [OF i Pool_call(4,5)] have e: "inv (w_repo w')" "store_ok (abs (w_repo w'))"
    "evolves (abs (w_repo w)) (abs (w_repo w'))" "phase_ok (wk_Sign W) (abs (w_repo w')) (Pair (reqs ! i)) ph"
    by (simp_all add: step_effect_def)
  from pool_inv_phase [OF pool_inv_world [OF assms(2) [unfolded Pool_call(1)] e(1-3)] e(4)] e(3) Pool_call
  show ?thesis by simp
next
  case (Pool_return i phs res w)
  have len: "length phs = length reqs" using assms(2) Pool_return(1) by (simp add: pool_inv_def)
  have "outcome_ok (wk_Sign W) (abs (w_repo w)) (Pair (reqs ! i)) res"
    using assms(2) Pool_return(1,3,4) by (simp add: pool_inv_def) (metis phase_ok.simps(4))
  with assms(2) Pool_return len show ?thesis
    by (auto simp: pool_inv_def deliver_nth nth_list_update)
qed (use assms(2) in \<open>auto intro: pool_inv_phase\<close>)

lemma pool_run_inv:
  assumes "pool_run W limit reqs interf c k c'" "pool_inv reqs c" "\<And>w w'. interf w w' \<Longrightarrow> rely w w'"
  shows "pool_inv reqs c' \<and> evolves (abs (w_repo (fst c))) (abs (w_repo (fst c')))"
  using assms(1,2)
proof (induction rule: pool_run.induct)
  case (Pool_own c k c' c'')
  then show ?case using pool_step_inv [OF Pool_own.hyps(2)] evolves_trans by blast
next
  case (Pool_env c k w phs w')
  then have p: "pool_inv reqs (w, phs)" "evolves (abs (w_repo (fst c))) (abs (w_repo w))" by simp_all
  then have "inv (w_repo w)" "store_ok (abs (w_repo w))" by (simp_all add: pool_inv_def)
  with assms(3) [OF Pool_env.hyps(2)] have e: "inv (w_repo w')" "store_ok (abs (w_repo w'))"
    "evolves (abs (w_repo w)) (abs (w_repo w'))" by (simp_all add: rely_def)
  from pool_inv_world [OF p(1) e] evolves_trans [OF p(2) e(3)] show ?case by simp
qed simp

lemma pool_inv_start:
  assumes "inv (w_repo w)" "store_ok (abs (w_repo w))" "batch_held (abs (w_repo w)) reqs"
  shows "pool_inv reqs (w, pool_start reqs)"
  using assms by (simp add: pool_inv_def pool_start_def)

text \<open>Left to itself the pool closes each row at most once, and touches no other.\<close>

definition rows_so_far :: "'d store \<Rightarrow> CurrencyRateUpdateRequest list \<Rightarrow> ('r, 'p, 'c, 'd) pool \<Rightarrow> bool" where
  "rows_so_far S0 reqs c \<longleftrightarrow>
     (\<forall>i < length reqs. row_so_far S0 (abs (w_repo (fst c))) (reqs ! i) (snd c ! i))
     \<and> (\<forall>k. k \<notin> ID ` set reqs \<longrightarrow> st_rows (abs (w_repo (fst c))) k = st_rows S0 k)"

lemma rows_so_far_phase:
  assumes "rows_so_far S0 reqs (w, phs)" "length phs = length reqs" "i < length reqs"
    and "ph \<noteq> Finished (Ok ())" "phs ! i \<noteq> Finished (Ok ())"
  shows "rows_so_far S0 reqs (w, phs[i := ph])"
proof -
  have "row_so_far S0 (abs (w_repo w)) (reqs ! j) (phs[i := ph] ! j)" if "j < length reqs" for j
    using assms that by (cases "j = i") (auto simp: rows_so_far_def row_so_far_def)
  with assms(1) show ?thesis by (simp add: rows_so_far_def)
qed

lemma rows_so_far_close:
  assumes "rows_so_far S0 reqs (w, phs)" "length phs = length reqs" "i < length reqs" "distinct (map ID reqs)"
    and "phs ! i \<noteq> Finished (Ok ())" "evolves (abs (w_repo w)) (abs (w_repo w'))"
    and "process_spec (abs (w_repo w)) (reqs ! i) res (abs (w_repo w'))"
  shows "rows_so_far S0 reqs (w', phs[i := Finished res])"
proof (cases "is_ok res")
  case False
  then have "abs (w_repo w') = abs (w_repo w)" "Finished res \<noteq> Finished (Ok ())"
    using assms(7) by (auto simp: process_spec_def)
  with rows_so_far_phase [OF assms(1-3) _ assms(5), of "Finished res"] show ?thesis
    by (simp add: rows_so_far_def)
next
  case True
  then have ok: "res = Ok ()" by (cases res) auto
  let ?S = "abs (w_repo w)" and ?S' = "abs (w_repo w')" and ?k = "ID (reqs ! i)"
  from assms(7) ok obtain q q' where q: "st_rows ?S ?k = Some q" "Status (q_req q) = StatusInProgress"
    and rows: "st_rows ?S' = (st_rows ?S)(?k \<mapsto> q')" and r: "resolved ?S ?S' (Pair (reqs ! i)) q q'"
    by (auto simp: process_spec_def)
  have old: "st_rows S0 ?k = Some q" using assms(1,3,5) q(1) by (auto simp: rows_so_far_def row_so_far_def)
  have "row_so_far S0 ?S' (reqs ! j) (phs[i := Finished res] ! j)" if j: "j < length reqs" for j
  proof (cases "j = i")
    case True
    with old q(2) rows resolved_closed [OF r] assms(2,3) ok show ?thesis by (auto simp: row_so_far_def)
  next
    case False
    then have "ID (reqs ! j) \<noteq> ?k" using assms(3,4) j by (metis distinct_conv_nth length_map nth_map)
    with row_so_far_mono [OF _ assms(6)] assms(1) False j rows show ?thesis by (auto simp: rows_so_far_def)
  qed
  moreover have "?k \<in> ID ` set reqs" using assms(3) by simp
  ultimately show ?thesis using assms(1) rows by (auto simp: rows_so_far_def)
qed

lemma pool_step_rows:
  assumes "pool_step W limit reqs c c'" "pool_inv reqs c" "rows_so_far S0 reqs c"
  shows "rows_so_far S0 reqs c'"
  using assms(1)
proof (cases rule: pool_step.cases)
  case (Pool_call i phs w ph w')
  from assms(2) Pool_call(1,3) have i: "inv (w_repo w)" "store_ok (abs (w_repo w))"
    "held (abs (w_repo w)) (reqs ! i)" "phase_ok (wk_Sign W) (abs (w_repo w)) (Pair (reqs ! i)) (phs ! i)"
    and len: "length phs = length reqs" and d: "distinct (map ID reqs)"
    by (simp_all add: pool_inv_def batch_held_def)
  note e = task_step_effect [OF i Pool_call(4,5), unfolded step_effect_def]
  have old: "phs ! i \<noteq> Finished (Ok ())" using Pool_call(4) by auto
  have r: "rows_so_far S0 reqs (w, phs)" using assms(3) Pool_call(1) by simp
  show ?thesis
  proof (cases "finished ph")
    case True
    then obtain res where "ph = Finished res" by (cases ph) simp_all
    with rows_so_far_close [OF r len _ d old] e Pool_call(2,3) len show ?thesis by auto
  next
    case False
    then have "abs (w_repo w') = abs (w_repo w)" "ph \<noteq> Finished (Ok ())" using e by (auto split: phase.splits)
    with rows_so_far_phase [OF r len _ _ old, of ph] Pool_call(2,3) len show ?thesis
      by (simp add: rows_so_far_def)
  qed
next
  case (Pool_return i phs res w)
  have len: "length phs = length reqs" using assms(2) Pool_return(1) by (simp add: pool_inv_def)
  with assms(3) Pool_return show ?thesis
    by (auto simp: rows_so_far_def row_so_far_def deliver_nth nth_list_update)
next
  case (Pool_go i phs w)
  with rows_so_far_phase [of S0 reqs w phs i Called] assms(2,3) show ?thesis by (simp add: pool_inv_def)
next
  case (Pool_lead i phs w)
  with rows_so_far_phase [of S0 reqs w phs i At_latest] assms(2,3) show ?thesis by (simp add: pool_inv_def)
next
  case (Pool_join i phs w)
  with rows_so_far_phase [of S0 reqs w phs i Joined] assms(2,3) show ?thesis by (simp add: pool_inv_def)
qed

lemma pool_run_rows:
  assumes "pool_run W limit reqs (\<lambda>_ _. False) c k c'" "pool_inv reqs c" "rows_so_far S0 reqs c"
  shows "rows_so_far S0 reqs c'"
  using assms
proof (induction rule: pool_run.induct)
  case (Pool_own c k c' c'')
  have "pool_inv reqs c'" using pool_run_inv [OF Pool_own.hyps(1) Pool_own.prems(1)] by simp
  with pool_step_rows [OF Pool_own.hyps(2)] Pool_own show ?case by simp
qed simp_all

lemma rows_so_far_start: "rows_so_far (abs (w_repo w)) reqs (w, pool_start reqs)"
  by (simp add: rows_so_far_def row_so_far_def pool_start_def)

end

section \<open>A pass with its pool\<close>

definition claim_for_pass ::
  "('r, 'p, 'c, 'd) Dispatcher \<Rightarrow> ('r, 'p, 'c) world \<Rightarrow> CurrencyRateUpdateRequest list go \<times> ('r, 'p, 'c) world" where
  "claim_for_pass D w =
     (let (now, c) = Now (dp_clock D) (w_clock w);
          visibleSince = time_Add now (- visibilityTimeout D);
          (res, r) = ClaimBatch (dp_repo D) (w_repo w) (batchSize D) now visibleSince
      in (res, w\<lparr>w_clock := c, w_repo := r\<rparr>))"

text \<open>\<open>ClaimAndDispatch\<close> with the rows of the batch in a pool of \<open>poolSize\<close> workers; \<open>g.Wait\<close> returns when every
  row is done. The relation holds between the world, the result and the world after a pass.\<close>

inductive pool_pass ::
  "('r, 'p, 'c, 'd) Dispatcher \<Rightarrow> (('r, 'p, 'c) world \<Rightarrow> ('r, 'p, 'c) world \<Rightarrow> bool)
     \<Rightarrow> ('r, 'p, 'c) world \<Rightarrow> bool go \<Rightarrow> ('r, 'p, 'c) world \<Rightarrow> bool"
  for D interf where
  Pass_failed: "claim_for_pass D w = (Err e, w1) \<Longrightarrow> pool_pass D interf w (Err e) w1"
| Pass_panics: "claim_for_pass D w = (Panic, w1) \<Longrightarrow> pool_pass D interf w Panic w1"
| Pass_empty: "claim_for_pass D w = (Ok [], w1) \<Longrightarrow> pool_pass D interf w (Ok False) w1"
| Pass_batch: "claim_for_pass D w = (Ok claimed, w1) \<Longrightarrow> claimed \<noteq> []
    \<Longrightarrow> pool_run (dp_worker D) (poolSize D) claimed interf (w1, pool_start claimed) k (w2, phs) \<Longrightarrow> pool_done phs
    \<Longrightarrow> pool_pass D interf w (Ok (int (length claimed) = batchSize D)) w2"

inductive_cases pool_pass_cases: "pool_pass D interf w res w'"

lemma ClaimAndDispatch_claim: "ClaimAndDispatch D order w =
    (case claim_for_pass D w of
       (Err e, w1) \<Rightarrow> (Err e, w1)
     | (Panic, w1) \<Rightarrow> (Panic, w1)
     | (Ok claimed, w1) \<Rightarrow>
         if claimed = [] then (Ok False, w1)
         else (Ok (int (length claimed) = batchSize D), process_rows (dp_worker D) w1 (order claimed)))"
  by (simp add: ClaimAndDispatch_def claim_for_pass_def Let_def split: prod.split gores.split)

lemma pool_run_finishes:
  assumes "limit \<noteq> 0"
  shows "\<exists>k phs. pool_run W limit reqs interf (w, pool_start reqs) k (process_rows W w reqs, phs) \<and> pool_done phs"
proof -
  from pool_run_rows_upto [OF assms order.refl, where W = W and reqs = reqs and interf = interf and w = w]
  obtain k ress where "pool_run W limit reqs interf (w, pool_start reqs) k (process_rows W w reqs, map Finished ress)"
    by auto
  moreover have "pool_done (map Finished ress)" by (simp add: pool_done_def list_all_iff)
  ultimately show ?thesis by blast
qed

lemma ClaimAndDispatch_pool_pass:
  assumes "poolSize D \<noteq> 0" "ClaimAndDispatch D (\<lambda>xs. xs) w = (res, w')"
  shows "pool_pass D interf w res w'"
proof -
  obtain cres w1 where c: "claim_for_pass D w = (cres, w1)" by fastforce
  show ?thesis
  proof (cases cres)
    case (Ok claimed)
    show ?thesis
    proof (cases "claimed = []")
      case True
      with c Ok assms(2) Pass_empty [of D w w1] show ?thesis by (simp add: ClaimAndDispatch_claim)
    next
      case False
      from pool_run_finishes [OF assms(1)] obtain k phs where "pool_run (dp_worker D) (poolSize D) claimed interf
        (w1, pool_start claimed) k (process_rows (dp_worker D) w1 claimed, phs)" "pool_done phs" by blast
      from Pass_batch [OF c [unfolded Ok] False this] c Ok False assms(2) show ?thesis
        by (simp add: ClaimAndDispatch_claim)
    qed
  qed (use c assms(2) in \<open>auto simp: ClaimAndDispatch_claim intro: pool_pass.intros\<close>)
qed

context dispatcher
begin

lemma claim_for_pass_effect:
  assumes "inv (w_repo w)" "store_ok (abs (w_repo w))" "claim_for_pass D w = (res, w1)"
    and "now = fst (Now (dp_clock D) (w_clock w))" "vis = now - visibilityTimeout D"
  shows "inv (w_repo w1)" "store_ok (abs (w_repo w1))" "evolves (abs (w_repo w)) (abs (w_repo w1))"
    "claim_spec ct (abs (w_repo w)) (batchSize D) now vis res (abs (w_repo w1)) \<or> fault (abs (w_repo w)) res (abs (w_repo w1))"
proof -
  obtain c where t: "Now (dp_clock D) (w_clock w) = (now, c)" using assms(4) by (metis prod.collapse)
  obtain r where c: "ClaimBatch (wk_repo (dp_worker D)) (w_repo w) (batchSize D) now vis = (res, r)"
    and r: "w_repo w1 = r"
    using assms(3,5) t by (auto simp: claim_for_pass_def same_repo go_defs split: prod.splits)
  from repo.claim_keeps [OF assms(1,2) batch_nonneg c] repo.claim_law [OF assms(1,2) batch_nonneg c] r
  show "inv (w_repo w1)" "store_ok (abs (w_repo w1))" "evolves (abs (w_repo w)) (abs (w_repo w1))"
    "claim_spec ct (abs (w_repo w)) (batchSize D) now vis res (abs (w_repo w1)) \<or> fault (abs (w_repo w)) res (abs (w_repo w1))"
    by simp_all
qed

lemma pool_pass_keeps:
  assumes "pool_pass D interf w res w'" "inv (w_repo w)" "store_ok (abs (w_repo w))"
    and "\<And>w w'. interf w w' \<Longrightarrow> rely w w'"
  shows "inv (w_repo w') \<and> store_ok (abs (w_repo w')) \<and> evolves (abs (w_repo w)) (abs (w_repo w')) \<and> res \<noteq> Panic"
  using assms(1)
proof (cases rule: pool_pass.cases)
  case (Pass_batch claimed w1 k phs)
  note e = claim_for_pass_effect [OF assms(2,3) Pass_batch(2) refl refl]
  from e(4) have "claim_spec ct (abs (w_repo w)) (batchSize D) (fst (Now (dp_clock D) (w_clock w)))
      (fst (Now (dp_clock D) (w_clock w)) - visibilityTimeout D) (Ok claimed) (abs (w_repo w1))"
    by (auto simp: fault_def)
  from claim_spec_held(1) [OF this] have "pool_inv claimed (w1, pool_start claimed)"
    by (rule pool_inv_start [OF e(1,2)])
  from pool_run_inv [OF Pass_batch(4) this assms(4)] e(3) evolves_trans Pass_batch(1) show ?thesis
    by (auto simp: pool_inv_def)
next
  case Pass_panics
  from claim_for_pass_effect(4) [OF assms(2,3) Pass_panics(2) refl refl]
  have False by (auto simp: claim_spec_def fault_def)
  then show ?thesis ..
qed (use claim_for_pass_effect [OF assms(2,3) _ refl refl] in auto)

text \<open>Alone on the storage, a pass leaves every row that was not due as it was, reports a full batch exactly
  when that many rows were due, and every row it claimed is closed or still claimed.\<close>

lemma pool_pass_alone:
  assumes "pool_pass D (\<lambda>_ _. False) w res w'" "inv (w_repo w)" "store_ok (abs (w_repo w))"
    and "now = fst (Now (dp_clock D) (w_clock w))"
    and "i \<notin> due (ct now) (ct (now - visibilityTimeout D)) (abs (w_repo w))"
  shows "st_rows (abs (w_repo w')) i = st_rows (abs (w_repo w)) i"
proof -
  define vis where "vis = now - visibilityTimeout D"
  note e = claim_for_pass_effect [OF assms(2,3) _ assms(4) vis_def]
  have rows: "st_rows (abs (w_repo w1)) i = st_rows (abs (w_repo w)) i" if "claim_for_pass D w = (cres, w1)" for cres w1
  proof (cases "fault (abs (w_repo w)) cres (abs (w_repo w1))")
    case True
    then show ?thesis by (simp add: fault_def)
  next
    case False
    with e(4) [OF that] obtain claimed where "cres = Ok claimed"
      and s: "claim_spec ct (abs (w_repo w)) (batchSize D) now vis (Ok claimed) (abs (w_repo w1))"
      by (auto simp: claim_spec_def)
    with claim_spec_held(2,4) [OF s] assms(5) show ?thesis by (auto simp: vis_def)
  qed
  from assms(1) show ?thesis
  proof (cases rule: pool_pass.cases)
    case (Pass_batch claimed w1 k phs)
    from e(4) [OF Pass_batch(2)]
    have s: "claim_spec ct (abs (w_repo w)) (batchSize D) now vis (Ok claimed) (abs (w_repo w1))"
      by (auto simp: fault_def)
    have inv: "pool_inv claimed (w1, pool_start claimed)"
      by (rule pool_inv_start [OF e(1,2) [OF Pass_batch(2)] claim_spec_held(1) [OF s]])
    from pool_run_rows [OF Pass_batch(4) this rows_so_far_start]
    have "i \<notin> ID ` set claimed \<Longrightarrow> st_rows (abs (w_repo w')) i = st_rows (abs (w_repo w1)) i"
      by (simp add: rows_so_far_def)
    moreover have "i \<notin> ID ` set claimed" using claim_spec_held(2) [OF s] assms(5) by (auto simp: vis_def)
    ultimately show ?thesis using rows [OF Pass_batch(2)] by simp
  qed (use rows in simp_all)
qed

end

end
