(* ===== verification/PoolService.thy ===== *)
theory PoolService
  imports Server Pool
begin

text \<open>
  The pool in the wired service: a pass of one replica while other replicas and the HTTP handlers use the
  same database, the end of every schedule, and what the shared fetch does not prevent.
\<close>

section \<open>Others on the database\<close>

text \<open>Meanwhile any number of repository methods may run, with locked rows, failing calls and lost replies
  as \<open>K\<close> decides; clock, limiter and provider may have moved on as well.\<close>

definition others :: "'d::zero pg_env \<Rightarrow> (PgRepo, 'p, 'c) world \<Rightarrow> (PgRepo, 'p, 'c) world \<Rightarrow> bool" where
  "others K w w' \<longleftrightarrow> pg_run K (w_repo w) (w_repo w')"

lemma pg_abs_undisturbed [simp]: "pg_abs (undisturbed K) = pg_abs K"
  by (rule ext) (simp add: pg_abs_def pg_rate_def[abs_def] text_value_def undisturbed_def)

lemma others_rely:
  fixes P :: "('p, 'd::zero) RateProvider_ops" and K :: "'d pg_env" and w :: "(PgRepo, 'p, SystemClock) world"
  assumes "rate_provider P" "others K w w'"
  shows "worker.rely (pg_abs K) pg_inv w w'"
proof -
  note wk = wire_worker_worker [OF assms(1), of K, unfolded pg_abs_undisturbed]
  from assms(2) pg_run_keeps [of K "w_repo w" "w_repo w'"] show ?thesis
    by (simp add: worker.rely_def [OF wk] others_def)
qed

section \<open>Concrete values\<close>

definition sample_pending_world :: "(PgRepo, unit adapter, SystemClock) world" where
  "sample_pending_world = (world_of sample_started)\<lparr>w_repo := pg_pending\<rparr>"

lemma sample_pool_size: "poolSize sample_wired = 16"
  by (simp add: sample_wired_def wire_dispatcher_def NewDispatcher_def sample_config_def)

lemma sample_pool_pass:
  "pool_pass sample_wired interf sample_pending_world
     (fst (ClaimAndDispatch sample_wired (\<lambda>xs. xs) sample_pending_world))
     (snd (ClaimAndDispatch sample_wired (\<lambda>xs. xs) sample_pending_world))"
  by (rule ClaimAndDispatch_pool_pass) (simp_all add: sample_pool_size)

lemma pg_pending_ok: "pg_inv pg_pending" "store_ok (pg_abs sample_pg pg_pending)"
proof -
  have "pg_step sample_pg pg_migrated pg_pending"
    unfolding pg_pending_def by (rule pg_step_create [OF sample_pg_fresh prod.collapse [symmetric]])
  from pg_step_keeps [OF this pg_migrated_ok] show "pg_inv pg_pending" "store_ok (pg_abs sample_pg pg_pending)"
    by simp_all
qed

text \<open>Two claimed rows for one pair, and the run in which the first fetches and the second starts
  between the end of that fetch and the first row's own completion.\<close>

definition sample_twin :: CurrencyRateUpdateRequest where
  "sample_twin = claimed_req\<lparr>ID := 2\<rparr>"

definition sample_twins :: "int MemRepo" where
  "sample_twins = \<lparr>records = [(1, \<lparr>q_req = claimed_req, q_key = ''k'', q_next = 1000, q_locked = 2000,
       q_quoteID = 0\<rparr>), (2, \<lparr>q_req = sample_twin, q_key = '''', q_next = 1000, q_locked = 2000, q_quoteID = 0\<rparr>)],
     idempotencyIndex = [''k'' \<mapsto> 1], quotes = [], nextQuoteID = 0\<rparr>"

definition twin_reqs :: "CurrencyRateUpdateRequest list" where
  "twin_reqs = [claimed_req, sample_twin]"

lemma twin_pairs: "Pair claimed_req = sample_pair" "Pair sample_twin = sample_pair"
  by (simp_all add: sample_twin_def claimed_req_def sample_req_def NewCurrencyRateUpdateRequest_def)

lemma twins_allow:
  "fst (Allow (NewRateLimiter 12 100) 3000) = (True, 0)"
  "fst (Allow (snd (Allow (NewRateLimiter 12 100) 3000)) 3000) = (True, 0)"
  by (simp_all add: NewRateLimiter_def Allow_eq_spec Allow_spec_def window_def Let_def)

lemma twins_fetch:
  "\<exists>rate p. fetch (sample_worker 10) (sample_world sample_twins) sample_pair
     = (Ok (rate, 0), (sample_world sample_twins)\<lparr>w_prov := p, w_limiter := snd (Allow (NewRateLimiter 12 100) 3000)\<rparr>)
   \<and> 3000 < StaleAfter rate"
proof -
  obtain f where f: "fake_GetCurrencyRate fake_clock sample_decimal sample_fake sample_pair
      = (Ok \<lparr>pq_Value = 19, pq_Derived = False, pq_Quality = ''live'', pq_QuotedAt = 3000\<rparr>, f)"
    using sample_fetch by (metis prod.collapse)
  obtain l where l: "Allow (NewRateLimiter 12 100) 3000 = ((True, 0), l)" using twins_allow(1) by (metis prod.collapse)
  show ?thesis
    by (simp add: fetch_def fetch_fresh_def sample_worker_def NewWorker_def sample_world_def mem_ops_def
        mem_GetLatestQuote_def read_clock_def fake_clock_def FakeClock_Now_def NewFakeClock_def
        fake_provider_def f [unfolded fake_clock_def] l NewCurrencyRate_def go_defs maxQuotedAtSkew_def
        Minute_def Second_def sample_twins_def fake_StaleAfter_def Let_def)
qed

text \<open>The second row is about to call the provider although the first has just fetched a fresh rate: the
  shared fetch is over, and the rate is not in the journal until the first row's completion.\<close>

theorem shared_fetch_leaves_gap:
  "\<exists>k rate w. pool_run (sample_worker 10) 2 twin_reqs (\<lambda>_ _. False) (sample_world sample_twins, pool_start twin_reqs) k
      (w, [Resolved_as (Ok (rate, 0)), At_provider])
    \<and> map Pair twin_reqs = [sample_pair, sample_pair] \<and> fst (Now fake_clock (w_clock w)) < StaleAfter rate"
proof -
  let ?W = "sample_worker 10" and ?w = "sample_world sample_twins"
  obtain rate p where f: "fetch ?W ?w sample_pair = (Ok (rate, 0), ?w\<lparr>w_prov := p,
      w_limiter := snd (Allow (NewRateLimiter 12 100) 3000)\<rparr>)" and fresh: "3000 < StaleAfter rate"
    using twins_fetch by blast
  let ?w1 = "?w\<lparr>w_prov := p, w_limiter := snd (Allow (NewRateLimiter 12 100) 3000)\<rparr>"
  have start: "pool_start twin_reqs = [Queued, Queued]" by (simp add: pool_start_def twin_reqs_def)
  have pairs: "Pair (twin_reqs ! 0) = sample_pair" "Pair (twin_reqs ! 1) = sample_pair"
    by (simp_all add: twin_reqs_def twin_pairs)
  let ?run = "pool_run ?W 2 twin_reqs (\<lambda>_ _. False)" and ?step = "pool_step ?W 2 twin_reqs"
  have s1: "?step (?w, [Queued, Queued]) (?w, [Called, Queued])" by (rule Pool_go [of 0 "[Queued, Queued]", simplified]) simp
  have s2: "?step (?w, [Called, Queued]) (?w, [Called, Called])" by (rule Pool_go [of 1 "[Called, Queued]", simplified]) simp
  have s3: "?step (?w, [Called, Called]) (?w, [At_latest, Called])"
    by (rule Pool_lead [of 0 "[Called, Called]", simplified]) (simp add: in_flight_def twin_reqs_def)
  have "call_seq ?W (twin_reqs ! 0) (At_latest, ?w) (At_return (Ok (rate, 0)), ?w1)"
    using call_seq_fetch [of ?W "twin_reqs ! 0" ?w] f by (simp add: pairs)
  from pool_run_call_seq [OF this, of "[At_latest, Called]"] obtain k
    where r1: "?run (?w, [At_latest, Called]) k (?w1, [At_return (Ok (rate, 0)), Called])" by auto
  have s4: "?step (?w1, [At_return (Ok (rate, 0)), Called]) (?w1, [Resolved_as (Ok (rate, 0)), Called])"
    using Pool_return [where i = 0 and phs = "[At_return (Ok (rate, 0)), Called]" and W = ?W and limit = 2
        and reqs = twin_reqs and w = ?w1] by (simp add: deliver_def twin_reqs_def)
  have s5: "?step (?w1, [Resolved_as (Ok (rate, 0)), Called]) (?w1, [Resolved_as (Ok (rate, 0)), At_latest])"
    by (rule Pool_lead [of 1 "[Resolved_as (Ok (rate, 0)), Called]", simplified])
      (simp add: in_flight_def twin_reqs_def)
  obtain l where l: "Allow (snd (Allow (NewRateLimiter 12 100) 3000)) 3000 = ((True, 0), l)"
    using twins_allow(2) by (metis prod.collapse)
  have t: "task_step ?W ?w1 (twin_reqs ! 1) At_latest = (At_budget, ?w1)"
    "task_step ?W ?w1 (twin_reqs ! 1) At_budget = (At_allow 3000, ?w1)"
    "task_step ?W ?w1 (twin_reqs ! 1) (At_allow 3000) = (At_provider, ?w1\<lparr>w_limiter := l\<rparr>)"
    using l by (simp_all add: sample_worker_def NewWorker_def sample_world_def mem_ops_def mem_GetLatestQuote_def
        sample_twins_def read_clock_def fake_clock_def FakeClock_Now_def NewFakeClock_def Let_def)
  have "call_seq ?W (twin_reqs ! 1) (At_latest, ?w1) (At_provider, ?w1\<lparr>w_limiter := l\<rparr>)"
    by (rule call_seq_step [OF _ t(1) call_seq_step [OF _ t(2) call_seq_step [OF _ t(3) call_seq_refl]]])
      simp_all
  from pool_run_call_seq [OF this, of "[Resolved_as (Ok (rate, 0)), At_latest]"] obtain m
    where r2: "?run (?w1, [Resolved_as (Ok (rate, 0)), At_latest]) m
      (?w1\<lparr>w_limiter := l\<rparr>, [Resolved_as (Ok (rate, 0)), At_provider])" by auto
  have "fst (Now fake_clock (w_clock (?w1\<lparr>w_limiter := l\<rparr>))) = 3000"
    by (simp add: sample_world_def fake_clock_def FakeClock_Now_def NewFakeClock_def)
  with fresh have now: "fst (Now fake_clock (w_clock (?w1\<lparr>w_limiter := l\<rparr>))) < StaleAfter rate" by simp
  have both: "map Pair twin_reqs = [sample_pair, sample_pair]" by (simp add: twin_reqs_def twin_pairs)
  note run = pool_run_step [OF s1 pool_run_step [OF s2 pool_run_step [OF s3
      pool_run_trans [OF pool_run_step [OF s4 pool_run_step [OF s5 r2]] r1]]]]
  show ?thesis unfolding start by (rule exI, rule exI, rule exI, rule conjI [OF run conjI [OF both now]])
qed

section \<open>Properties\<close>

text \<open>C11. A pass of the dispatcher as \<open>run\<close> wires it, its pool working with any interleaving of the calls
  of its rows, while other replicas and the HTTP handlers run any repository methods on the same database:
  the pass does not panic, the tables stay well formed, and every row, key and journal entry has only
  evolved as the repository promises. The calls of the others may suffer anything, those of the pass may fail, but no
  reply of theirs is lost and its claim skips no locked row (\<open>undisturbed\<close>).\<close>

theorem pool_pass_sound:
  assumes "Load U args (os_getenv S) = Ok cfg" "newRateProvider S cfg = Ok (P, p)"
    and "pool_pass (wire_dispatcher (undisturbed K) P Sign F cvt cfg) (others K) w res w'"
    and "pg_inv (w_repo w)" "store_ok (pg_abs K (w_repo w))"
  shows "res \<noteq> Panic \<and> pg_inv (w_repo w') \<and> store_ok (pg_abs K (w_repo w'))
    \<and> evolves (pg_abs K (w_repo w)) (pg_abs K (w_repo w'))"
proof -
  note P = newRateProvider_provider [OF assms(2)]
  note disp = wire_dispatcher_dispatcher [OF P Load_provider(2) [OF assms(1)], of K Sign F cvt, unfolded pg_abs_undisturbed]
  from dispatcher.pool_pass_keeps [OF disp assms(3-5) others_rely [OF P]] show ?thesis by blast
qed

theorem pool_pass_sound_witness:
  "store_ok (pg_abs sample_pg (w_repo (snd (ClaimAndDispatch sample_wired (\<lambda>xs. xs) sample_pending_world))))"
proof -
  have "newRateProvider sample_outside sample_config = Ok (fst sample_adapter, snd sample_adapter)"
    by (simp add: sample_newRateProvider)
  moreover have "Load config_unicode sample_args (os_getenv sample_outside) = Ok sample_config"
    using sample_args_Load by (simp add: sample_outside_def)
  moreover have "w_repo sample_pending_world = pg_pending" by (simp add: sample_pending_world_def)
  ultimately show ?thesis
    using pool_pass_sound [where U = config_unicode and args = sample_args and S = sample_outside
        and cfg = sample_config and P = "fst sample_adapter" and p = "snd sample_adapter" and K = sample_pg
        and Sign = sgn and F = sample_fmt and cvt = 0 and w = sample_pending_world,
        folded sample_wired_def] sample_pool_pass pg_pending_ok by metis
qed

text \<open>C12. Every schedule of a pool ends: at most twelve calls per row of the batch, whatever the
  repository, the provider and the clock do and whatever others do meanwhile; and until every row is done some
  call can be made, so no schedule is stuck, in particular no row waits for a shared fetch that will not return.\<close>

theorem pool_terminates:
  assumes "pool_run W limit reqs interf (w, pool_start reqs) k (w', phs)" "limit \<noteq> 0"
  shows "k \<le> 12 * length reqs \<and> (pool_done phs \<or> (\<exists>c. pool_step W limit reqs (w', phs) c))"
proof -
  have start: "pool_ok reqs (pool_start reqs)" by (rule pool_ok_start)
  have "sum_list (map calls_left (pool_start reqs)) = 12 * length reqs"
    by (simp add: pool_start_def sum_list_replicate)
  with pool_run_calls_left [OF assms(1)] have "k \<le> 12 * length reqs" by (simp add: pool_start_def)
  moreover have "pool_ok reqs phs" using pool_run_ok [OF assms(1)] start by simp
  ultimately show ?thesis using pool_progress [OF _ assms(2)] by blast
qed

theorem pool_terminates_witness:
  "\<exists>k phs. pool_run (sample_worker 10) 4 twin_reqs (\<lambda>_ _. False)
      (sample_world sample_twins, pool_start twin_reqs) k
      (process_rows (sample_worker 10) (sample_world sample_twins) twin_reqs, phs)
    \<and> k \<le> 24 \<and> pool_done phs"
proof -
  from pool_run_finishes [of 4] obtain k phs where
    r: "pool_run (sample_worker 10) 4 twin_reqs (\<lambda>_ _. False)
      (sample_world sample_twins, pool_start twin_reqs) k
      (process_rows (sample_worker 10) (sample_world sample_twins) twin_reqs, phs)" "pool_done phs"
    by (metis zero_neq_numeral)
  from pool_terminates [OF r(1)] have "k \<le> 24" by (simp add: twin_reqs_def)
  with r show ?thesis by blast
qed

text \<open>The pass that works through its rows one after the other, in the order of the batch, is one of the
  schedules of its pool, whatever the pool size and whatever may happen in between: so what is shown of every
  schedule of the pool holds of that pass.\<close>

theorem sequential_pass_is_a_schedule:
  assumes "ClaimAndDispatch D (\<lambda>xs. xs) w = (res, w')" "poolSize D \<noteq> 0"
  shows "pool_pass D interf w res w'"
  using assms(2,1) by (rule ClaimAndDispatch_pool_pass)

theorem sequential_pass_is_a_schedule_witness:
  "pool_pass sample_wired (others sample_pg) sample_pending_world
     (fst (ClaimAndDispatch sample_wired (\<lambda>xs. xs) sample_pending_world))
     (snd (ClaimAndDispatch sample_wired (\<lambda>xs. xs) sample_pending_world))"
  by (rule sequential_pass_is_a_schedule) (simp_all add: sample_pool_size)

end
