(* ===== verification/Cluster.thy ===== *)
theory Cluster
  imports Attempts PoolService
begin

text \<open>
  Replicas of the service on one database (\<open>docs/design.md\<close>, \<open>config.go\<close>): each runs one dispatcher pass at
  a time, with its pool of workers, under the deadline \<open>DISPATCH_PASS_TIMEOUT\<close>; passes end, fail or are abandoned
  with their replica at any moment. A claim is a lease: while the pass that made it lives, the visibility timeout
  keeps everyone else from the rows it has not closed. So nobody works on a row twice at a time, every worker
  closes a row as it was claimed, and the attempts budget holds for the whole cluster.
\<close>

section \<open>Passes of a cluster\<close>

record 'd current_pass =
  cp_reqs :: "CurrencyRateUpdateRequest list"
  cp_phases :: "'d phase list"
  cp_deadline :: gotime

text \<open>The database, the time, and the replicas: what is private to one, and its pass if one is on its way.\<close>

record ('r, 'p, 'c, 'd) cluster =
  cl_repo :: 'r
  cl_now :: gotime
  cl_replicas :: "(('r, 'p, 'c) world \<times> 'd current_pass option) list"

definition set_replica ::
  "nat \<Rightarrow> 'r \<Rightarrow> ('r, 'p, 'c) world \<times> 'd current_pass option \<Rightarrow> ('r, 'p, 'c, 'd) cluster
     \<Rightarrow> ('r, 'p, 'c, 'd) cluster" where
  "set_replica i r x c = c\<lparr>cl_repo := r, cl_replicas := (cl_replicas c)[i := x]\<rparr>"

definition pass_of :: "('r, 'p, 'c, 'd) cluster \<Rightarrow> nat \<Rightarrow> 'd current_pass option" where
  "pass_of c i = (if i < length (cl_replicas c) then snd (cl_replicas c ! i) else None)"

text \<open>Until its deadline a pass may make calls; after that its context is done.\<close>

definition lives :: "('r, 'p, 'c, 'd) cluster \<Rightarrow> 'd current_pass \<Rightarrow> bool" where
  "lives c ps \<longleftrightarrow> cl_now c \<le> cp_deadline ps"

text \<open>The rows of a pass that no worker of it has reported as closed.\<close>

definition unfinished :: "'d current_pass \<Rightarrow> CurrencyRateUpdateRequest set" where
  "unfinished ps = {cp_reqs ps ! j |j. j < length (cp_reqs ps) \<and> cp_phases ps ! j \<noteq> Finished (Ok ())}"

text \<open>
  One step: time passes; something changes that is private to a replica (its clock, its provider, its limiter);
  an idle replica claims a batch at the present time, or fails to; a pool makes a call while its pass lives; a
  pass ends or is abandoned; a client's request is stored, or a repository is read.
\<close>

inductive cluster_step ::
  "('r, 'p, 'c, 'd) Dispatcher \<Rightarrow> ('r \<Rightarrow> 'd store)
     \<Rightarrow> ('r, 'p, 'c, 'd) cluster \<Rightarrow> ('r, 'p, 'c, 'd) cluster \<Rightarrow> bool"
  for D abs where
  Cl_tick: "cl_now c \<le> now \<Longrightarrow> cluster_step D abs c (c\<lparr>cl_now := now\<rparr>)"
| Cl_private: "i < length (cl_replicas c) \<Longrightarrow> cl_replicas c ! i = (w, x)
    \<Longrightarrow> cluster_step D abs c (set_replica i (cl_repo c) (w', x) c)"
| Cl_claim: "i < length (cl_replicas c) \<Longrightarrow> cl_replicas c ! i = (w, None)
    \<Longrightarrow> fst (Now (dp_clock D) (w_clock w)) = cl_now c
    \<Longrightarrow> claim_for_pass D (w\<lparr>w_repo := cl_repo c\<rparr>) = (res, w')
    \<Longrightarrow> x = (case res of Ok claimed \<Rightarrow> Some \<lparr>cp_reqs = claimed, cp_phases = pool_start claimed,
                                               cp_deadline = cl_now c + passTimeout D\<rparr>
           | _ \<Rightarrow> None)
    \<Longrightarrow> cluster_step D abs c (set_replica i (w_repo w') (w', x) c)"
| Cl_work: "i < length (cl_replicas c) \<Longrightarrow> cl_replicas c ! i = (w, Some ps) \<Longrightarrow> lives c ps
    \<Longrightarrow> pool_step (dp_worker D) (poolSize D) (cp_reqs ps) (w\<lparr>w_repo := cl_repo c\<rparr>, cp_phases ps) (w', phs)
    \<Longrightarrow> cluster_step D abs c
          (set_replica i (w_repo w') (w', Some (ps\<lparr>cp_phases := phs\<rparr>)) c)"
| Cl_end: "i < length (cl_replicas c) \<Longrightarrow> cl_replicas c ! i = (w, x)
    \<Longrightarrow> cluster_step D abs c (set_replica i (cl_repo c) (w', None) c)"
| Cl_request: "fresh_request (abs (cl_repo c)) req
    \<Longrightarrow> CreateUpdateRequest (dp_repo D) (cl_repo c) req key = (res', r)
    \<Longrightarrow> cluster_step D abs c (c\<lparr>cl_repo := r\<rparr>)"
| Cl_by_key: "GetByIdempotencyKey (dp_repo D) (cl_repo c) key = (rk, r)
    \<Longrightarrow> cluster_step D abs c (c\<lparr>cl_repo := r\<rparr>)"
| Cl_by_id: "GetUpdateByID (dp_repo D) (cl_repo c) u = (ri, r)
    \<Longrightarrow> cluster_step D abs c (c\<lparr>cl_repo := r\<rparr>)"
| Cl_latest: "pair_ok p \<Longrightarrow> GetLatestQuote (dp_repo D) (cl_repo c) p = (rl, r)
    \<Longrightarrow> cluster_step D abs c (c\<lparr>cl_repo := r\<rparr>)"

inductive cluster_run ::
  "('r, 'p, 'c, 'd) Dispatcher \<Rightarrow> ('r \<Rightarrow> 'd store)
     \<Rightarrow> ('r, 'p, 'c, 'd) cluster \<Rightarrow> ('r, 'p, 'c, 'd) cluster \<Rightarrow> bool"
  for D abs where
  Cl_refl: "cluster_run D abs c c"
| Cl_step: "cluster_run D abs c c' \<Longrightarrow> cluster_step D abs c' c''
    \<Longrightarrow> cluster_run D abs c c''"

inductive_cases cluster_step_cases: "cluster_step D A c c'"

lemma pass_of_set_replica [simp]:
  "i < length (cl_replicas c) \<Longrightarrow> pass_of (set_replica i r x c) = (pass_of c)(i := snd x)"
  by (rule ext) (simp add: pass_of_def set_replica_def)

lemma set_replica_sel [simp]:
  "cl_repo (set_replica i r x c) = r" "cl_now (set_replica i r x c) = cl_now c"
  by (simp_all add: set_replica_def)

lemma pass_of_update [simp]:
  "pass_of (c\<lparr>cl_repo := r\<rparr>) = pass_of c" "pass_of (c\<lparr>cl_now := t\<rparr>) = pass_of c"
  by (rule ext, simp add: pass_of_def)+

lemma pass_of_nth: "i < length (cl_replicas c) \<Longrightarrow> cl_replicas c ! i = (w, x) \<Longrightarrow> pass_of c i = x"
  by (simp add: pass_of_def)

section \<open>What a call of a pool changes\<close>

lemma pool_step_finished:
  assumes "pool_step W limit reqs (w, phs) (w', phs')" "length phs = length reqs" "j < length reqs"
    and "phs ! j = Finished res"
  shows "phs' ! j = Finished res"
  using assms by (cases rule: pool_step.cases) (auto simp: nth_list_update deliver_nth)

context worker
begin

text \<open>The call that closes a row, by a worker that holds a true copy of it.\<close>

lemma close_works:
  assumes "inv (w_repo w)" "store_ok (abs (w_repo w))" "held (abs (w_repo w)) req" "counted (abs (w_repo w)) req"
    and "outcome_ok (wk_Sign W) (abs (w_repo w)) (Pair req) res"
    and "task_step W w req (At_close res now) = (Finished (Ok ()), w')"
  shows "\<exists>q q'. st_rows (abs (w_repo w)) (ID req) = Some q
    \<and> st_rows (abs (w_repo w')) = (st_rows (abs (w_repo w)))(ID req \<mapsto> q') \<and> works (maxAttempts W) q q'"
proof -
  from close_effect [OF assms(1-3,5,6)]
  obtain q q' where q: "st_rows (abs (w_repo w)) (ID req) = Some q" "Status (q_req q) = StatusInProgress"
      "st_rows (abs (w_repo w')) = (st_rows (abs (w_repo w)))(ID req \<mapsto> q')"
      "resolved (abs (w_repo w)) (abs (w_repo w')) (Pair req) q q'"
    by (auto simp: step_effect_def process_spec_def)
  have pair: "pair_ok (Pair req)" using held_pair_ok assms(2,3) .
  have n: "Attempts (q_req q') = Attempts (q_req q)" "Attempts (q_req q) = Attempts req"
    "Status (q_req q') \<in> {StatusSucceeded, StatusFailed, StatusPending}"
    using q(1,4) assms(4) by (auto simp: resolved_def succeeded_row_def failed_row_def counted_def)
  have "Attempts req < maxAttempts W" if p: "Status (q_req q') = StatusPending"
  proof (rule ccontr)
    assume "\<not> Attempts req < maxAttempts W"
    then have b: "maxAttempts W \<le> Attempts req" by simp
    have "\<exists>x. st_rows (abs (w_repo w')) (ID req) = Some x \<and> Status (q_req x) \<noteq> StatusPending"
    proof (cases res)
      case (Err e)
      with assms(6) have "fail W w req e now = (Ok (), w')" by (auto split: prod.splits)
      from fail_exhausted [OF assms(1,2) this b] show ?thesis by fastforce
    next
      case (Ok rq)
      then obtain rate k where rq: "res = Ok (rate, k)" by (cases rq) auto
      show ?thesis
      proof (cases "k = 0")
        case True
        with assms(6) rq have "CompleteSuccess (wk_repo W) (w_repo w) (ID req) (Pair req) rate now = (Ok (), w_repo w')"
          by (auto split: prod.splits)
        from success_closes [OF assms(1,2) pair this] show ?thesis by fastforce
      next
        case False
        with assms(6) rq have "CompleteSuccessReuse (wk_repo W) (w_repo w) (ID req) k now = (Ok (), w_repo w')"
          by (auto split: prod.splits)
        moreover have "st_quotes (abs (w_repo w)) k \<noteq> None" using assms(5) rq False by simp
        ultimately show ?thesis using reuse_closes [OF assms(1,2)] by fastforce
      qed
    qed (use assms(6) in auto)
    with q(3) p show False by auto
  qed
  with n q(2) have "works (maxAttempts W) q q'" by (auto simp: works_def)
  with q(1,3) show ?thesis by blast
qed

text \<open>A step of a pool leaves all rows alone, or closes one.\<close>

lemma pool_step_works:
  assumes "pool_step W limit reqs (w, phs) (w', phs')" "pool_inv reqs (w, phs)"
    and "\<And>j. j < length reqs \<Longrightarrow> phs ! j \<noteq> Finished (Ok ()) \<Longrightarrow> counted (abs (w_repo w)) (reqs ! j)"
  shows "st_rows (abs (w_repo w')) = st_rows (abs (w_repo w))
    \<or> (\<exists>j q q'. j < length reqs \<and> phs ! j \<noteq> Finished (Ok ()) \<and> phs' ! j = Finished (Ok ())
        \<and> st_rows (abs (w_repo w)) (ID (reqs ! j)) = Some q
        \<and> st_rows (abs (w_repo w')) = (st_rows (abs (w_repo w)))(ID (reqs ! j) \<mapsto> q')
        \<and> works (maxAttempts W) q q')"
  using assms(1)
proof (cases rule: pool_step.cases)
  case (Pool_call i ph)
  from assms(2) Pool_call(2) have i: "inv (w_repo w)" "store_ok (abs (w_repo w))"
    "held (abs (w_repo w)) (reqs ! i)" "phase_ok (wk_Sign W) (abs (w_repo w)) (Pair (reqs ! i)) (phs ! i)"
    and len: "length phs = length reqs"
    by (simp_all add: pool_inv_def batch_held_def)
  note e = task_step_effect [OF i Pool_call(3,4), unfolded step_effect_def]
  show ?thesis
  proof (cases "ph = Finished (Ok ())")
    case False
    have "\<not> is_ok x" if "ph = Finished x" for x using False that by (cases x) auto
    with e have "abs (w_repo w') = abs (w_repo w)" by (cases ph) (auto simp: process_spec_def)
    then show ?thesis by simp
  next
    case True
    have open_row: "phs ! i \<noteq> Finished (Ok ())" using Pool_call(3) by auto
    obtain res now where cl: "phs ! i = At_close res now"
      using Pool_call(3,4) True
      by (cases "phs ! i") (auto simp: Let_def split: prod.splits gores.splits option.splits if_splits)
    have "counted (abs (w_repo w)) (reqs ! i)" using assms(3) Pool_call(2) open_row len by simp
    from close_works [OF i(1-3) this] i(4) Pool_call(4) True cl
    show ?thesis using Pool_call(1,2) open_row len by fastforce
  qed
qed auto

end

section \<open>Leases\<close>

text \<open>A row as it was claimed at \<open>t\<close> or later: in progress, with the contents the worker was given.\<close>

definition as_claimed :: "'d store \<Rightarrow> gotime \<Rightarrow> CurrencyRateUpdateRequest \<Rightarrow> bool" where
  "as_claimed S t req \<longleftrightarrow> (\<exists>q. st_rows S (ID req) = Some q \<and> Status (q_req q) = StatusInProgress
     \<and> req\<lparr>Reused := Reused (q_req q)\<rparr> = q_req q \<and> t \<le> q_locked q)"

lemma as_claimed_counted: "as_claimed S t req \<Longrightarrow> counted S req"
  by (auto simp: as_claimed_def counted_def dest!: arg_cong [where f = Attempts])

lemma as_claimed_row:
  "as_claimed S t req \<Longrightarrow> st_rows S' (ID req) = st_rows S (ID req) \<Longrightarrow> as_claimed S' t req"
  by (simp add: as_claimed_def)

lemma as_claimed_not_due: "as_claimed S t req \<Longrightarrow> vis \<le> t \<Longrightarrow> ID req \<notin> due now vis S"
  by (auto simp: as_claimed_def due_def claimable_def)

lemma claim_spec_as_claimed:
  assumes "claim_spec ct S limit now vis (Ok claimed) S'" "req \<in> set claimed"
  shows "as_claimed S' (ct now) req"
proof -
  from assms obtain q where q: "st_rows S' (ID req) = Some q" "req\<lparr>Reused := Reused (q_req q)\<rparr> = q_req q"
    unfolding claim_spec_def Let_def by blast
  from claim_spec_held(4) [OF assms(1)] assms(2) q(1)
  obtain q0 where "q = claimed_row (ct now) q0" by (auto split: if_splits)
  then have "Status (q_req q) = StatusInProgress" "q_locked q = ct now" by (simp_all add: claimed_row_def)
  with q show ?thesis by (simp add: as_claimed_def)
qed

text \<open>What a step may do to a row: nothing; add it as a client's request; claim it; let a worker close or defer it.\<close>

definition row_move :: "int \<Rightarrow> queue_row option \<Rightarrow> queue_row option \<Rightarrow> bool" where
  "row_move m x x' \<longleftrightarrow> x' = x
     \<or> (x = None \<and> (\<exists>q. x' = Some q \<and> Status (q_req q) = StatusPending \<and> Attempts (q_req q) = 0))
     \<or> (\<exists>q q'. x = Some q \<and> x' = Some q' \<and> ((\<exists>now vis t. claimable now vis q \<and> q' = claimed_row t q) \<or> works m q q'))"

definition row_moves :: "int \<Rightarrow> 'd store \<Rightarrow> 'd store \<Rightarrow> bool" where
  "row_moves m S S' \<longleftrightarrow> (\<forall>k. row_move m (st_rows S k) (st_rows S' k))"

lemma row_move_refl [simp]: "row_move m x x"
  by (simp add: row_move_def)

lemma row_moves_same: "st_rows S' = st_rows S \<Longrightarrow> row_moves m S S'"
  by (simp add: row_moves_def)

lemma row_move_claimed: "claimable now vis q \<Longrightarrow> row_move m (Some q) (Some (claimed_row t q))"
  unfolding row_move_def by blast

lemma works_mono: "works n q q' \<Longrightarrow> n \<le> m \<Longrightarrow> works m q q'"
  by (auto simp: works_def)

lemma claimed_spends: "claimable now vis q \<Longrightarrow> spends m q (claimed_row t q)"
  by (rule claimed_works_spends [where k = m and now = t]) (simp_all add: works_def)

lemma row_move_works: "works n q q' \<Longrightarrow> n \<le> m \<Longrightarrow> row_move m (Some q) (Some q')"
  using works_mono unfolding row_move_def by blast

lemma row_moves_spending:
  assumes "row_moves m S S'" "0 < m"
  shows "spending m S S'"
  unfolding spending_def
proof (intro allI impI)
  fix k q' assume q': "st_rows S' k = Some q'"
  from assms(1) have "row_move m (st_rows S k) (Some q')" unfolding row_moves_def q' [symmetric] by blast
  then show "case st_rows S k of None \<Rightarrow> row_within m q' | Some q \<Rightarrow> spends m q q'"
    using assms(2) claimed_spends works_spends [OF _ order.refl, of m]
    by (cases "st_rows S k") (auto simp: row_move_def row_within_def)
qed

context dispatcher
begin

definition pass_ok :: "'d store \<Rightarrow> 'd current_pass \<Rightarrow> bool" where
  "pass_ok S ps \<longleftrightarrow> batch_held S (cp_reqs ps) \<and> length (cp_phases ps) = length (cp_reqs ps)
     \<and> (\<forall>j < length (cp_reqs ps). phase_ok (wk_Sign (dp_worker D)) S (Pair (cp_reqs ps ! j)) (cp_phases ps ! j))"

lemma pool_inv_pass:
  "pool_inv (cp_reqs ps) (w, cp_phases ps) \<longleftrightarrow> inv (w_repo w) \<and> store_ok (abs (w_repo w)) \<and> pass_ok (abs (w_repo w)) ps"
  by (simp add: pool_inv_def pass_ok_def)

lemma pass_ok_evolves: "pass_ok S ps \<Longrightarrow> evolves S S' \<Longrightarrow> pass_ok S' ps"
  using held_evolves phase_ok_mono by (simp add: pass_ok_def batch_held_def) blast

text \<open>The invariant: every pass is in order; what a living pass has not closed is as it claimed it, and no two
  living passes have an open row in common.\<close>

definition cluster_inv :: "('r, 'p, 'c, 'd) cluster \<Rightarrow> bool" where
  "cluster_inv c \<longleftrightarrow> inv (cl_repo c) \<and> store_ok (abs (cl_repo c))
     \<and> (\<forall>i ps. pass_of c i = Some ps \<longrightarrow> pass_ok (abs (cl_repo c)) ps)
     \<and> (\<forall>i ps. pass_of c i = Some ps \<longrightarrow> lives c ps
          \<longrightarrow> (\<forall>req \<in> unfinished ps. as_claimed (abs (cl_repo c)) (ct (cp_deadline ps - passTimeout D)) req))
     \<and> (\<forall>i j ps ps'. pass_of c i = Some ps \<longrightarrow> pass_of c j = Some ps' \<longrightarrow> i \<noteq> j \<longrightarrow> lives c ps \<longrightarrow> lives c ps'
          \<longrightarrow> ID ` unfinished ps \<inter> ID ` unfinished ps' = {})"

text \<open>It survives a step that leaves the open rows of the other living passes alone, and whose own pass, if it
  has one, is in order again after it and has taken no open row of another.\<close>

lemma cluster_invI:
  assumes "cluster_inv c" "evolves (abs (cl_repo c)) (abs (cl_repo c'))" "cl_now c \<le> cl_now c'"
    and "inv (cl_repo c')" "store_ok (abs (cl_repo c'))"
    and passes: "\<And>j ps. j \<noteq> i \<Longrightarrow> pass_of c' j = Some ps \<Longrightarrow> pass_of c j = Some ps"
    and rows: "\<And>j ps req. j \<noteq> i \<Longrightarrow> pass_of c j = Some ps \<Longrightarrow> lives c' ps \<Longrightarrow> req \<in> unfinished ps
        \<Longrightarrow> st_rows (abs (cl_repo c')) (ID req) = st_rows (abs (cl_repo c)) (ID req)"
    and own: "\<And>ps. pass_of c' i = Some ps \<Longrightarrow> pass_ok (abs (cl_repo c')) ps"
      "\<And>ps req. pass_of c' i = Some ps \<Longrightarrow> lives c' ps \<Longrightarrow> req \<in> unfinished ps
        \<Longrightarrow> as_claimed (abs (cl_repo c')) (ct (cp_deadline ps - passTimeout D)) req"
      "\<And>j ps ps'. pass_of c' i = Some ps \<Longrightarrow> lives c' ps \<Longrightarrow> j \<noteq> i \<Longrightarrow> pass_of c j = Some ps' \<Longrightarrow> lives c' ps'
        \<Longrightarrow> ID ` unfinished ps \<inter> ID ` unfinished ps' = {}"
  shows "cluster_inv c'"
proof -
  have alive: "lives c ps" if "lives c' ps" for ps :: "'d current_pass" using that assms(3) by (simp add: lives_def)
  have "pass_ok (abs (cl_repo c')) ps" if p: "pass_of c' j = Some ps" for j ps
  proof (cases "j = i")
    case False
    with passes p have "pass_of c j = Some ps" by blast
    with assms(1) have "pass_ok (abs (cl_repo c)) ps" by (simp add: cluster_inv_def)
    then show ?thesis using assms(2) by (rule pass_ok_evolves)
  qed (use own(1) p in simp)
  moreover have "as_claimed (abs (cl_repo c')) (ct (cp_deadline ps - passTimeout D)) req"
    if "pass_of c' j = Some ps" "lives c' ps" "req \<in> unfinished ps" for j ps req
  proof (cases "j = i")
    case False
    with passes that(1) have p: "pass_of c j = Some ps" by blast
    with assms(1) that(2,3) alive have "as_claimed (abs (cl_repo c)) (ct (cp_deadline ps - passTimeout D)) req"
      unfolding cluster_inv_def by blast
    then show ?thesis using rows [OF False p that(2,3)] by (rule as_claimed_row)
  qed (use own(2) that in blast)
  moreover have "ID ` unfinished ps \<inter> ID ` unfinished ps' = {}"
    if p: "pass_of c' j = Some ps" "pass_of c' k = Some ps'" and jk: "j \<noteq> k" and l: "lives c' ps" "lives c' ps'"
    for j k ps ps'
  proof -
    consider "j = i" | "k = i" | "j \<noteq> i" "k \<noteq> i" by blast
    then show ?thesis
    proof cases
      case 1
      then show ?thesis using own(3) [of ps k ps'] p l passes [of k ps'] jk by simp
    next
      case 2
      then have "ID ` unfinished ps' \<inter> ID ` unfinished ps = {}"
        using own(3) [of ps' j ps] p l passes [of j ps] jk by simp
      then show ?thesis by blast
    next
      case 3
      with passes p have q: "pass_of c j = Some ps" "pass_of c k = Some ps'" by simp_all
      from assms(1) have "\<forall>i j ps ps'. pass_of c i = Some ps \<longrightarrow> pass_of c j = Some ps' \<longrightarrow> i \<noteq> j \<longrightarrow> lives c ps
          \<longrightarrow> lives c ps' \<longrightarrow> ID ` unfinished ps \<inter> ID ` unfinished ps' = {}"
        unfolding cluster_inv_def by (elim conjE)
      with q jk alive l show ?thesis by simp
    qed
  qed
  ultimately show ?thesis using assms(4,5) unfolding cluster_inv_def by simp
qed

lemma pass_of_beyond: "pass_of c (length (cl_replicas c)) = None"
  by (simp add: pass_of_def)

lemma cluster_inv_same:
  assumes "cluster_inv c" "evolves (abs (cl_repo c)) (abs (cl_repo c'))" "cl_now c \<le> cl_now c'"
    and "inv (cl_repo c')" "store_ok (abs (cl_repo c'))"
    and "\<And>j ps. pass_of c' j = Some ps \<Longrightarrow> pass_of c j = Some ps"
    and "\<And>k. st_rows (abs (cl_repo c)) k \<noteq> None \<Longrightarrow> st_rows (abs (cl_repo c')) k = st_rows (abs (cl_repo c)) k"
  shows "cluster_inv c'"
proof (rule cluster_invI [OF assms(1-5), where i = "length (cl_replicas c')"])
  fix j ps req
  assume p: "pass_of c j = Some ps" "lives c' ps" "req \<in> unfinished ps"
  then have "lives c ps" using assms(3) by (simp add: lives_def)
  with p assms(1) have "as_claimed (abs (cl_repo c)) (ct (cp_deadline ps - passTimeout D)) req"
    unfolding cluster_inv_def by blast
  then show "st_rows (abs (cl_repo c')) (ID req) = st_rows (abs (cl_repo c)) (ID req)"
    by (intro assms(7)) (auto simp: as_claimed_def)
qed (use assms(6) in \<open>simp_all add: pass_of_beyond\<close>)

text \<open>A claim at the present time takes no open row of a living pass: its lease still runs.\<close>

lemma leased_not_due:
  assumes "cluster_inv c" "pass_of c j = Some ps" "lives c ps" "req \<in> unfinished ps"
    and "passTimeout D \<le> vis" "\<And>x y. x \<le> y \<Longrightarrow> ct x \<le> ct y"
  shows "ID req \<notin> due (ct (cl_now c)) (ct (cl_now c - vis)) (abs (cl_repo c))"
proof -
  have "as_claimed (abs (cl_repo c)) (ct (cp_deadline ps - passTimeout D)) req"
    using assms(1-4) unfolding cluster_inv_def by blast
  moreover have "ct (cl_now c - vis) \<le> ct (cp_deadline ps - passTimeout D)"
    using assms(3,5) by (intro assms(6)) (simp add: lives_def)
  ultimately show ?thesis by (rule as_claimed_not_due)
qed

lemma unfinished_start: "unfinished \<lparr>cp_reqs = reqs, cp_phases = pool_start reqs, cp_deadline = t\<rparr> = set reqs"
  by (simp add: unfinished_def pool_start_def set_conv_nth cong: conj_cong)

lemma pass_ok_start:
  assumes "inv r" "store_ok (abs r)" "batch_held (abs r) reqs"
  shows "pass_ok (abs r) \<lparr>cp_reqs = reqs, cp_phases = pool_start reqs, cp_deadline = t\<rparr>"
  using assms(3) by (simp add: pass_ok_def pool_start_def)

lemma cluster_claim:
  assumes c: "cluster_inv c" and i: "i < length (cl_replicas c)" "cl_replicas c ! i = (w, None)"
    and now: "fst (Now (dp_clock D) (w_clock w)) = cl_now c"
    and claim: "claim_for_pass D (w\<lparr>w_repo := cl_repo c\<rparr>) = (res, w')"
    and x: "x = (case res of Ok claimed \<Rightarrow> Some \<lparr>cp_reqs = claimed, cp_phases = pool_start claimed,
        cp_deadline = cl_now c + passTimeout D\<rparr> | _ \<Rightarrow> None)"
    and ct: "passTimeout D \<le> visibilityTimeout D" "\<And>x y. x \<le> y \<Longrightarrow> ct x \<le> ct y"
  shows "cluster_inv (set_replica i (w_repo w') (w', x) c)"
    and "row_moves m (abs (cl_repo c)) (abs (w_repo w'))"
proof -
  let ?c' = "set_replica i (w_repo w') (w', x) c" and ?S = "abs (cl_repo c)" and ?S' = "abs (w_repo w')"
  have start: "inv (cl_repo c)" "store_ok ?S" using c by (simp_all add: cluster_inv_def)
  note e = claim_for_pass_effect [of "w\<lparr>w_repo := cl_repo c\<rparr>", simplified, OF start claim now [symmetric] refl]
  have none: "pass_of c i = None" using i by (rule pass_of_nth)
  have "cluster_inv ?c' \<and> row_moves m ?S ?S'"
  proof (cases "fault ?S res ?S'")
    case True
    then obtain err where "res = Err err" "?S' = ?S" by (auto simp: fault_def)
    moreover have "cluster_inv ?c'"
      by (rule cluster_inv_same [OF c]) (use e x i none calculation in \<open>auto split: if_splits\<close>)
    ultimately show ?thesis by (simp add: row_moves_same)
  next
    case False
    with e(4) obtain claimed where ok: "res = Ok claimed"
      and spec: "claim_spec ct ?S (batchSize D) (cl_now c) (cl_now c - visibilityTimeout D) (Ok claimed) ?S'"
      by (auto simp: claim_spec_def)
    let ?due = "due (ct (cl_now c)) (ct (cl_now c - visibilityTimeout D)) ?S"
    note cl = claim_spec_held [OF spec]
    have x': "x = Some \<lparr>cp_reqs = claimed, cp_phases = pool_start claimed, cp_deadline = cl_now c + passTimeout D\<rparr>"
      using x ok by simp
    have leased: "ID req \<notin> ID ` set claimed"
      if "pass_of c j = Some ps" "lives c ps" "req \<in> unfinished ps" for j ps req
      using leased_not_due [OF c that ct] cl(2) by blast
    have "cluster_inv ?c'"
    proof (rule cluster_invI [OF c, where i = i])
      show "st_rows (abs (cl_repo ?c')) (ID req) = st_rows ?S (ID req)"
        if "pass_of c j = Some ps" "lives ?c' ps" "req \<in> unfinished ps" for j ps req
        using leased [OF that(1) _ that(3)] that(2) cl(4) by (simp add: lives_def)
      show "ID ` unfinished ps \<inter> ID ` unfinished ps' = {}"
        if "pass_of ?c' i = Some ps" "pass_of c j = Some ps'" "lives ?c' ps'" for j ps ps'
      proof -
        have "ID ` set claimed \<inter> ID ` unfinished ps' = {}"
        proof (rule Int_emptyI)
          fix k assume k: "k \<in> ID ` set claimed" "k \<in> ID ` unfinished ps'"
          then obtain req where "k = ID req" "req \<in> unfinished ps'" by blast
          with leased [OF that(2)] that(3) k(1) show False by (simp add: lives_def)
        qed
        moreover have "unfinished ps = set claimed"
          using that(1) i x' by (auto simp: unfinished_start)
        ultimately show ?thesis by simp
      qed
      show "as_claimed (abs (cl_repo ?c')) (ct (cp_deadline ps - passTimeout D)) req"
        if "pass_of ?c' i = Some ps" "req \<in> unfinished ps" for ps req
        using that i x' claim_spec_as_claimed [OF spec] by (auto simp: unfinished_start)
    qed (use e i x' pass_ok_start [OF e(1,2) cl(1)] in \<open>auto split: if_splits\<close>)
    moreover have "row_moves m ?S ?S'"
      unfolding row_moves_def
    proof
      fix k
      show "row_move m (st_rows ?S k) (st_rows ?S' k)"
      proof (cases "k \<in> ID ` set claimed")
        case True
        with cl(2) obtain q where q: "st_rows ?S k = Some q"
          "claimable (ct (cl_now c)) (ct (cl_now c - visibilityTimeout D)) q" by (auto simp: due_def)
        with cl(4) True row_move_claimed [OF q(2)] show ?thesis by simp
      qed (use cl(4) in simp)
    qed
    ultimately show ?thesis ..
  qed
  then show "cluster_inv ?c'" "row_moves m ?S ?S'" by blast+
qed

lemma unfinished_step:
  assumes "pool_step (dp_worker D) (poolSize D) (cp_reqs ps) (w, cp_phases ps) (w', phs)" "pass_ok S ps"
  shows "unfinished (ps\<lparr>cp_phases := phs\<rparr>) \<subseteq> unfinished ps"
  using pool_step_finished [OF assms(1)] assms(2) by (auto simp: unfinished_def pass_ok_def)

lemma cluster_work:
  assumes c: "cluster_inv c" and i: "i < length (cl_replicas c)" "cl_replicas c ! i = (w, Some ps)"
    and live: "lives c ps"
    and step: "pool_step (dp_worker D) (poolSize D) (cp_reqs ps) (w\<lparr>w_repo := cl_repo c\<rparr>, cp_phases ps) (w', phs)"
    and m: "maxAttempts (dp_worker D) \<le> m"
  shows "cluster_inv (set_replica i (w_repo w') (w', Some (ps\<lparr>cp_phases := phs\<rparr>)) c)"
    and "row_moves m (abs (cl_repo c)) (abs (w_repo w'))"
proof -
  let ?ps = "ps\<lparr>cp_phases := phs\<rparr>" and ?S = "abs (cl_repo c)" and ?S' = "abs (w_repo w')"
  let ?c' = "set_replica i (w_repo w') (w', Some ?ps) c"
  have p: "pass_of c i = Some ps" using i by (rule pass_of_nth)
  have ok: "pass_ok ?S ps" and mine: "\<And>req. req \<in> unfinished ps \<Longrightarrow> as_claimed ?S (ct (cp_deadline ps - passTimeout D)) req"
    and apart: "\<And>j ps'. pass_of c j = Some ps' \<Longrightarrow> j \<noteq> i \<Longrightarrow> lives c ps' \<Longrightarrow> ID ` unfinished ps \<inter> ID ` unfinished ps' = {}"
    using c p live unfolding cluster_inv_def by blast+
  have pool: "pool_inv (cp_reqs ps) (w\<lparr>w_repo := cl_repo c\<rparr>, cp_phases ps)"
    using c ok by (simp add: pool_inv_pass cluster_inv_def)
  from pool_step_inv [OF step pool] have e: "inv (w_repo w')" "store_ok ?S'" "evolves ?S ?S'" "pass_ok ?S' ?ps"
    by (simp_all add: pool_inv_def pass_ok_def)
  have counted: "counted ?S (cp_reqs ps ! j)" if "j < length (cp_reqs ps)" "cp_phases ps ! j \<noteq> Finished (Ok ())" for j
    using that by (intro as_claimed_counted [OF mine]) (auto simp: unfinished_def)
  consider "st_rows ?S' = st_rows ?S" | j q q' where "j < length (cp_reqs ps)" "cp_phases ps ! j \<noteq> Finished (Ok ())"
    "phs ! j = Finished (Ok ())" "st_rows ?S (ID (cp_reqs ps ! j)) = Some q"
    "st_rows ?S' = (st_rows ?S)(ID (cp_reqs ps ! j) \<mapsto> q')" "works (maxAttempts (dp_worker D)) q q'"
    using pool_step_works [OF step pool] counted by auto
  then have "(\<forall>req \<in> unfinished ?ps. st_rows ?S' (ID req) = st_rows ?S (ID req))
    \<and> (\<forall>k. k \<notin> ID ` unfinished ps \<longrightarrow> st_rows ?S' k = st_rows ?S k) \<and> row_moves m ?S ?S'"
  proof cases
    case 1
    then show ?thesis by (simp add: row_moves_same)
  next
    case (2 j q q')
    have "ID req \<noteq> ID (cp_reqs ps ! j)" if req: "req \<in> unfinished ?ps" for req
    proof -
      from req obtain k where k: "req = cp_reqs ps ! k" "k < length (cp_reqs ps)" "phs ! k \<noteq> Finished (Ok ())"
        by (auto simp: unfinished_def)
      moreover have "distinct (map ID (cp_reqs ps))" using ok by (simp add: pass_ok_def batch_held_def)
      ultimately show ?thesis using 2(1,3) by (metis distinct_conv_nth length_map nth_map)
    qed
    moreover have "cp_reqs ps ! j \<in> unfinished ps" using 2(1,2) by (auto simp: unfinished_def)
    moreover have "row_moves m ?S ?S'"
      using 2(4,5) row_move_works [OF 2(6) m] by (simp add: row_moves_def)
    ultimately show ?thesis using 2(5) by auto
  qed
  note rows = this [THEN conjunct1, rule_format] this [THEN conjunct2, THEN conjunct1, rule_format]
    and spend = this [THEN conjunct2, THEN conjunct2]
  note sub = unfinished_step [OF step ok]
  have "cluster_inv ?c'"
  proof (rule cluster_invI [OF c, where i = i])
    show "st_rows (abs (cl_repo ?c')) (ID req) = st_rows ?S (ID req)"
      if "j \<noteq> i" "pass_of c j = Some ps'" "lives ?c' ps'" "req \<in> unfinished ps'" for j ps' req
      using apart [OF that(2,1)] that(3,4) rows(2) [of "ID req"] by (auto simp: lives_def)
    show "ID ` unfinished x \<inter> ID ` unfinished ps' = {}"
      if "pass_of ?c' i = Some x" "j \<noteq> i" "pass_of c j = Some ps'" "lives ?c' ps'" for j x ps'
    proof -
      have "x = ?ps" using that(1) i by simp
      with apart [OF that(3,2)] that(4) sub show ?thesis by (simp add: lives_def) blast
    qed
    show "as_claimed (abs (cl_repo ?c')) (ct (cp_deadline x - passTimeout D)) req"
      if "pass_of ?c' i = Some x" "req \<in> unfinished x" for x req
    proof -
      have x: "x = ?ps" using that(1) i by simp
      then have "as_claimed ?S (ct (cp_deadline ps - passTimeout D)) req" using mine sub that(2) by blast
      then show ?thesis using as_claimed_row rows(1) [of req] that(2) x by simp
    qed
  qed (use e i in \<open>auto split: if_splits\<close>)
  with spend show "cluster_inv ?c'" "row_moves m ?S ?S'" by blast+
qed

text \<open>What a client's request adds is a new row.\<close>

lemma cluster_request:
  assumes c: "cluster_inv c" and fresh: "fresh_request (abs (cl_repo c)) req"
    and create: "CreateUpdateRequest (dp_repo D) (cl_repo c) req key = (res, r)"
  shows "cluster_inv (c\<lparr>cl_repo := r\<rparr>) \<and> row_moves m (abs (cl_repo c)) (abs r)"
proof -
  have start: "inv (cl_repo c)" "store_ok (abs (cl_repo c))" using c by (simp_all add: cluster_inv_def)
  note create' = create [unfolded same_repo]
  obtain u p t where new: "st_rows (abs (cl_repo c)) (ID req) = None" "req = NewCurrencyRateUpdateRequest u p t"
    using fresh by (auto simp: fresh_request_def)
  have "abs r = abs (cl_repo c) \<or> abs r = (abs (cl_repo c))\<lparr>st_rows := (st_rows (abs (cl_repo c)))(ID req \<mapsto> new_row ct req key)\<rparr>"
    using repo.create_law [OF start fresh create'] by (auto simp: create_spec_def fault_def split: if_splits)
  then have "row_moves m (abs (cl_repo c)) (abs r)
    \<and> (\<forall>k. st_rows (abs (cl_repo c)) k \<noteq> None \<longrightarrow> st_rows (abs r) k = st_rows (abs (cl_repo c)) k)"
    using new by (auto simp: row_moves_def row_move_def new_row_def NewCurrencyRateUpdateRequest_def split: if_splits)
  with cluster_inv_same [OF c, of "c\<lparr>cl_repo := r\<rparr>"] repo.create_keeps [OF start fresh create'] show ?thesis by simp
qed

lemma cluster_step_inv:
  assumes "cluster_step D abs c c'" "cluster_inv c"
    and "passTimeout D \<le> visibilityTimeout D" "\<And>x y. x \<le> y \<Longrightarrow> ct x \<le> ct y"
    and "maxAttempts (dp_worker D) \<le> m"
  shows "cluster_inv c' \<and> row_moves m (abs (cl_repo c)) (abs (cl_repo c'))"
proof -
  note same = cluster_inv_same [OF assms(2)]
  have start: "inv (cl_repo c)" "store_ok (abs (cl_repo c))" using assms(2) by (simp_all add: cluster_inv_def)
  have read: "cluster_inv (c\<lparr>cl_repo := r\<rparr>) \<and> row_moves m (abs (cl_repo c)) (abs r)"
    if "inv r \<and> abs r = abs (cl_repo c)" for r
    using that start same [of "c\<lparr>cl_repo := r\<rparr>"] by (simp add: row_moves_same)
  from assms(1) show ?thesis
  proof (cases rule: cluster_step.cases)
    case (Cl_tick now)
    with same [of c'] start show ?thesis by (simp add: row_moves_same)
  next
    case (Cl_private i w x w')
    with same [of c'] start pass_of_nth [OF Cl_private(2,3)] show ?thesis by (simp add: row_moves_same split: if_splits)
  next
    case (Cl_claim i w res w' x)
    from cluster_claim [OF assms(2) Cl_claim(2-6) assms(3,4)] Cl_claim(1) show ?thesis by simp
  next
    case (Cl_work i w ps w' phs)
    from cluster_work [OF assms(2) Cl_work(2-5) assms(5)] Cl_work(1) show ?thesis by simp
  next
    case (Cl_end i w x w')
    have "pass_of c j = Some ps" if "pass_of c' j = Some ps" for j ps
      using that Cl_end(1,2) by (simp split: if_splits)
    with same [of c'] start Cl_end(1) show ?thesis by (simp add: row_moves_same)
  next
    case (Cl_request req key res r)
    from cluster_request [OF assms(2) Cl_request(2,3)] Cl_request(1) show ?thesis by simp
  next
    case (Cl_by_key key rk r)
    from read repo.reads_keep(1) [OF start Cl_by_key(2) [unfolded same_repo]] Cl_by_key(1) show ?thesis by simp
  next
    case (Cl_by_id u ri r)
    from read repo.reads_keep(2) [OF start Cl_by_id(2) [unfolded same_repo]] Cl_by_id(1) show ?thesis by simp
  next
    case (Cl_latest p rl r)
    from read repo.reads_keep(3) [OF start Cl_latest(2,3) [unfolded same_repo]] Cl_latest(1) show ?thesis by simp
  qed
qed

lemma cluster_run_inv:
  assumes "cluster_run D abs c c'" "cluster_inv c" "within_attempts m (abs (cl_repo c))"
    and "passTimeout D \<le> visibilityTimeout D" "\<And>x y. x \<le> y \<Longrightarrow> ct x \<le> ct y"
    and "maxAttempts (dp_worker D) \<le> m" "0 < m"
  shows "cluster_inv c' \<and> within_attempts m (abs (cl_repo c'))"
  using assms(1-3)
proof (induction rule: cluster_run.induct)
  case (Cl_step c c' c'')
  then have "cluster_inv c'" "within_attempts m (abs (cl_repo c'))" by simp_all
  with cluster_step_inv [OF Cl_step.hyps(2) _ assms(4-6)] row_moves_spending [OF _ assms(7)] within_attempts_spending
  show ?case by blast
qed simp

text \<open>A cluster whose replicas are all idle.\<close>

lemma cluster_inv_idle:
  assumes "inv (cl_repo c)" "store_ok (abs (cl_repo c))" "\<forall>x \<in> set (cl_replicas c). snd x = None"
  shows "cluster_inv c"
proof -
  have "pass_of c i = None" for i using assms(3) by (simp add: pass_of_def)
  with assms(1,2) show ?thesis by (simp add: cluster_inv_def)
qed

end

section \<open>The wired service\<close>

definition cluster_started :: "('r, 'p, 'c, 'd) cluster \<Rightarrow> bool" where
  "cluster_started c \<longleftrightarrow> list_all (\<lambda>x. snd x = None) (cl_replicas c)"

lemma wired_timeouts:
  assumes "Load U args (os_getenv S) = Ok cfg"
  shows "0 < cfg_DispatchMaxAttempts cfg"
    and "passTimeout (wire_dispatcher (undisturbed K) P Sign F cvt cfg)
      \<le> visibilityTimeout (wire_dispatcher (undisturbed K) P Sign F cvt cfg)"
    and "maxAttempts (dp_worker (wire_dispatcher (undisturbed K) P Sign F cvt cfg)) \<le> cfg_DispatchMaxAttempts cfg"
proof -
  have "(''DISPATCH_MAX_ATTEMPTS'', cfg_DispatchMaxAttempts, cfg_DispatchMaxAttempts_update) \<in> set int_fields"
    by (simp add: int_fields_def)
  with Load_positive(3) [OF assms] show "0 < cfg_DispatchMaxAttempts cfg" by blast
  have "check_config cfg = Ok cfg" using Load_stages [OF assms] by metis
  then show "passTimeout (wire_dispatcher (undisturbed K) P Sign F cvt cfg)
      \<le> visibilityTimeout (wire_dispatcher (undisturbed K) P Sign F cvt cfg)"
    by (simp add: check_config_Ok wire_dispatcher_def NewDispatcher_def)
  show "maxAttempts (dp_worker (wire_dispatcher (undisturbed K) P Sign F cvt cfg)) \<le> cfg_DispatchMaxAttempts cfg"
    by (simp add: wire_dispatcher_def wire_worker_def NewDispatcher_def NewWorker_def)
qed

text \<open>Replicas of one configuration that \<open>Load\<close> accepts, on a freshly migrated database.\<close>

lemma wired_cluster:
  assumes "Load U args (os_getenv S) = Ok cfg" "newRateProvider S cfg = Ok (P, p)"
    and "\<And>x y. x \<le> y \<Longrightarrow> keep_time K x \<le> keep_time K y"
    and "cluster_run (wire_dispatcher (undisturbed K) P Sign F cvt cfg) (pg_abs (undisturbed K)) c0 c"
    and "cl_repo c0 = pg_migrated" "cluster_started c0"
  shows "dispatcher.cluster_inv (wire_dispatcher (undisturbed K) P Sign F cvt cfg) (pg_abs (undisturbed K)) pg_inv
      (keep_time K) c"
    and "within_attempts (cfg_DispatchMaxAttempts cfg) (pg_abs (undisturbed K) (cl_repo c))"
proof -
  let ?D = "wire_dispatcher (undisturbed K) P Sign F cvt cfg"
  note disp = wire_dispatcher_dispatcher [OF newRateProvider_provider [OF assms(2)] Load_provider(2) [OF assms(1)],
      of K Sign F cvt]
  note wired = wired_timeouts [OF assms(1)]
  have "dispatcher.cluster_inv ?D (pg_abs (undisturbed K)) pg_inv (keep_time K) c0"
    using assms(5,6) pg_migrated_ok
    by (intro dispatcher.cluster_inv_idle [OF disp]) (simp_all add: cluster_started_def list_all_iff)
  moreover have "within_attempts (cfg_DispatchMaxAttempts cfg) (pg_abs (undisturbed K) (cl_repo c0))"
    by (simp add: assms(5) pg_abs_migrated within_attempts_empty)
  ultimately show "dispatcher.cluster_inv ?D (pg_abs (undisturbed K)) pg_inv (keep_time K) c"
    "within_attempts (cfg_DispatchMaxAttempts cfg) (pg_abs (undisturbed K) (cl_repo c))"
    using dispatcher.cluster_run_inv [OF disp assms(4) _ _ wired(2) assms(3) wired(3) wired(1)] by blast+
qed

section \<open>Concrete values\<close>

text \<open>Two replicas; the first claims the request that a client has posted.\<close>

definition sample_replica :: "gotime \<Rightarrow> (PgRepo, unit adapter, SystemClock) world" where
  "sample_replica t = (world_of sample_started)\<lparr>w_clock := NewSystemClock t []\<rparr>"

definition sample_cluster :: "(PgRepo, unit adapter, SystemClock, int) cluster" where
  "sample_cluster = \<lparr>cl_repo = pg_migrated, cl_now = 5000,
     cl_replicas = [(sample_replica 5000, None), (sample_replica 7000, None)]\<rparr>"

definition pg_posted :: PgRepo where
  "pg_posted = snd (pg_CreateUpdateRequest (undisturbed sample_pg) pg_migrated sample_pg_req ''k'')"

lemma pg_posted_eq:
  "pg_posted = \<lparr>tbl_updates = [(1, \<lparr>c_base = ''EUR'', c_quote = ''MXN'', c_status = StatusPending,
     c_key = Some ''k'', c_attempts = 0, c_next = 5000, c_locked = None, c_quote_id = None,
     c_error_code = None, c_error_message = None, c_created = 5000, c_updated = 5000, c_reused = None\<rparr>)],
     tbl_quotes = [], seq_quotes = 0, own_updates = [], own_quotes = [], round_trips = 1\<rparr>"
  by (simp add: pg_posted_def pg_CreateUpdateRequest_def round_trip_def sql_insert_update_def sample_pg_def undisturbed_def
      sample_pg_req_def sample_pair_def NewCurrencyRateUpdateRequest_def pg_migrated_def char3_def rstrip_def nullif_def)

definition pg_leased :: "gotime \<Rightarrow> nat \<Rightarrow> PgRepo" where
  "pg_leased t n = \<lparr>tbl_updates = [(1, \<lparr>c_base = ''EUR'', c_quote = ''MXN'', c_status = StatusInProgress,
     c_key = Some ''k'', c_attempts = 1, c_next = 5000, c_locked = Some t, c_quote_id = None,
     c_error_code = None, c_error_message = None, c_created = 5000, c_updated = t, c_reused = None\<rparr>)],
     tbl_quotes = [], seq_quotes = 0, own_updates = [], own_quotes = [], round_trips = n\<rparr>"

definition leased_req :: "gotime \<Rightarrow> CurrencyRateUpdateRequest" where
  "leased_req t = sample_pg_req\<lparr>Status := StatusInProgress, Attempts := 1, UpdatedAt := t\<rparr>"

lemma scan_leased: "scan_rows (tbl_updates (pg_leased t n)) = Ok [leased_req t]"
proof -
  have "scan_rows (tbl_updates (pg_leased t n)) = Ok (map (\<lambda>(i, c). (q_req (pg_row i c))\<lparr>Reused := False\<rparr>) (tbl_updates (pg_leased t n)))"
    by (rule scan_rows_plain) (use sample_pair_ok in \<open>simp add: pg_leased_def sample_pair_def\<close>)
  then show ?thesis
    by (simp add: pg_leased_def leased_req_def pg_row_def sample_pg_req_def sample_pair_def NewCurrencyRateUpdateRequest_def)
qed

lemma sample_claim_posted:
  "pg_ClaimBatch (undisturbed sample_pg) pg_posted 100 5000 vis = (Ok [leased_req 5000], pg_leased 5000 2)"
  using scan_leased [of 5000 2]
  by (simp del: scan_rows.simps add: pg_posted_eq pg_ClaimBatch_def round_trip_def sql_claim_def claim_ids_def pg_leased_def undisturbed_def
      pending_candidates_def stuck_candidates_def claim_columns_def sample_pg_def Let_def)

lemma sample_claim_leased:
  "pg_ClaimBatch (undisturbed sample_pg) (pg_leased 5000 3) 100 7000 6000
     = (Ok [leased_req 7000], pg_leased 7000 4)"
  using scan_leased [of 7000 4]
  by (simp del: scan_rows.simps add: pg_ClaimBatch_def round_trip_def sql_claim_def claim_ids_def pg_leased_def undisturbed_def
      pending_candidates_def stuck_candidates_def claim_columns_def sample_pg_def Let_def)

text \<open>A poll of the client whose connection breaks.\<close>

lemma sample_poll_leased: "\<exists>res. pg_GetUpdateByID (undisturbed sample_pg) (pg_leased 5000 2) 1 = (res, pg_leased 5000 3)"
  by (simp add: pg_GetUpdateByID_def round_trip_def undisturbed_def sample_pg_def pg_leased_def)

lemma sample_wired_sel:
  "dp_repo sample_wired = pg_ops (undisturbed sample_pg)" "dp_clock sample_wired = system_clock"
  "batchSize sample_wired = 100" "passTimeout sample_wired = cfg_DispatchPassTimeout sample_config"
  by (simp_all add: sample_wired_def wire_dispatcher_def NewDispatcher_def sample_config_def default_config_def)

text \<open>The cluster after the post, after the first claim, and, when the visibility timeout is too short for the
  pass, after the second.\<close>

definition sample_cluster_posted :: "(PgRepo, unit adapter, SystemClock, int) cluster" where
  "sample_cluster_posted = sample_cluster\<lparr>cl_repo := pg_posted\<rparr>"

definition sample_cluster_leased :: "(PgRepo, unit adapter, SystemClock, int) cluster" where
  "sample_cluster_leased = set_replica 0 (pg_leased 5000 2) ((sample_replica 5000)\<lparr>w_repo := pg_leased 5000 2\<rparr>,
     Some \<lparr>cp_reqs = [leased_req 5000], cp_phases = pool_start [leased_req 5000],
       cp_deadline = 5000 + cfg_DispatchPassTimeout sample_config\<rparr>) sample_cluster_posted"

definition sample_cluster_shared :: "(PgRepo, unit adapter, SystemClock, int) cluster" where
  "sample_cluster_shared = set_replica 1 (pg_leased 7000 4) ((sample_replica 7000)\<lparr>w_repo := pg_leased 7000 4\<rparr>,
     Some \<lparr>cp_reqs = [leased_req 7000], cp_phases = pool_start [leased_req 7000],
       cp_deadline = 7000 + cfg_DispatchPassTimeout sample_config\<rparr>) (sample_cluster_leased\<lparr>cl_repo := pg_leased 5000 3, cl_now := 7000\<rparr>)"

abbreviation sample_cluster_step :: "duration \<Rightarrow> (PgRepo, unit adapter, SystemClock, int) cluster
    \<Rightarrow> (PgRepo, unit adapter, SystemClock, int) cluster \<Rightarrow> bool" where
  "sample_cluster_step vis \<equiv> cluster_step (sample_wired\<lparr>visibilityTimeout := vis\<rparr>) (pg_abs (undisturbed sample_pg))"

lemma sample_cluster_steps:
  "sample_cluster_step vis sample_cluster sample_cluster_posted"
  "sample_cluster_step vis sample_cluster_posted sample_cluster_leased"
  "sample_cluster_step vis sample_cluster_leased (sample_cluster_leased\<lparr>cl_repo := pg_leased 5000 3\<rparr>)"
  "sample_cluster_step vis (sample_cluster_leased\<lparr>cl_repo := pg_leased 5000 3\<rparr>)
     (sample_cluster_leased\<lparr>cl_repo := pg_leased 5000 3, cl_now := 7000\<rparr>)"
  "sample_cluster_step 1000 (sample_cluster_leased\<lparr>cl_repo := pg_leased 5000 3, cl_now := 7000\<rparr>) sample_cluster_shared"
proof -
  show "sample_cluster_step vis sample_cluster sample_cluster_posted"
    unfolding sample_cluster_posted_def
    by (rule Cl_request [where req = sample_pg_req and key = "''k''" and res' = "fst (pg_CreateUpdateRequest
          (undisturbed sample_pg) pg_migrated sample_pg_req ''k'')"])
      (simp_all add: sample_cluster_def sample_pg_fresh sample_wired_sel pg_ops_def pg_posted_def)
  show "sample_cluster_step vis sample_cluster_posted sample_cluster_leased"
    unfolding sample_cluster_leased_def
    by (rule Cl_claim [where w = "sample_replica 5000" and res = "Ok [leased_req 5000]"
          and w' = "(sample_replica 5000)\<lparr>w_repo := pg_leased 5000 2\<rparr>", simplified])
      (simp_all add: sample_cluster_posted_def sample_cluster_def claim_for_pass_def sample_wired_sel pg_ops_def go_defs
        sample_replica_def NewSystemClock_def system_clock_def SystemClock_Now_def sample_claim_posted)
  obtain res where poll: "pg_GetUpdateByID (undisturbed sample_pg) (pg_leased 5000 2) 1 = (res, pg_leased 5000 3)"
    using sample_poll_leased by blast
  show "sample_cluster_step vis sample_cluster_leased (sample_cluster_leased\<lparr>cl_repo := pg_leased 5000 3\<rparr>)"
    by (rule Cl_by_id [where u = 1 and ri = res])
      (simp add: sample_cluster_leased_def sample_wired_sel pg_ops_def poll)
  show "sample_cluster_step vis (sample_cluster_leased\<lparr>cl_repo := pg_leased 5000 3\<rparr>)
     (sample_cluster_leased\<lparr>cl_repo := pg_leased 5000 3, cl_now := 7000\<rparr>)"
    using Cl_tick [of "sample_cluster_leased\<lparr>cl_repo := pg_leased 5000 3\<rparr>" 7000]
    by (simp add: sample_cluster_leased_def sample_cluster_posted_def sample_cluster_def)
  show "sample_cluster_step 1000 (sample_cluster_leased\<lparr>cl_repo := pg_leased 5000 3, cl_now := 7000\<rparr>) sample_cluster_shared"
    unfolding sample_cluster_shared_def
    by (rule Cl_claim [where w = "sample_replica 7000" and res = "Ok [leased_req 7000]"
          and w' = "(sample_replica 7000)\<lparr>w_repo := pg_leased 7000 4\<rparr>", simplified])
      (simp_all add: sample_cluster_leased_def set_replica_def sample_cluster_posted_def sample_cluster_def
        claim_for_pass_def sample_wired_sel pg_ops_def go_defs
        sample_replica_def NewSystemClock_def system_clock_def SystemClock_Now_def sample_claim_leased)
qed

lemma sample_cluster_run:
  "cluster_run sample_wired (pg_abs (undisturbed sample_pg)) sample_cluster sample_cluster_leased"
proof -
  have "sample_wired = sample_wired\<lparr>visibilityTimeout := visibilityTimeout sample_wired\<rparr>" by simp
  with sample_cluster_steps(1,2) [of "visibilityTimeout sample_wired"] show ?thesis
    by (metis Cl_refl Cl_step)
qed

lemma sample_cluster_ok:
  "cl_repo sample_cluster = pg_migrated" "cluster_started sample_cluster"
  "pass_of sample_cluster_leased 0 = Some \<lparr>cp_reqs = [leased_req 5000], cp_phases = pool_start [leased_req 5000],
     cp_deadline = 5000 + cfg_DispatchPassTimeout sample_config\<rparr>"
  "cl_now sample_cluster_leased = 5000" "cl_repo sample_cluster_leased = pg_leased 5000 2"
  by (simp_all add: sample_cluster_def cluster_started_def sample_cluster_leased_def sample_cluster_posted_def)

lemma sample_configured:
  "Load config_unicode sample_args (os_getenv sample_outside) = Ok sample_config"
  "newRateProvider sample_outside sample_config = Ok (fst sample_adapter, snd sample_adapter)"
  "x \<le> y \<Longrightarrow> keep_time sample_pg x \<le> keep_time sample_pg y"
  using sample_args_Load
  by (simp_all add: sample_outside_def sample_newRateProvider [unfolded sample_outside_def] sample_pg_def zdiv_mono1)

section \<open>Properties\<close>

text \<open>C2. One worker per request. In a cluster of replicas of any configuration that \<open>Load\<close> accepts, with any
  interleaving of their passes, the calls of their pools, clients and crashes: while a pass lives, every row it has claimed and
  not closed is in progress and exactly as the worker was given it, and no other living pass works on it. Calls may fail, but a failed call has no
  effect and no row is skipped for the lock of another transaction (\<open>undisturbed\<close>), and
  all replicas read one time when they claim.\<close>

theorem cluster_exclusive:
  assumes "Load U args (os_getenv S) = Ok cfg" "newRateProvider S cfg = Ok (P, p)"
    and "\<And>x y. x \<le> y \<Longrightarrow> keep_time K x \<le> keep_time K y"
    and "cluster_run (wire_dispatcher (undisturbed K) P Sign F cvt cfg) (pg_abs (undisturbed K)) c0 c"
    and "cl_repo c0 = pg_migrated" "cluster_started c0"
    and "pass_of c i = Some ps" "lives c ps" "req \<in> unfinished ps"
  shows "(\<exists>q. st_rows (pg_abs (undisturbed K) (cl_repo c)) (ID req) = Some q
        \<and> Status (q_req q) = StatusInProgress \<and> req\<lparr>Reused := Reused (q_req q)\<rparr> = q_req q)
    \<and> (\<forall>j ps'. pass_of c j = Some ps' \<and> lives c ps' \<and> ID req \<in> ID ` unfinished ps' \<longrightarrow> j = i)"
proof -
  note disp = wire_dispatcher_dispatcher [OF newRateProvider_provider [OF assms(2)] Load_provider(2) [OF assms(1)],
      of K Sign F cvt]
  note inv = wired_cluster(1) [OF assms(1-6), unfolded dispatcher.cluster_inv_def [OF disp]]
  from inv assms(7-9) have "as_claimed (pg_abs (undisturbed K) (cl_repo c))
      (keep_time K (cp_deadline ps - passTimeout (wire_dispatcher (undisturbed K) P Sign F cvt cfg))) req" by blast
  moreover have "j = i" if "pass_of c j = Some ps'" "lives c ps'" "ID req \<in> ID ` unfinished ps'" for j ps'
    using inv assms(7-9) that by blast
  ultimately show ?thesis unfolding as_claimed_def by blast
qed

theorem cluster_exclusive_witness:
  "\<exists>q. st_rows (pg_abs (undisturbed sample_pg) (pg_leased 5000 2)) 1 = Some q
     \<and> Status (q_req q) = StatusInProgress \<and> (leased_req 5000)\<lparr>Reused := Reused (q_req q)\<rparr> = q_req q"
proof -
  let ?ps = "\<lparr>cp_reqs = [leased_req 5000], cp_phases = pool_start [leased_req 5000],
     cp_deadline = 5000 + cfg_DispatchPassTimeout sample_config\<rparr> :: int current_pass"
  have "lives sample_cluster_leased ?ps" by (simp add: lives_def sample_cluster_ok sample_config_def default_config_def
      Second_def)
  moreover have "leased_req 5000 \<in> unfinished ?ps" by (simp add: unfinished_def pool_start_def)
  moreover have "ID (leased_req 5000) = 1"
    by (simp add: leased_req_def sample_pg_req_def NewCurrencyRateUpdateRequest_def)
  ultimately show ?thesis
    using cluster_exclusive [where cfg = sample_config and P = "fst sample_adapter" and Sign = sgn and F = sample_fmt and cvt = 0
          and K = sample_pg, folded sample_wired_def,
        OF sample_configured(1,2) sample_configured(3) sample_cluster_run sample_cluster_ok(1,2,3)]
    unfolding sample_cluster_ok by metis
qed

text \<open>C4. The attempts budget holds for the cluster: however many replicas claim, work, fail and crash at the
  same time, no request is tried more often than \<open>DISPATCH_MAX_ATTEMPTS\<close>, and one that waits has an attempt left.
  Calls may fail, but a failed call has no effect and no row is skipped for the lock of another transaction (\<open>undisturbed\<close>), and all
  replicas read one time when they claim.\<close>

theorem cluster_attempts_bounded:
  assumes "Load U args (os_getenv S) = Ok cfg" "newRateProvider S cfg = Ok (P, p)"
    and "\<And>x y. x \<le> y \<Longrightarrow> keep_time K x \<le> keep_time K y"
    and "cluster_run (wire_dispatcher (undisturbed K) P Sign F cvt cfg) (pg_abs (undisturbed K)) c0 c"
    and "cl_repo c0 = pg_migrated" "cluster_started c0"
    and "st_rows (pg_abs (undisturbed K) (cl_repo c)) i = Some q"
  shows "Attempts (q_req q) \<le> cfg_DispatchMaxAttempts cfg
    \<and> (Status (q_req q) = StatusPending \<longrightarrow> Attempts (q_req q) < cfg_DispatchMaxAttempts cfg)"
  using wired_cluster(2) [OF assms(1-6)] assms(7) unfolding within_attempts_def row_within_def by blast

theorem cluster_attempts_bounded_witness:
  "\<exists>q. st_rows (pg_abs (undisturbed sample_pg) (pg_leased 5000 2)) 1 = Some q
     \<and> Attempts (q_req q) = 1 \<and> Attempts (q_req q) \<le> cfg_DispatchMaxAttempts sample_config"
proof -
  have "st_rows (pg_abs (undisturbed sample_pg) (pg_leased 5000 2)) 1 \<noteq> None" by (simp add: pg_leased_def)
  then obtain q where q: "st_rows (pg_abs (undisturbed sample_pg) (cl_repo sample_cluster_leased)) 1 = Some q"
    unfolding sample_cluster_ok by blast
  from cluster_attempts_bounded [where cfg = sample_config and P = "fst sample_adapter" and Sign = sgn and F = sample_fmt
      and cvt = 0 and K = sample_pg, folded sample_wired_def, OF sample_configured(1,2) sample_configured(3) sample_cluster_run sample_cluster_ok(1,2) q]
  have "Attempts (q_req q) \<le> cfg_DispatchMaxAttempts sample_config" by blast
  moreover have "Attempts (q_req q) = 1" using q by (auto simp: sample_cluster_ok pg_leased_def pg_row_def)
  ultimately show ?thesis using q unfolding sample_cluster_ok by blast
qed

text \<open>The check of \<open>Load\<close> is needed: with a visibility timeout below the pass timeout, two living passes
  come to work on one row.\<close>

theorem short_visibility_shares_rows:
  "\<exists>c ps ps'. cluster_run (sample_wired\<lparr>visibilityTimeout := 1000\<rparr>)
      (pg_abs (undisturbed sample_pg)) sample_cluster c
    \<and> pass_of c 0 = Some ps \<and> pass_of c 1 = Some ps' \<and> lives c ps \<and> lives c ps'
    \<and> ID ` unfinished ps \<inter> ID ` unfinished ps' \<noteq> {}"
proof -
  let ?ps = "\<lambda>t. \<lparr>cp_reqs = [leased_req t], cp_phases = pool_start [leased_req t],
     cp_deadline = t + cfg_DispatchPassTimeout sample_config\<rparr> :: int current_pass"
  have len: "length (cl_replicas sample_cluster) = 2" by (simp add: sample_cluster_def)
  have p: "pass_of sample_cluster_shared 0 = Some (?ps 5000)" "pass_of sample_cluster_shared 1 = Some (?ps 7000)"
    by (simp_all add: sample_cluster_shared_def sample_cluster_leased_def sample_cluster_posted_def
        sample_cluster_def set_replica_def pass_of_def)
  have "lives sample_cluster_shared (?ps t)" if "5000 \<le> t" for t
    using that by (simp add: lives_def sample_cluster_shared_def sample_config_def default_config_def Second_def)
  moreover have "unfinished (?ps t) = {leased_req t}" for t
    by (auto simp: unfinished_def pool_start_def)
  moreover have "ID (leased_req t) = 1" for t
    by (simp add: leased_req_def sample_pg_req_def NewCurrencyRateUpdateRequest_def)
  moreover note Cl_step [OF Cl_step [OF Cl_step [OF Cl_step [OF Cl_refl
      sample_cluster_steps(1)] sample_cluster_steps(2)] sample_cluster_steps(3)] sample_cluster_steps(4)]
  note run = Cl_step [OF this sample_cluster_steps(5)]
  show ?thesis
    by (rule exI [of _ sample_cluster_shared], rule exI [of _ "?ps 5000"], rule exI [of _ "?ps 7000"])
      (use run p calculation in simp)
qed

text \<open>And a worker that is overdue, its row claimed again meanwhile, decides with an old count of the attempts: it makes
  a row pending whose attempts are used up, so the next claim exceeds the budget.\<close>

definition sample_reclaimed :: "int MemRepo" where
  "sample_reclaimed = sample_claimed\<lparr>records := map (\<lambda>(i, q). (i, q\<lparr>q_req := (q_req q)\<lparr>Attempts := 2\<rparr>\<rparr>)) (records sample_claimed)\<rparr>"

definition sample_busy :: CurrencyRateError where
  "sample_busy = \<lparr>err_code = ProviderUnavailableError, err_message = ''busy'', err_retryable = True, err_retryAfter = 0,
     err_providerCode = []\<rparr>"

theorem overdue_worker_exceeds_budget:
  "map_option (\<lambda>q. (Status (q_req q), Attempts (q_req q))) (map_of (records (w_repo (snd
     (fail (sample_worker 2) (sample_world sample_reclaimed) claimed_req (RateError sample_busy) 4000)))) 1)
   = Some (StatusPending, 2)"
proof -
  have "w_repo (sample_world sample_reclaimed) = sample_reclaimed" by (simp add: sample_world_def)
  moreover have "\<not> out_of_budget (sample_worker 2) claimed_req 4000" "ID claimed_req = 1"
    by (simp_all add: out_of_budget_def sample_worker_def NewWorker_def claimed_req_def sample_req_def
        NewCurrencyRateUpdateRequest_def Hour_def Minute_def Second_def time_Sub_def maxInt64_def minInt64_def)
  moreover have "wk_repo (sample_worker 2) = mem_ops" by (simp add: sample_worker_def NewWorker_def)
  ultimately show ?thesis
    by (simp add: fail_def record_failure_def backoff_def draw_rand_def sample_busy_def mem_ops_def
        mem_CompleteFailure_def transitionRecord_def TransitionTo_def sample_reclaimed_def sample_claimed_eq
        claimed_req_def sample_req_def NewCurrencyRateUpdateRequest_def Let_def split: prod.split)
qed

end
