(* ===== verification/LifeCycle.thy ===== *)
theory LifeCycle
  imports Cluster
begin

text \<open>
  What the service promises for one request, as a small machine (\<open>docs/design.md\<close>, the states of
  \<open>update_request.go\<close> with the attempts budget), and that the cluster implements it: whatever its replicas do, the
  row of a request moves along this machine, and so it changes hands only a bounded number of times.
\<close>

section \<open>The life of a job\<close>

text \<open>\<open>Waiting n\<close> and \<open>Working n\<close>: queued or with a worker, \<open>n\<close> attempts used. A job that is waiting gets a worker
  and uses an attempt; a worker closes it or, while attempts are left, puts it back.\<close>

datatype job = Absent | Waiting int | Working int | Closed

inductive job_step :: "int \<Rightarrow> job \<Rightarrow> job \<Rightarrow> bool" for m where
  Submit: "job_step m Absent (Waiting 0)"
| Assign: "0 \<le> n \<Longrightarrow> n < m \<Longrightarrow> job_step m (Waiting n) (Working (n + 1))"
| Close: "0 < n \<Longrightarrow> n \<le> m \<Longrightarrow> job_step m (Working n) Closed"
| Defer: "0 < n \<Longrightarrow> n < m \<Longrightarrow> job_step m (Working n) (Waiting n)"

inductive_simps job_step_simps: "job_step m j j'"
inductive_cases job_step_cases: "job_step m j j'"

text \<open>Every step brings a job nearer to its end.\<close>

fun steps_left :: "int \<Rightarrow> job \<Rightarrow> nat" where
  "steps_left m Absent = nat (2 * m + 2)"
| "steps_left m (Waiting n) = nat (2 * (m - n) + 1)"
| "steps_left m (Working n) = nat (2 * (m - n) + 2)"
| "steps_left m Closed = 0"

lemma job_step_left: "job_step m j j' \<Longrightarrow> 0 < m \<Longrightarrow> steps_left m j' < steps_left m j"
  by (cases rule: job_step.cases) auto

lemma job_trace_bounded:
  assumes "successively (job_step m) (j # js)" "0 < m"
  shows "length js + steps_left m (last (j # js)) \<le> steps_left m j"
  using assms(1)
proof (induction js arbitrary: j)
  case (Cons j' js)
  then have "job_step m j j'" "length js + steps_left m (last (j' # js)) \<le> steps_left m j'" by simp_all
  with job_step_left [OF _ assms(2)] show ?case by fastforce
qed simp

lemma job_final: "\<not> job_step m Closed j"
  by (simp add: job_step_simps)

section \<open>The job of a row\<close>

definition job_of :: "'d store \<Rightarrow> uuid \<Rightarrow> job" where
  "job_of S i = (case st_rows S i of
      None \<Rightarrow> Absent
    | Some q \<Rightarrow> (case Status (q_req q) of
        StatusPending \<Rightarrow> Waiting (Attempts (q_req q))
      | StatusInProgress \<Rightarrow> Working (Attempts (q_req q))
      | _ \<Rightarrow> Closed))"

lemma job_of_moves:
  assumes "row_moves m S S'" "store_ok S" "within_attempts m S"
  shows "job_of S' i = job_of S i \<or> job_step m (job_of S i) (job_of S' i)"
proof -
  have moves: "row_move m (st_rows S i) (st_rows S' i)" using assms(1) by (simp add: row_moves_def)
  show ?thesis
  proof (cases "st_rows S i")
    case None
    with moves show ?thesis by (auto simp: row_move_def job_of_def job_step_simps)
  next
    case (Some q)
    then have ok: "row_ok S i q" "row_within m q"
      using assms(2,3) store_ok_rowD by (auto simp: within_attempts_def)
    from moves Some consider "st_rows S' i = Some q"
      | now vis t where "claimable now vis q" "st_rows S' i = Some (claimed_row t q)"
      | q' where "works m q q'" "st_rows S' i = Some q'" by (auto simp: row_move_def)
    then show ?thesis
    proof cases
      case 2
      with Some ok show ?thesis
        by (auto simp: job_of_def claimable_def claimed_row_def job_step_simps row_within_def row_ok_def)
    next
      case 3
      with Some ok show ?thesis
        by (auto simp: job_of_def works_def job_step_simps row_within_def row_ok_def)
    qed (use Some in \<open>simp add: job_of_def\<close>)
  qed
qed

section \<open>Histories of a cluster\<close>

text \<open>A run together with the changes it makes to the job of row \<open>i\<close>, in their order.\<close>

inductive cluster_history ::
  "('r, 'p, 'c, 'd) Dispatcher \<Rightarrow> ('r \<Rightarrow> 'd store) \<Rightarrow> uuid
     \<Rightarrow> ('r, 'p, 'c, 'd) cluster \<Rightarrow> job list \<Rightarrow> ('r, 'p, 'c, 'd) cluster \<Rightarrow> bool"
  for D abs i where
  Hist_refl: "cluster_history D abs i c [] c"
| Hist_step: "cluster_history D abs i c js c' \<Longrightarrow> cluster_step D abs c' c''
    \<Longrightarrow> js' = (if job_of (abs (cl_repo c'')) i = job_of (abs (cl_repo c')) i then js
               else js @ [job_of (abs (cl_repo c'')) i])
    \<Longrightarrow> cluster_history D abs i c js' c''"

lemma history_run: "cluster_history D A i c js c' \<Longrightarrow> cluster_run D A c c'"
  by (induction rule: cluster_history.induct) (auto intro: cluster_run.intros)

context dispatcher
begin

lemma cluster_history_jobs:
  assumes "cluster_history D abs i c js c'" "cluster_inv c" "within_attempts m (abs (cl_repo c))"
    and "passTimeout D \<le> visibilityTimeout D" "\<And>x y. x \<le> y \<Longrightarrow> ct x \<le> ct y"
    and "maxAttempts (dp_worker D) \<le> m" "0 < m"
  shows "successively (job_step m) (job_of (abs (cl_repo c)) i # js)
    \<and> last (job_of (abs (cl_repo c)) i # js) = job_of (abs (cl_repo c')) i"
  using assms(1-3)
proof (induction rule: cluster_history.induct)
  case (Hist_step c js c' c'' js')
  let ?j = "job_of (abs (cl_repo c)) i"
  have ih: "successively (job_step m) (?j # js)" "last (?j # js) = job_of (abs (cl_repo c')) i"
    using Hist_step by simp_all
  from cluster_run_inv [OF history_run [OF Hist_step.hyps(1)] Hist_step.prems assms(4-7)]
  have inv: "cluster_inv c'" "within_attempts m (abs (cl_repo c'))" by simp_all
  from cluster_step_inv [OF Hist_step.hyps(2) inv(1) assms(4-6)]
  have "row_moves m (abs (cl_repo c')) (abs (cl_repo c''))" by simp
  from job_of_moves [OF this _ inv(2)] inv(1)
  have "job_of (abs (cl_repo c'')) i = job_of (abs (cl_repo c')) i
    \<or> job_step m (job_of (abs (cl_repo c')) i) (job_of (abs (cl_repo c'')) i)" by (simp add: cluster_inv_def)
  with ih Hist_step.hyps(3) show ?case
    by (auto simp: successively_append_iff simp flip: append_Cons)
qed simp

end

section \<open>Concrete values\<close>

lemma sample_history:
  "cluster_history sample_wired (pg_abs (undisturbed sample_pg)) 1 sample_cluster [Waiting 0, Working 1] sample_cluster_leased"
proof -
  have D: "sample_wired\<lparr>visibilityTimeout := visibilityTimeout sample_wired\<rparr> = sample_wired" by simp
  note steps = sample_cluster_steps(1,2) [of "visibilityTimeout sample_wired", unfolded D]
  have "cluster_history sample_wired (pg_abs (undisturbed sample_pg)) 1 sample_cluster [Waiting 0] sample_cluster_posted"
    by (rule Hist_step [OF Hist_refl steps(1)])
      (simp add: sample_cluster_def sample_cluster_posted_def pg_posted_eq pg_migrated_def job_of_def pg_row_def)
  then show ?thesis
    by (rule Hist_step [OF _ steps(2)])
      (simp add: sample_cluster_leased_def sample_cluster_posted_def pg_leased_def pg_posted_eq job_of_def pg_row_def)
qed

section \<open>Properties\<close>

text \<open>C1. The life cycle. In a cluster of replicas of any configuration that \<open>Load\<close> accepts, whatever is claimed, worked on,
  deferred, closed and abandoned at the same time, every request goes through its abstract life cycle: it is submitted,
  alternates between waiting and being worked on within \<open>DISPATCH_MAX_ATTEMPTS\<close>, and stays closed once it is; so its state
  changes at most \<open>2 * DISPATCH_MAX_ATTEMPTS + 2\<close> times, however long the cluster runs. Calls may fail, but a failed call has no
  effect and no row is skipped for the lock of another transaction (\<open>undisturbed\<close>), and
  all replicas read one time when they claim.\<close>

theorem cluster_life_cycle:
  assumes "Load U args (os_getenv S) = Ok cfg" "newRateProvider S cfg = Ok (P, p)"
    and "\<And>x y. x \<le> y \<Longrightarrow> keep_time K x \<le> keep_time K y"
    and "cluster_history (wire_dispatcher (undisturbed K) P Sign F cvt cfg) (pg_abs (undisturbed K)) i c0 js c"
    and "cl_repo c0 = pg_migrated" "cluster_started c0"
  shows "successively (job_step (cfg_DispatchMaxAttempts cfg)) (Absent # js)
    \<and> last (Absent # js) = job_of (pg_abs (undisturbed K) (cl_repo c)) i
    \<and> int (length js) \<le> 2 * cfg_DispatchMaxAttempts cfg + 2"
proof -
  let ?D = "wire_dispatcher (undisturbed K) P Sign F cvt cfg"
  note disp = wire_dispatcher_dispatcher [OF newRateProvider_provider [OF assms(2)] Load_provider(2) [OF assms(1)],
      of K Sign F cvt]
  note wired = wired_timeouts [OF assms(1)]
  note start = wired_cluster [OF assms(1-3) Cl_refl assms(5,6)]
  have fresh: "job_of (pg_abs (undisturbed K) (cl_repo c0)) i = Absent"
    by (simp add: job_of_def assms(5) pg_abs_migrated empty_store_def)
  note path = dispatcher.cluster_history_jobs [OF disp assms(4) start wired(2) assms(3) wired(3) wired(1),
      unfolded fresh]
  from job_trace_bounded [OF conjunct1 [OF path] wired(1)] path wired(1) show ?thesis by auto
qed

theorem cluster_life_cycle_witness:
  "successively (job_step (cfg_DispatchMaxAttempts sample_config)) (Absent # [Waiting 0, Working 1])
   \<and> last (Absent # [Waiting 0, Working 1]) = job_of (pg_abs (undisturbed sample_pg) (pg_leased 5000 2)) 1
   \<and> int (length [Waiting 0, Working 1]) \<le> 2 * cfg_DispatchMaxAttempts sample_config + 2"
  using cluster_life_cycle [where cfg = sample_config and P = "fst sample_adapter" and Sign = sgn and F = sample_fmt
      and cvt = 0 and K = sample_pg, folded sample_wired_def, OF sample_configured(1,2) sample_configured(3)
      sample_history sample_cluster_ok(1,2)]
  unfolding sample_cluster_ok .

end
