(* ===== verification/Faults.thy ===== *)
theory Faults
  imports PoolService
begin

text \<open>
  The service as \<open>run\<close> wires it when PostgreSQL misbehaves: calls fail, the reply to a call that took effect is
  lost, rows are held by other transactions. What one row, a pass, a pool and each handler still guarantee.
  Reading does not depend on lost replies, so what the contract of the port says of the reads carries over; a closing
  call or an \<open>INSERT\<close> took effect or it did not, whatever it reports.
\<close>

section \<open>Reads\<close>

lemma read_undisturbed: "(\<And>r. snd (f r) = r) \<Longrightarrow> round_trip quiet (undisturbed K) f r = round_trip quiet K f r"
  by (simp add: round_trip_def undisturbed_def Let_def split: option.split)

lemma read_rate_undisturbed: "read_rate (undisturbed K) = read_rate K"
  by (rule ext) (simp add: read_rate_def undisturbed_def)

lemma reads_undisturbed:
  "pg_GetLatestQuote (undisturbed K) = pg_GetLatestQuote K"
  "pg_GetUpdateByID (undisturbed K) = pg_GetUpdateByID K"
  "pg_GetByIdempotencyKey (undisturbed K) = pg_GetByIdempotencyKey K"
proof -
  have latest: "round_trip quiet (undisturbed K) (sql_latest p) r = round_trip quiet K (sql_latest p) r"
    and by_id: "round_trip quiet (undisturbed K) (sql_update_by_id i) r = round_trip quiet K (sql_update_by_id i) r" for p i r
    by (rule read_undisturbed, simp add: sql_latest_def sql_update_by_id_def Let_def)+
  show "pg_GetLatestQuote (undisturbed K) = pg_GetLatestQuote K"
    "pg_GetUpdateByID (undisturbed K) = pg_GetUpdateByID K"
    unfolding pg_GetLatestQuote_def [abs_def] pg_GetUpdateByID_def [abs_def] latest by_id read_rate_undisturbed
    by (rule refl)+
  show "pg_GetByIdempotencyKey (undisturbed K) = pg_GetByIdempotencyKey K"
    by (intro ext) (simp add: pg_GetByIdempotencyKey_def read_undisturbed)
qed

lemma pg_ops_reads:
  "GetLatestQuote (pg_ops (undisturbed K)) = GetLatestQuote (pg_ops K)"
  "GetUpdateByID (pg_ops (undisturbed K)) = GetUpdateByID (pg_ops K)"
  "GetByIdempotencyKey (pg_ops (undisturbed K)) = GetByIdempotencyKey (pg_ops K)"
  by (simp_all add: pg_ops_def reads_undisturbed)

lemma pg_ops_sel [simp]:
  "CreateUpdateRequest (pg_ops K) = pg_CreateUpdateRequest K" "ClaimBatch (pg_ops K) = pg_ClaimBatch K"
  "CompleteSuccess (pg_ops K) = pg_CompleteSuccess quiet K"
  "CompleteSuccessReuse (pg_ops K) = pg_CompleteSuccessReuse quiet K"
  "CompleteFailure (pg_ops K) = pg_CompleteFailure quiet K"
  by (simp_all add: pg_ops_def)

lemma wire_worker_sel [simp]:
  "wk_repo (wire_worker K P Sign F cvt cfg) = pg_ops K" "wk_provider (wire_worker K P Sign F cvt cfg) = P"
  "wk_Sign (wire_worker K P Sign F cvt cfg) = Sign" "wk_fmt (wire_worker K P Sign F cvt cfg) = F"
  "maxAttempts (wire_worker K P Sign F cvt cfg) = cfg_DispatchMaxAttempts cfg"
  by (simp_all add: wire_worker_def NewWorker_def)

lemma fetch_undisturbed:
  "fetch (wire_worker (undisturbed K) P Sign F cvt cfg) w pair = fetch (wire_worker K P Sign F cvt cfg) w pair"
proof -
  have c: "read_clock (wire_worker (undisturbed K) P Sign F cvt cfg) = read_clock (wire_worker K P Sign F cvt cfg)"
    by (rule ext) (simp add: read_clock_def wire_worker_def NewWorker_def)
  have f: "fetch_fresh (wire_worker (undisturbed K) P Sign F cvt cfg) = fetch_fresh (wire_worker K P Sign F cvt cfg)"
    unfolding fetch_fresh_def [abs_def] c wire_worker_sel by (rule refl)
  show ?thesis unfolding fetch_def c f by (simp add: pg_ops_reads)
qed

section \<open>Closing a row\<close>

text \<open>What a closing call does to the row it is made for: what \<open>Process\<close> promises, or it was told of an error
  after it had taken effect.\<close>

definition row_outcome :: "'d::zero pg_env \<Rightarrow> 'd store \<Rightarrow> CurrencyRateUpdateRequest \<Rightarrow> unit go \<Rightarrow> 'd store \<Rightarrow> bool" where
  "row_outcome K S req res S' \<longleftrightarrow> process_spec S req res S'
     \<or> ((\<exists>n. lost_reply K n) \<and> (\<exists>e. res = Err e \<and> infra e) \<and> process_spec S req (Ok ()) S')"

lemma pg_outcome_row:
  assumes "pg_outcome K spec r res r'"
    and "\<And>x S'. spec x S' \<or> fault (pg_abs K r) x S' \<Longrightarrow> process_spec (pg_abs K r) req x S'"
  shows "row_outcome K (pg_abs K r) req res (pg_abs K r')"
  using assms unfolding pg_outcome_def row_outcome_def by (metis (full_types) old.unit.exhaust)

definition keeps :: "'d::zero pg_env \<Rightarrow> PgRepo \<Rightarrow> PgRepo \<Rightarrow> bool" where
  "keeps K r r' \<longleftrightarrow> pg_inv r' \<and> store_ok (pg_abs K r') \<and> evolves (pg_abs K r) (pg_abs K r')"

lemma keepsI: "pg_step K r r' \<Longrightarrow> pg_inv r \<Longrightarrow> store_ok (pg_abs K r) \<Longrightarrow> keeps K r r'"
  unfolding keeps_def by (rule pg_step_keeps)

lemma held_own: "held (pg_abs K r) req \<Longrightarrow> own_pair K r (ID req) (Pair req)"
  by (auto simp: held_def own_pair_def simp del: pg_abs_sel)

lemma success_row:
  assumes inv: "pg_inv r" "store_ok (pg_abs K r)" "held (pg_abs K r) req"
    and run: "pg_CompleteSuccess quiet K r (ID req) (Pair req) rate now = (res, r')"
  shows "keeps K r r' \<and> row_outcome K (pg_abs K r) req res (pg_abs K r')"
proof (rule conjI [OF keepsI [OF pg_step_success [OF held_pair_ok [OF inv(2,3)] held_own [OF inv(3)] run] inv(1,2)]])
  show "row_outcome K (pg_abs K r) req res (pg_abs K r')"
    by (rule pg_outcome_row [OF pg_success_outcome [OF inv(1) held_pair_ok [OF inv(2,3)] run]]) (erule success_process_spec)
qed

lemma reuse_row:
  assumes inv: "pg_inv r" "store_ok (pg_abs K r)" "held (pg_abs K r) req"
    and quote: "st_quotes (pg_abs K r) qid = Some (Pair req, rate)"
    and run: "pg_CompleteSuccessReuse quiet K r (ID req) qid now = (res, r')"
  shows "keeps K r r' \<and> row_outcome K (pg_abs K r) req res (pg_abs K r')"
proof (rule conjI [OF keepsI [OF pg_step_reuse [OF quote held_own [OF inv(3)] run] inv(1,2)]])
  show "row_outcome K (pg_abs K r) req res (pg_abs K r')"
    by (rule pg_outcome_row [OF pg_reuse_outcome [OF inv(1) run]]) (erule reuse_process_spec [OF _ quote])
qed

lemma failure_row:
  assumes inv: "pg_inv r" "store_ok (pg_abs K r)" and code: "code \<in> stored_codes"
    and run: "pg_CompleteFailure quiet K r (ID req) code msg retryable nextAttempt now = (res, r')"
  shows "keeps K r r' \<and> row_outcome K (pg_abs K r) req res (pg_abs K r')"
proof (rule conjI [OF keepsI [OF pg_step_failure [OF run] inv]])
  show "row_outcome K (pg_abs K r) req res (pg_abs K r')"
    by (rule pg_outcome_row [OF pg_failure_outcome [OF inv(1) run]]) (erule failure_process_spec [OF _ code])
qed

lemma same_row: "pg_inv r \<Longrightarrow> store_ok (pg_abs K r) \<Longrightarrow> r' = r \<Longrightarrow> \<not> is_ok res
    \<Longrightarrow> keeps K r r' \<and> row_outcome K (pg_abs K r) req res (pg_abs K r')"
  by (simp add: keeps_def row_outcome_def process_spec_same)

lemma record_failure_wired:
  assumes "pg_inv (w_repo w)" "store_ok (pg_abs K (w_repo w))" "ErrorCode_Valid (err_code e)"
    and "record_failure (wire_worker K P Sign F cvt cfg) w req e now = (res, w')"
  shows "keeps K (w_repo w) (w_repo w') \<and> row_outcome K (pg_abs K (w_repo w)) req res (pg_abs K (w_repo w'))"
proof -
  obtain code msg b nxt where f: "pg_CompleteFailure quiet K (w_repo w) (ID req) code msg b nxt now
      = (res, w_repo w')" and code: "code \<in> stored_codes"
    using assms(3,4) backoff_frame
    by (fastforce simp: record_failure_def Let_def stored_codes_def split: prod.splits if_splits)
  from failure_row [OF assms(1,2) code f] show ?thesis .
qed

lemma fail_wired:
  assumes "pg_inv (w_repo w)" "store_ok (pg_abs K (w_repo w))" "error_ok err"
    and "fail (wire_worker K P Sign F cvt cfg) w req err now = (res, w')"
  shows "keeps K (w_repo w) (w_repo w') \<and> row_outcome K (pg_abs K (w_repo w)) req res (pg_abs K (w_repo w'))"
proof (cases "errors_As_rate err")
  case (Some r)
  with assms(3) have "ErrorCode_Valid (err_code r)" by (simp add: error_ok_def)
  with Some assms(4) record_failure_wired [OF assms(1,2)] show ?thesis by (simp add: fail_def)
next
  case None
  show ?thesis
  proof (cases "out_of_budget (wire_worker K P Sign F cvt cfg) req now")
    case False
    with None assms(4) have "w' = w" "\<not> is_ok res" by (auto simp: fail_def out_of_budget_def)
    with same_row [OF assms(1,2)] show ?thesis by simp
  next
    case True
    with None assms(4) obtain r where r: "record_failure (wire_worker K P Sign F cvt cfg) w req r now = (res, w')"
      and "err_code r = InternalError"
      by (auto simp: fail_def out_of_budget_def split: if_splits)
    then have "ErrorCode_Valid (err_code r)" by simp
    from record_failure_wired [OF assms(1,2) this r] show ?thesis .
  qed
qed

text \<open>The two ways to close a row for the result of its fetch.\<close>

lemma close_wired:
  assumes inv: "pg_inv (w_repo w)" "store_ok (pg_abs K (w_repo w))" "held (pg_abs K (w_repo w)) req"
    and q: "if qid = 0 then True else st_quotes (pg_abs K (w_repo w)) qid = Some (Pair req, rate)"
    and run: "(if qid \<noteq> 0 then CompleteSuccessReuse (wk_repo (wire_worker K P Sign F cvt cfg)) (w_repo w) (ID req) qid now
        else CompleteSuccess (wk_repo (wire_worker K P Sign F cvt cfg)) (w_repo w) (ID req) (Pair req) rate now) = (res, r')"
  shows "keeps K (w_repo w) r' \<and> row_outcome K (pg_abs K (w_repo w)) req res (pg_abs K r')"
proof (cases "qid = 0")
  case True
  with run success_row [OF inv] show ?thesis by simp
next
  case False
  with run q reuse_row [OF inv] show ?thesis by (simp del: pg_abs_sel)
qed

lemma Process_wired:
  assumes P: "rate_provider P"
    and inv: "pg_inv (w_repo w)" "store_ok (pg_abs K (w_repo w))" "held (pg_abs K (w_repo w)) req"
    and run: "Process (wire_worker K P Sign F cvt cfg) w req = (res, w')"
  shows "keeps K (w_repo w) (w_repo w') \<and> row_outcome K (pg_abs K (w_repo w)) req res (pg_abs K (w_repo w'))"
proof -
  let ?W = "wire_worker K P Sign F cvt cfg"
  note wk = wire_worker_worker [OF P, of K Sign F cvt cfg, unfolded pg_abs_undisturbed]
  have pair: "pair_ok (Pair req)" using held_pair_ok inv(2,3) .
  obtain fres w1 where f: "fetch ?W w (Pair req) = (fres, w1)" by fastforce
  then have f': "fetch (wire_worker (undisturbed K) P Sign F cvt cfg) w (Pair req) = (fres, w1)"
    by (simp only: fetch_undisturbed)
  obtain now w2 where t: "read_clock ?W w1 = (now, w2)" by fastforce
  from worker.fetch_keeps [OF wk inv(1,2) pair f'] read_clock_frame [OF t]
  have w2: "pg_inv (w_repo w2)" "pg_abs K (w_repo w2) = pg_abs K (w_repo w)" "pg_inv (w_repo w1)"
    "pg_abs K (w_repo w1) = pg_abs K (w_repo w)" by simp_all
  with inv have ok2: "store_ok (pg_abs K (w_repo w2))" "held (pg_abs K (w_repo w2)) req" by simp_all
  have close: ?thesis if "keeps K (w_repo w2) (w_repo w') \<and> row_outcome K (pg_abs K (w_repo w2)) req res (pg_abs K (w_repo w'))"
    using that by (simp add: keeps_def w2(2))
  show ?thesis
  proof (cases fres)
    case Panic
    with run f have "w' = w1" "res = Panic" by (simp_all add: Process_def)
    with w2(3,4) inv(2) show ?thesis by (simp add: keeps_def row_outcome_def process_spec_same)
  next
    case (Err e)
    with run f t have "fail ?W w2 req e now = (res, w')" by (simp add: Process_def Let_def)
    moreover have "error_ok e"
      using worker.fetch_Err_classified [OF wk inv(1,2) pair f' [unfolded Err]] by (simp add: error_ok_def)
    ultimately show ?thesis using fail_wired [OF w2(1) ok2(1)] by (intro close)
  next
    case (Ok rq)
    then obtain rate qid where rq: "fres = Ok (rate, qid)" by (cases rq) auto
    with run f t obtain r where c: "(if qid \<noteq> 0 then CompleteSuccessReuse (wk_repo ?W) (w_repo w2) (ID req) qid now
        else CompleteSuccess (wk_repo ?W) (w_repo w2) (ID req) (Pair req) rate now) = (res, r)" and "w' = w2\<lparr>w_repo := r\<rparr>"
      by (auto simp: Process_def Let_def simp del: wire_worker_sel split: prod.splits)
    moreover have "if qid = 0 then True else st_quotes (pg_abs K (w_repo w2)) qid = Some (Pair req, rate)"
      using worker.fetch_Ok [OF wk inv(1,2) pair f' [unfolded rq]] by (auto simp: w2(2))
    ultimately show ?thesis using close_wired [OF w2(1) ok2 _ c] by (intro close) simp
  qed
qed

section \<open>A pass\<close>

lemma process_rows_wired:
  assumes "rate_provider P" "pg_inv (w_repo w)" "store_ok (pg_abs K (w_repo w))" "batch_held (pg_abs K (w_repo w)) reqs"
  shows "keeps K (w_repo w) (w_repo (process_rows (wire_worker K P Sign F cvt cfg) w reqs))
    \<and> (\<forall>i. i \<notin> ID ` set reqs \<longrightarrow>
          st_rows (pg_abs K (w_repo (process_rows (wire_worker K P Sign F cvt cfg) w reqs))) i
          = st_rows (pg_abs K (w_repo w)) i)"
  using assms(2-4)
proof (induction reqs arbitrary: w)
  case Nil
  then show ?case by (simp add: keeps_def)
next
  case (Cons req reqs)
  let ?W = "wire_worker K P Sign F cvt cfg"
  obtain res w' where p: "Process ?W w req = (res, w')" by fastforce
  have held: "held (pg_abs K (w_repo w)) req" using Cons.prems(3) by (simp add: batch_held_def)
  note e = Process_wired [OF assms(1) Cons.prems(1,2) held p]
  then have w': "pg_inv (w_repo w')" "store_ok (pg_abs K (w_repo w'))"
    "evolves (pg_abs K (w_repo w)) (pg_abs K (w_repo w'))" by (simp_all add: keeps_def)
  have "batch_held (pg_abs K (w_repo w')) reqs"
    using Cons.prems(3) held_evolves [OF _ w'(3)] by (simp add: batch_held_def)
  note ih = Cons.IH [OF w'(1,2) this]
  have "st_rows (pg_abs K (w_repo w')) i = st_rows (pg_abs K (w_repo w)) i" if "i \<noteq> ID req" for i
    using e that unfolding row_outcome_def by (metis process_spec_other)
  with ih w'(3) evolves_trans show ?case by (auto simp: p keeps_def simp del: pg_abs_sel)
qed

lemma wire_dispatcher_sel [simp]:
  "dp_repo (wire_dispatcher K P Sign F cvt cfg) = pg_ops K"
  "dp_clock (wire_dispatcher K P Sign F cvt cfg) = system_clock"
  "dp_worker (wire_dispatcher K P Sign F cvt cfg) = wire_worker K P Sign F cvt cfg"
  "batchSize (wire_dispatcher K P Sign F cvt cfg) = cfg_DispatchBatchSize cfg"
  "visibilityTimeout (wire_dispatcher K P Sign F cvt cfg) = cfg_DispatchVisibilityTimeout cfg"
  by (simp_all add: wire_dispatcher_def NewDispatcher_def)

lemma claimed_from_batch:
  assumes "claimed_from ct D S limit now claimed S'"
  shows "batch_held S' claimed" "i \<notin> D \<Longrightarrow> st_rows S' i = st_rows S i" "ID ` set claimed \<subseteq> D"
    "length claimed = min (nat limit) (card D)"
proof -
  have c: "distinct (map ID claimed)" "ID ` set claimed \<subseteq> D" "length claimed = min (nat limit) (card D)"
    "st_rows S' = (\<lambda>i. if i \<in> ID ` set claimed then map_option (claimed_row (ct now)) (st_rows S i) else st_rows S i)"
    "\<forall>req \<in> set claimed. \<exists>q. st_rows S' (ID req) = Some q \<and> req\<lparr>Reused := Reused (q_req q)\<rparr> = q_req q"
    using assms unfolding claimed_from_def by blast+
  have "held S' req" if "req \<in> set claimed" for req
  proof -
    from c(5) that obtain q where q: "st_rows S' (ID req) = Some q"
      "req\<lparr>Reused := Reused (q_req q)\<rparr> = q_req q" by blast
    from arg_cong [OF q(2), of Pair] q(1) show ?thesis by (simp add: held_def)
  qed
  with c(1) show "batch_held S' claimed" by (simp add: batch_held_def)
  show "i \<notin> D \<Longrightarrow> st_rows S' i = st_rows S i" "ID ` set claimed \<subseteq> D"
    "length claimed = min (nat limit) (card D)" using c by auto
qed

text \<open>The rows that a claim at \<open>now\<close> would find due and not held by another transaction.\<close>

definition pass_due :: "'d::zero pg_env \<Rightarrow> Config \<Rightarrow> gotime \<Rightarrow> PgRepo \<Rightarrow> uuid set" where
  "pass_due K cfg now r = claim_due (keep_time K) (skip_locked K (Suc (round_trips r))) (pg_abs K r) now
     (now - cfg_DispatchVisibilityTimeout cfg)"

lemma claim_wired:
  assumes inv: "pg_inv r" "store_ok (pg_abs K r)"
    and run: "pg_ClaimBatch K r (cfg_DispatchBatchSize cfg) now (now - cfg_DispatchVisibilityTimeout cfg) = (res, r')"
  shows "keeps K r r' \<and>
    (case res of
       Ok claimed \<Rightarrow> claimed_from (keep_time K) (pass_due K cfg now r) (pg_abs K r) (cfg_DispatchBatchSize cfg) now
         claimed (pg_abs K r')
     | Err e \<Rightarrow> pg_abs K r' = pg_abs K r \<or> ((\<exists>n. lost_reply K n) \<and> (\<exists>claimed. claimed_from (keep_time K)
         (pass_due K cfg now r) (pg_abs K r) (cfg_DispatchBatchSize cfg) now claimed (pg_abs K r')))
     | Panic \<Rightarrow> False)"
proof (rule conjI [OF keepsI [OF pg_step_claim [OF run] inv]])
  from pg_claim_outcome [OF inv run] show "case res of
       Ok claimed \<Rightarrow> claimed_from (keep_time K) (pass_due K cfg now r) (pg_abs K r) (cfg_DispatchBatchSize cfg) now
         claimed (pg_abs K r')
     | Err e \<Rightarrow> pg_abs K r' = pg_abs K r \<or> ((\<exists>n. lost_reply K n) \<and> (\<exists>claimed. claimed_from (keep_time K)
         (pass_due K cfg now r) (pg_abs K r) (cfg_DispatchBatchSize cfg) now claimed (pg_abs K r')))
     | Panic \<Rightarrow> False"
    unfolding pg_outcome_def pg_claim_spec_def pass_due_def fault_def by (cases res) auto
qed

lemma pass_wired:
  assumes P: "rate_provider P" and batch: "0 < cfg_DispatchBatchSize cfg"
    and inv: "pg_inv (w_repo w)" "store_ok (pg_abs K (w_repo w))" and order: "\<And>xs. mset (order xs) = mset xs"
    and now: "now = fst (Now system_clock (w_clock w))"
    and run: "ClaimAndDispatch (wire_dispatcher K P Sign F cvt cfg) order w = (res, w')"
  shows "res \<noteq> Panic \<and> keeps K (w_repo w) (w_repo w')
    \<and> (\<forall>i. i \<notin> pass_due K cfg now (w_repo w) \<longrightarrow>
          st_rows (pg_abs K (w_repo w')) i = st_rows (pg_abs K (w_repo w)) i)
    \<and> (\<forall>full. res = Ok full \<longrightarrow> (full \<longleftrightarrow>
          cfg_DispatchBatchSize cfg \<le> int (card (pass_due K cfg now (w_repo w)))))
    \<and> (\<forall>e. res = Err e \<longrightarrow> pg_abs K (w_repo w') = pg_abs K (w_repo w)
          \<or> ((\<exists>n. lost_reply K n) \<and> (\<exists>claimed. claimed_from (keep_time K) (pass_due K cfg now (w_repo w))
                (pg_abs K (w_repo w)) (cfg_DispatchBatchSize cfg) now claimed (pg_abs K (w_repo w')))))"
proof -
  let ?W = "wire_worker K P Sign F cvt cfg" and ?S = "pg_abs K (w_repo w)"
  obtain c where t: "Now system_clock (w_clock w) = (now, c)" using now by (metis prod.collapse)
  obtain cres r where cl: "pg_ClaimBatch K (w_repo w) (cfg_DispatchBatchSize cfg) now
      (now - cfg_DispatchVisibilityTimeout cfg) = (cres, r)" by fastforce
  let ?w1 = "w\<lparr>w_clock := c, w_repo := r\<rparr>"
  note C = claim_wired [OF inv cl]
  note run = run [unfolded ClaimAndDispatch_def wire_dispatcher_sel t Let_def]
  show ?thesis
  proof (cases cres)
    case Panic
    with C show ?thesis by simp
  next
    case (Err e)
    with run cl have "res = Err e" "w' = ?w1" by (simp_all add: go_defs)
    moreover have "st_rows (pg_abs K r) i = st_rows ?S i" if "i \<notin> pass_due K cfg now (w_repo w)" for i
    proof -
      from C Err consider "pg_abs K r = ?S"
        | claimed where "claimed_from (keep_time K) (pass_due K cfg now (w_repo w)) ?S (cfg_DispatchBatchSize cfg) now
            claimed (pg_abs K r)" by auto
      then show ?thesis by cases (simp, rule claimed_from_batch(2) [OF _ that])
    qed
    ultimately show ?thesis using C Err by (simp del: pg_abs_sel)
  next
    case (Ok claimed)
    with C have r: "keeps K (w_repo w) r" and spec: "claimed_from (keep_time K) (pass_due K cfg now (w_repo w)) ?S
        (cfg_DispatchBatchSize cfg) now claimed (pg_abs K r)" by simp_all
    note cb = claimed_from_batch [OF spec]
    let ?w2 = "process_rows ?W ?w1 (order claimed)"
    have w': "w' = (if claimed = [] then ?w1 else ?w2)"
      and res: "res = Ok (claimed \<noteq> [] \<and> int (length claimed) = cfg_DispatchBatchSize cfg)"
      using run cl Ok by (auto simp: go_defs split: if_splits)
    have set: "set (order claimed) = set claimed" using order by (rule mset_eq_setD)
    have "pg_inv (w_repo ?w1)" "store_ok (pg_abs K (w_repo ?w1))" "batch_held (pg_abs K (w_repo ?w1)) (order claimed)"
      using r batch_held_order [OF cb(1) order] by (simp_all add: keeps_def)
    from process_rows_wired [OF P this, of Sign F cvt cfg] set
    have p: "keeps K r (w_repo ?w2)"
      "\<And>i. i \<notin> ID ` set claimed \<Longrightarrow> st_rows (pg_abs K (w_repo ?w2)) i = st_rows (pg_abs K r) i" by (simp_all del: pg_abs_sel)
    have "keeps K (w_repo w) (w_repo w')"
      using r p(1) evolves_trans w' by (auto simp: keeps_def)
    moreover have "st_rows (pg_abs K (w_repo w')) i = st_rows ?S i" if i: "i \<notin> pass_due K cfg now (w_repo w)" for i
      using p(2) [of i] cb(2) [OF i] cb(3) i w' by (auto simp del: pg_abs_sel)
    moreover have "(claimed \<noteq> [] \<and> int (length claimed) = cfg_DispatchBatchSize cfg) \<longleftrightarrow>
        cfg_DispatchBatchSize cfg \<le> int (card (pass_due K cfg now (w_repo w)))"
      using cb(4) batch by (cases claimed) auto
    ultimately show ?thesis unfolding res by (simp del: pg_abs_sel)
  qed
qed

section \<open>The handlers\<close>














lemma sample_pg_ok: "pg_inv pg_claimed" "store_ok (pg_abs sample_pg pg_claimed)"
  using pg_run_keeps [OF sample_pg_run pg_migrated_ok] by simp_all




text \<open>C26. GET /quotes/latest on PostgreSQL, whatever calls fail: no pair or a malformed one is a 400, a pair outside the
  allow-list a 422; a storage call that failed is a 500, never a 404; a pair
  without quotes is a 404; otherwise the answer is a 200 with a quote of the pair that no other quote of the pair
  is newer than; nothing is written.\<close>

theorem get_quotes_latest:
  assumes "pg_inv (sv_repo s)" "store_ok (pg_abs K (sv_repo s))"
    and "getQuotesLatestHandler (E\<lparr>he_repo := pg_ops K\<rparr>) rq s new_response = (res, s', w')"
    and "raw = rq_query rq ''pair''"
  shows "res = Ok () \<and> pg_abs K (sv_repo s') = pg_abs K (sv_repo s)
    \<and> (if raw = [] then wire_status w' = 400 else case ParseCurrencyPair (he_unicode E) raw ''/'' of
         Ok pair \<Rightarrow>
           if \<exists>e. fst (pg_GetLatestQuote K (sv_repo s) pair) = Err e \<and> infra e then wire_status w' = 500
           else if \<forall>k rate. st_quotes (pg_abs K (sv_repo s)) k \<noteq> Some (pair, rate) then wire_status w' = 404
           else wire_status w' = 200 \<and> (\<exists>k rate. st_quotes (pg_abs K (sv_repo s)) k = Some (pair, rate)
             \<and> rs_bodies w' = [newLatestQuoteResponse (he_StringFixed E) (Pair_String pair) rate]
             \<and> (\<forall>k' rate'. st_quotes (pg_abs K (sv_repo s)) k' = Some (pair, rate') \<longrightarrow> QuotedAt rate' \<le> QuotedAt rate))
       | _ \<Rightarrow> wire_status w' = (if well_shaped (he_unicode E) raw then 422 else 400))"
proof (cases "raw = []")
  case True
  with assms(3,4) show ?thesis by (auto simp: getQuotesLatestHandler_def split: gores.split)
next
  case False
  let ?S = "pg_abs K (sv_repo s)"
  obtain gres r where g: "GetLatest (pg_ops K) (he_unicode E) (sv_repo s) raw = (gres, r)" by fastforce
  have "GetLatest (pg_ops (undisturbed K)) = GetLatest (pg_ops K)"
    unfolding GetLatest_def [abs_def] pg_ops_reads by (rule refl)
  with g have "GetLatest (pg_ops (undisturbed K)) (he_unicode E) (sv_repo s) raw = (gres, r)" by simp
  note e = repository.GetLatest_effect [OF pg.repository_axioms assms(1) _ this, unfolded pg_abs_undisturbed, OF assms(2)]
  have run: "res = (case gres of Panic \<Rightarrow> Panic | _ \<Rightarrow> Ok ())" "s' = s\<lparr>sv_repo := r\<rparr>"
    "w' = (case gres of Panic \<Rightarrow> new_response
       | Err e \<Rightarrow>
           if errors_Is is_ErrMalformedPair e
           then writeError 400 codeInvalidRequest (error_text (he_fmt E) e) new_response
           else if errors_Is is_ErrPairNotAllowed e
           then writeError 422 codeUnsupportedPair (error_text (he_fmt E) e) new_response
           else if errors_Is (\<lambda>x. x = ErrNotFound) e then writeError 404 codeNotFound msgNoQuoteYet new_response
           else internal_error new_response
       | Ok (pair, rate) \<Rightarrow> writeJSON 200 (newLatestQuoteResponse (he_StringFixed E) (Pair_String pair) rate) new_response)"
    using assms(3,4) g False by (auto simp: getQuotesLatestHandler_def Let_def split: gores.splits)
  consider pair where "ParseCurrencyPair (he_unicode E) raw ''/'' = Ok pair"
    | d where "well_shaped (he_unicode E) raw" "ParseCurrencyPair (he_unicode E) raw ''/'' = Err (ErrPairNotAllowed d)"
    | m where "\<not> well_shaped (he_unicode E) raw"
        "ParseCurrencyPair (he_unicode E) raw ''/'' = Err (ErrMalformedPair m ''/'')"
    using ParseCurrencyPair_outcome [of "he_unicode E" raw] by blast
  then show ?thesis
  proof cases
    case (1 pair)
    have failed: "(\<exists>e. fst (pg_GetLatestQuote K (sv_repo s) pair) = Err e \<and> infra e) \<longleftrightarrow> (\<exists>e. gres = Err e \<and> infra e)"
      using g 1 by (auto simp: GetLatest_def pg_ops_def split: prod.splits gores.splits)
    have body: "rs_bodies (writeJSON 200 b new_response) = [b]" for b
      by (simp add: writeJSON_def write_header_def set_header_def new_response_def Let_def)
    from e 1 consider (none) "gres = Err ErrNotFound" "\<forall>k rate. st_quotes ?S k \<noteq> Some (pair, rate)"
      | (fault) x where "gres = Err x" "infra x"
      | (found) rate k where "gres = Ok (pair, rate)" "st_quotes ?S k = Some (pair, rate)"
          "\<forall>k' rate'. st_quotes ?S k' = Some (pair, rate') \<longrightarrow> QuotedAt rate' \<le> QuotedAt rate"
      by (auto simp del: pg_abs_sel)
    then show ?thesis
    proof cases
      case none
      then have "\<not> (\<exists>e. gres = Err e \<and> infra e)" by (auto simp: infra_def)
      with none run e 1 False failed show ?thesis by (simp del: pg_abs_sel)
    next
      case fault
      with run e 1 False failed infra_cases [OF fault(2)] show ?thesis by (simp del: pg_abs_sel)
    next
      case found
      then have "\<not> (\<exists>e. gres = Err e \<and> infra e)" "\<not> (\<forall>k rate. st_quotes ?S k \<noteq> Some (pair, rate))"
        by (auto simp del: pg_abs_sel)
      with found run e 1 False failed body show ?thesis by (auto simp del: pg_abs_sel)
    qed
  next
    case (2 d)
    with e run False show ?thesis by simp
  next
    case (3 m)
    with e run False show ?thesis by simp
  qed
qed

definition sample_latest :: "PgRepo \<Rightarrow> response" where
  "sample_latest r = snd (snd (getQuotesLatestHandler (sample_pg_env\<lparr>he_repo := pg_ops sample_pg\<rparr>)
     (sample_post\<lparr>rq_query := \<lambda>_. ''eur/MXN''\<rparr>) ((sc_server sample_started)\<lparr>sv_repo := r\<rparr>) new_response))"

theorem get_quotes_latest_witness:
  "wire_status (sample_latest pg_claimed) = 500 \<and> wire_status (sample_latest pg_pending) = 404"
proof -
  let ?E = "sample_pg_env\<lparr>he_repo := pg_ops sample_pg\<rparr>" and ?s = "\<lambda>r. (sc_server sample_started)\<lparr>sv_repo := r\<rparr>"
    and ?rq = "sample_post\<lparr>rq_query := \<lambda>_. ''eur/MXN''\<rparr>"
  have run: "getQuotesLatestHandler ?E ?rq (?s r) new_response
      = (fst (getQuotesLatestHandler ?E ?rq (?s r) new_response),
         fst (snd (getQuotesLatestHandler ?E ?rq (?s r) new_response)), sample_latest r)" for r
    by (simp add: sample_latest_def)
  have repo: "sv_repo (?s r) = r" for r by simp
  have raw: "''eur/MXN'' = rq_query ?rq ''pair''" by simp
  note get = get_quotes_latest [OF _ _ run raw, unfolded repo sample_parse gores.case]
  have "fst (pg_GetLatestQuote sample_pg pg_claimed sample_pair) = Err (ErrWrap ''postgres: get latest quote'' (ErrOther ''unexpected EOF''))"
    "fst (pg_GetLatestQuote sample_pg pg_pending sample_pair) = Err ErrNotFound"
    by (simp_all add: pg_GetLatestQuote_def round_trip_def pg_claimed_eq pg_pending_eq sample_pg_def sql_latest_def)
  with get [OF sample_pg_ok] get [OF pg_pending_ok] show ?thesis
    by (simp add: infra_def) (simp add: pg_pending_eq)
qed

section \<open>The pool\<close>


















section \<open>Properties of the worker, the pass and the pool\<close>

text \<open>C8. \<open>Process\<close> of a claimed request by the wired worker, with either adapter and whatever the provider,
  limiter, clock and database do: on nil the row of that request, and no other, left in_progress as a success
  pointing at a quote of its own pair or as a failure with one of the documented codes; on an error or a panic the
  store is exactly what it was, so the reaper finds the row as it was claimed. The one exception is a
  connection that breaks after the closing call took effect: the error of the connection is reported and the row is
  resolved all the same, as it would be on nil.\<close>

theorem Process_sound:
  assumes "newRateProvider S cfg = Ok (P, p)"
    and "pg_inv (w_repo w)" "store_ok (pg_abs K (w_repo w))" "held (pg_abs K (w_repo w)) req"
    and "Process (wire_worker K P Sign F cvt cfg) w req = (res, w')"
  shows "(process_spec (pg_abs K (w_repo w)) req res (pg_abs K (w_repo w'))
      \<or> (\<exists>n. lost_reply K n) \<and> (\<exists>e. res = Err e \<and> infra e)
          \<and> process_spec (pg_abs K (w_repo w)) req (Ok ()) (pg_abs K (w_repo w')))
    \<and> pg_inv (w_repo w') \<and> store_ok (pg_abs K (w_repo w')) \<and> evolves (pg_abs K (w_repo w)) (pg_abs K (w_repo w'))"
  using Process_wired [OF newRateProvider_provider [OF assms(1)] assms(2-5)]
  unfolding row_outcome_def keeps_def by blast

definition sample_held_world :: "(PgRepo, unit adapter, SystemClock) world" where
  "sample_held_world = sample_pending_world\<lparr>w_repo := pg_claimed\<rparr>"

definition lossy_worker :: "(PgRepo, unit adapter, SystemClock, int) Worker" where
  "lossy_worker = wire_worker sample_pg (fst sample_adapter) sgn sample_fmt 0 sample_config"

lemma sample_adapter_new: "newRateProvider sample_outside sample_config = Ok (fst sample_adapter, snd sample_adapter)"
  by (simp add: sample_newRateProvider)

lemma sample_outside_Load: "Load config_unicode sample_args (os_getenv sample_outside) = Ok sample_config"
  using sample_args_Load by (simp add: sample_outside_def)

lemma sample_held_ok:
  "pg_inv (w_repo sample_held_world)" "store_ok (pg_abs sample_pg (w_repo sample_held_world))"
  "held (pg_abs sample_pg (w_repo sample_held_world)) sample_pg_req"
  using sample_pg_ok by (simp_all add: sample_held_world_def held_def)
    (simp add: pg_claimed_eq sample_pg_req_def NewCurrencyRateUpdateRequest_def sample_pair_def)

theorem Process_sound_witness:
  "store_ok (pg_abs sample_pg (w_repo (snd (Process lossy_worker sample_held_world sample_pg_req))))
    \<and> (is_ok (fst (Process lossy_worker sample_held_world sample_pg_req)) \<or>
        (\<exists>e. fst (Process lossy_worker sample_held_world sample_pg_req) = Err e \<and> infra e) \<or>
        pg_abs sample_pg (w_repo (snd (Process lossy_worker sample_held_world sample_pg_req))) = pg_abs sample_pg pg_claimed)"
proof -
  have repo: "w_repo sample_held_world = pg_claimed" by (simp add: sample_held_world_def)
  note run = prod.collapse [symmetric, of "Process lossy_worker sample_held_world sample_pg_req"]
  from Process_sound [OF sample_adapter_new sample_held_ok run [unfolded lossy_worker_def], folded lossy_worker_def, unfolded repo]
  show ?thesis by (auto simp: process_spec_def simp del: pg_abs_sel split: if_splits)
qed

text \<open>C23. A pass of the wired dispatcher on PostgreSQL, with either adapter, whatever order the pool runs the rows in,
  whatever errors and panics they end in, whatever calls fail, whatever replies are lost and whatever rows other transactions
  hold: it never panics out, keeps the store well formed, leaves alone every row that was not due
  (pending and reached, or in progress past the visibility timeout) or was held, and reports a full batch exactly when
  at least \<open>batchSize\<close> such rows were there to claim. It fails only with its claim, and then nothing has happened, or the
  reply to the claim was lost and the batch stays claimed until the visibility timeout.\<close>

theorem pass_sound:
  assumes "Load U args (os_getenv S) = Ok cfg" "newRateProvider S cfg = Ok (P, p)"
    and "pg_inv (w_repo w)" "store_ok (pg_abs K (w_repo w))" "\<And>xs. mset (order xs) = mset xs"
    and "ClaimAndDispatch (wire_dispatcher K P Sign F cvt cfg) order w = (res, w')"
    and "now = fst (Now system_clock (w_clock w))"
    and "D = {i. \<not> skip_locked K (Suc (round_trips (w_repo w))) i \<and> (\<exists>q. st_rows (pg_abs K (w_repo w)) i = Some q
      \<and> claimable (keep_time K now) (keep_time K (now - cfg_DispatchVisibilityTimeout cfg)) q)}"
  shows "res \<noteq> Panic \<and> pg_inv (w_repo w') \<and> store_ok (pg_abs K (w_repo w'))
    \<and> evolves (pg_abs K (w_repo w)) (pg_abs K (w_repo w'))
    \<and> (\<forall>i. i \<notin> D \<longrightarrow> st_rows (pg_abs K (w_repo w')) i = st_rows (pg_abs K (w_repo w)) i)
    \<and> (\<forall>full. res = Ok full \<longrightarrow> full = (cfg_DispatchBatchSize cfg \<le> int (card D)))
    \<and> (\<forall>e. res = Err e \<longrightarrow> pg_abs K (w_repo w') = pg_abs K (w_repo w)
          \<or> (\<exists>n. lost_reply K n) \<and> (\<exists>claimed. claimed_from (keep_time K) D (pg_abs K (w_repo w))
                (cfg_DispatchBatchSize cfg) now claimed (pg_abs K (w_repo w'))))"
proof -
  have "(''DISPATCH_BATCH_SIZE'', cfg_DispatchBatchSize, cfg_DispatchBatchSize_update) \<in> set int_fields"
    by (simp add: int_fields_def)
  with Load_positive(3) [OF assms(1)] have batch: "0 < cfg_DispatchBatchSize cfg" by blast
  have D: "pass_due K cfg now (w_repo w) = D"
    unfolding assms(8) pass_due_def claim_due_def by (rule refl)
  from pass_wired [OF newRateProvider_provider [OF assms(2)] batch assms(3-5,7,6)] show ?thesis
    unfolding D keeps_def by (simp only: simp_thms) blast
qed

theorem pass_sound_witness:
  "fst (ClaimAndDispatch (wire_dispatcher sample_pg (fst sample_adapter) sgn sample_fmt 0 sample_config) rev sample_pending_world)
     \<notin> {Panic, Ok True}"
proof -
  let ?run = "ClaimAndDispatch (wire_dispatcher sample_pg (fst sample_adapter) sgn sample_fmt 0 sample_config) rev sample_pending_world"
  have repo: "w_repo sample_pending_world = pg_pending" by (simp add: sample_pending_world_def)
  have batch: "cfg_DispatchBatchSize sample_config = 100" by (simp add: sample_config_def default_config_def)
  let ?D = "{i. \<not> skip_locked sample_pg (Suc (round_trips pg_pending)) i \<and> (\<exists>q. st_rows (pg_abs sample_pg pg_pending) i = Some q
      \<and> claimable (keep_time sample_pg (fst (Now system_clock (w_clock sample_pending_world))))
          (keep_time sample_pg (fst (Now system_clock (w_clock sample_pending_world)) - cfg_DispatchVisibilityTimeout sample_config)) q)}"
  have "?D \<subseteq> {1}" by (auto simp: pg_pending_eq split: if_splits)
  then have "card ?D \<le> 1" using card_mono [of "{1}" ?D] by simp
  with pass_sound [OF sample_outside_Load sample_adapter_new _ _ _ prod.collapse [symmetric] refl refl,
      where w = sample_pending_world and K = sample_pg and order = rev and Sign = sgn and F = sample_fmt and cvt = 0,
      unfolded repo, OF pg_pending_ok] show ?thesis by (auto simp: batch)
qed



end
