(* ===== verification/Spec2Isabelle.thy ===== *)
theory Spec2Isabelle
  imports Samples PostgresRaces Wire LifeCycle Faults
begin

text \<open>
  The asynchronous currency-quote service: its parts, what models them, and what is shown.

  \<^bold>\<open>The program.\<close> A client posts a request for a quote of a currency pair and polls for its result
  (\<open>internal/api/http\<close>, \<open>internal/usecase/quotes/request_update.go\<close>, \<open>get_by_update_id.go\<close>,
  \<open>get_latest.go\<close>). Requests are rows of a queue in a repository (\<open>internal/storage/postgres\<close>, and
  \<open>internal/storage/memory\<close> for tests). A dispatcher (\<open>dispatcher.go\<close>) claims due rows in batches, new
  ones and ones whose worker is overdue, and gives them to a pool of workers (\<open>worker.go\<close>), which reuse a
  quote of the journal while it is fresh and otherwise ask a rate provider (\<open>internal/provider\<close>) within an
  outbound budget (\<open>ratelimiter.go\<close>); failures are classified, retried with backoff, or final.
  \<open>cmd/server\<close> reads the configuration (\<open>internal/config\<close>) and wires the parts.

  \<^bold>\<open>The theories\<close>, in the order of their imports.
  \<^item> \<open>Prelude\<close>: 64-bit integers, times and durations, \<open>strconv\<close>, \<open>strings\<close>, results of fallible calls
    (\<open>gores\<close>: \<open>Ok\<close>, \<open>Err\<close>, \<open>Panic\<close>). \<open>Float64\<close>: the few \<open>float64\<close> operations, exact on dyadic
    numbers with rounding to 53 bits.
  \<^item> \<open>Domain\<close> (\<open>internal/domain/quotes\<close>): codes, pairs, rates, requests with their life cycle, classified
    errors; every error is a constructor of \<open>go_error\<close>, wrapped as \<open>fmt.Errorf\<close> and \<open>errors.Join\<close> do.
  \<^item> \<open>Clock\<close> (\<open>clock.go\<close>, \<open>pkg/clock\<close>), \<open>Backoff\<close> (the delay and jitter of \<open>worker.go\<close>), \<open>RateLimiter\<close>
    (\<open>ratelimiter.go\<close>): \<open>Allow\<close> equals a sliding-window specification and keeps both budgets.
  \<^item> \<open>Repository\<close> and \<open>RateProvider\<close> (the ports): an interface value is a record of functions on a state;
    the contract is a locale. \<open>store\<close> is the abstract repository, \<open>store_ok\<close> its invariant, \<open>evolves\<close> what
    no operation undoes, and one \<open>_spec\<close> per method what it does on every branch.
  \<^item> \<open>MemoryRepo\<close> and \<open>PostgresRepo\<close>: the two repositories, each with its abstraction function and an
    interpretation of the contract. The second has every SQL statement as a function on tables with the
    constraints of the migrations, and an environment \<open>pg_env\<close>; its transactions run statement by statement,
    with a rollback, and before each statement other sessions may commit. \<open>PostgresTx\<close>: what locks keep others
    from, and why each transaction takes effect at one moment all the same.
  \<^item> \<open>Json\<close> (\<open>encoding/json\<close>): the scanner as a pushdown machine on bytes, \<open>Unmarshal\<close>, \<open>Decoder.Decode\<close> and
    \<open>Marshal\<close>; what \<open>Marshal\<close> prints is read back as the same value.
  \<^item> \<open>FakeProvider\<close> and \<open>ExchangerateDev\<close>: the two adapters, each an interpretation of \<open>rate_provider\<close>.
  \<^item> \<open>Worker\<close>: \<open>fetch\<close>, \<open>fail\<close> and \<open>Process\<close> on an explicit \<open>world\<close>; \<open>Process_effect\<close> says what one
    row's processing does to the store. \<open>Dispatcher\<close>: one pass, \<open>Run\<close> and the drain loop over it;
    \<open>DrainLoop\<close>: why that loop ends. \<open>Pool\<close>: the same rows with their calls interleaved.
  \<^item> \<open>UseCases\<close> and \<open>HttpApi\<close>: the use cases, handlers, middleware and routes.
  \<^item> \<open>Service\<close>: the whole as a state machine (requests, passes, time) over the in-memory repository;
    \<open>PostgresService\<close>: replicas on one database; \<open>PostgresRaces\<close>: replicas that close requests at the same
    time; \<open>Config\<close>: \<open>Load\<close>; \<open>Server\<close>: start-up, wiring and exit of
    \<open>cmd/server\<close>, with \<open>pool.go\<close>, \<open>migrate.go\<close> and \<open>pkg/httpclient\<close>; \<open>PoolService\<close>: the pool in the wired
    service; \<open>Throughput\<close>: \<open>cmd/throughput\<close>; \<open>Wire\<close>: the bytes that client and server exchange;
    \<open>Faults\<close>: the worker, the pass, the pool and the handlers of the wired service with failing calls, lost replies
    and rows that other transactions hold;
    \<open>Attempts\<close>: the attempts budget over whole runs; \<open>Cluster\<close>: replicas whose passes run at the same time, each
    under its deadline, claims being leases; \<open>LifeCycle\<close>: the abstract life of a request, which the cluster refines.
    \<open>Samples\<close> holds concrete values.

  \<^bold>\<open>Interfaces.\<close> The locales \<open>repository\<close>, \<open>rate_provider\<close>, \<open>worker\<close>, \<open>dispatcher\<close>, \<open>drain_window\<close>, \<open>api\<close>
  and \<open>service\<close> carry the lemmas that hold for any repository and provider that keep their contracts, \<open>tx_env\<close>
  those of a transaction whatever others commit in between; each is interpreted on the code's own definitions, and the properties below and in the other
  theories are instances of those lemmas.

  \<^bold>\<open>What the lemmas show.\<close> The store stays well formed and only evolves, through every request, pass,
  replica and interleaving (\<open>run_inv\<close>, \<open>pg_run_keeps\<close>, \<open>pool_run_inv\<close>); each method refines its
  specification (\<open>MemoryRepo\<close>, \<open>PostgresRepo\<close>), on PostgreSQL among other transactions as well (\<open>PostgresTx\<close>),
  where no request is closed twice and \<open>CompleteSuccess\<close> overwrites nothing that others commit while it runs; a failed
  call or a lost reply on PostgreSQL leaves a row as it was or closed for good, never half closed, and is a 500 to a client,
  never a 404 (\<open>Faults\<close>); bodies survive the way through JSON (\<open>Wire\<close>, \<open>ExchangerateDev\<close>); accepting a request is idempotent per key; in a cluster no two living passes
  work on one row, because \<open>Load\<close> refuses a visibility timeout below the pass timeout, and every request moves along its
  abstract life cycle in at most \<open>2 * DISPATCH_MAX_ATTEMPTS + 2\<close> changes; no row ever
  exceeds its attempts, and the last of them finishes it; the drain loop returns; every schedule of the pool is finite and never stuck; a provider
  call happens only within the outbound budget; parsing and configuration accept what they promise and
  nothing else; the router answers every request once, a panic with a 500.

  \<^bold>\<open>Loops and bounds.\<close> \<open>drain\<close> and \<open>load_worker\<close> are \<open>partial_function\<close>s, so a loop that never ends is
  \<open>None\<close>; \<open>drain\<close> ends because every claim uses up one of the claims that the attempts budget leaves a row
  (\<open>total_weight\<close>), as long as the clock readings of the loop span at most the visibility timeout (after
  that a row may become overdue and be claimed again without using an attempt). A row needs at most twelve
  steps of the pool (\<open>calls_left\<close>). The percentile indexes are exact below \<open>2 ^ 49\<close> latencies, the jitter
  bounds below \<open>2 ^ 50\<close> nanoseconds. No definition carries fuel.

  \<^bold>\<open>Environments.\<close> A \<open>pg_env\<close> says which calls of PostgreSQL fail, which replies are lost after the call took effect
  and which rows \<open>SKIP LOCKED\<close> passes over. \<open>PostgresService\<close>, \<open>PostgresRaces\<close> and \<open>Faults\<close> allow all of it.
  \<open>undisturbed\<close> is such an environment without lost replies and locked rows, though calls still fail: \<open>Server\<close>,
  \<open>Attempts\<close>, \<open>Cluster\<close>, \<open>LifeCycle\<close> and the pass of \<open>PoolService\<close> assume it, because the contract of the repository port
  has a failed call change nothing. In \<open>Cluster\<close> reading the clock and \<open>ClaimBatch\<close> are one step (\<open>Cl_claim\<close>), at one
  time that every replica reads, and a pass makes no call after its deadline; in the code the shared fetch has a
  context of its own and may go on, but it only reads the repository. The properties of \<open>MemoryRepo\<close>, \<open>Service\<close>,
  \<open>DrainLoop\<close> and of the use cases that name \<open>mem_ops\<close> are about the in-memory repository.

  \<^bold>\<open>Parameters.\<close> Decimal arithmetic, Unicode tables, \<open>uuid.Parse\<close>, the texts of times and of
  JSON errors, HTTP dates, the HTTP client and the
  upstream behind it, \<open>goose\<close>, \<open>pgxpool\<close> and the PostgreSQL server's precision, failures, locks and tie
  orders are arguments. \<open>singleflight.Do\<close> and \<open>errgroup.SetLimit\<close> are steps of the pool as documented:
  one call per key in flight whose result every caller gets, and a bound on the goroutines. A context that
  ends is an error of the call it bounds. Map iteration order, random draws, identifiers and the order in
  which a sequential pool takes its rows are arbitrary arguments.

  \<^bold>\<open>Not modelled.\<close> Logging, except the record of one request; the two SQL statements that goose runs, beyond
  the tables they define; anomalies inside one SQL statement (a statement sees one snapshot); clocks of
  replicas that disagree (\<open>Cluster\<close> reads one time at every claim); the HTTP server
  below the handlers; flag parsing and printing in \<open>cmd/throughput\<close>; tests, scripts, the container files and
  the OpenAPI document.
\<close>

section \<open>The service as a whole\<close>

text \<open>C5. Whatever sequence of HTTP requests, dispatcher passes and clock changes a service on the
  in-memory repository goes through from an empty store, the store stays well formed: every row
  has a legal status, a quote exactly when it succeeded, error fields only when it did not, unique
  idempotency keys, and the journal holds one entry per provider, pair and quote time.\<close>

theorem service_store_ok:
  assumes "sv_repo (sc_server s0) = NewRepository"
    and "service_run (E\<lparr>he_repo := mem_ops\<rparr>) origins
      (mem_dispatcher K dec ttl C baseB maxB attempts lifetime Sign F cvt batch vis)
      (\<lambda>r i. map_of (records r) i \<noteq> None) s0 s"
  shows "mem_inv (sv_repo (sc_server s)) \<and> store_ok (mem_abs (sv_repo (sc_server s)))"
proof -
  have "mem_service.service_inv s0"
    using assms(1) by (simp add: mem_service.service_inv_def mem_inv_New mem_abs_New store_ok_empty)
  with mem_service.run_inv [of E origins K dec ttl C baseB maxB attempts lifetime Sign F cvt batch vis
      s0 s] assms(2) show ?thesis
    by (simp add: mem_service.service_inv_def)
qed

theorem service_store_ok_witness:
  "store_ok (mem_abs (sv_repo (sc_server sample_after_pass)))"
proof -
  have "sv_repo (sc_server (sample_service NewRepository)) = NewRepository"
    by (simp add: sample_service_def sample_server_def)
  moreover have "service_run (sample_env\<lparr>he_repo := mem_ops\<rparr>) [] sample_dispatcher
      (\<lambda>r i. map_of (records r) i \<noteq> None) (sample_service NewRepository) sample_after_pass"
    using sample_run by (simp only: sample_env_mem)
  ultimately show ?thesis unfolding sample_dispatcher_def using service_store_ok by blast
qed

text \<open>History is never rewritten: along any such run a row keeps its identifier, pair, key and
  creation time, its attempts never decrease, a row that succeeded or failed stays exactly as it
  is, and journal entries are only added.\<close>

theorem service_history:
  assumes "mem_inv (sv_repo (sc_server s))" "store_ok (mem_abs (sv_repo (sc_server s)))"
    and "service_run (E\<lparr>he_repo := mem_ops\<rparr>) origins
      (mem_dispatcher K dec ttl C baseB maxB attempts lifetime Sign F cvt batch vis)
      (\<lambda>r i. map_of (records r) i \<noteq> None) s s'"
  shows "evolves (mem_abs (sv_repo (sc_server s))) (mem_abs (sv_repo (sc_server s')))"
proof -
  have "mem_service.service_inv s" using assms(1,2) by (simp add: mem_service.service_inv_def)
  with mem_service.run_inv [of E origins K dec ttl C baseB maxB attempts lifetime Sign F cvt batch vis
      s s'] assms(3) show ?thesis by simp
qed

theorem service_history_witness:
  "evolves (mem_abs NewRepository) (mem_abs (sv_repo (sc_server sample_after_pass)))"
proof -
  have r: "sv_repo (sc_server (sample_service NewRepository)) = NewRepository"
    by (simp add: sample_service_def sample_server_def)
  then have "mem_inv (sv_repo (sc_server (sample_service NewRepository)))"
    "store_ok (mem_abs (sv_repo (sc_server (sample_service NewRepository))))"
    by (simp_all add: mem_inv_New mem_abs_New store_ok_empty)
  moreover have "service_run (sample_env\<lparr>he_repo := mem_ops\<rparr>) [] sample_dispatcher
      (\<lambda>r i. map_of (records r) i \<noteq> None) (sample_service NewRepository) sample_after_pass"
    using sample_run by (simp only: sample_env_mem)
  ultimately have "evolves (mem_abs (sv_repo (sc_server (sample_service NewRepository))))
      (mem_abs (sv_repo (sc_server sample_after_pass)))"
    unfolding sample_dispatcher_def using service_history by blast
  then show ?thesis unfolding r .
qed

section \<open>Resolving updates\<close>

text \<open>The attempts budget ends the retries: once a request has used \<open>maxAttempts\<close>, a
  \<open>Process\<close> that returns nil leaves it succeeded or failed for good, never pending again.\<close>

theorem Process_out_of_attempts:
  assumes "mem_inv (w_repo w)" "store_ok (mem_abs (w_repo w))" "held (mem_abs (w_repo w)) req"
    and "Process (NewWorker mem_ops (fake_provider K dec ttl) C baseB maxB attempts lifetime Sign F cvt)
           w req = (Ok (), w')"
    and "attempts \<le> Attempts req"
  shows "\<exists>q. map_of (records (w_repo w')) (ID req) = Some q
    \<and> Status (q_req q) \<in> {StatusSucceeded, StatusFailed}"
  using mem_fake.exhausted_closes [OF assms(1-4)] assms(5) by (simp add: NewWorker_def)

theorem Process_out_of_attempts_witness:
  "\<exists>q. map_of (records (w_repo (snd (Process (sample_worker 1) (sample_world sample_claimed) claimed_req))))
        1 = Some q \<and> Status (q_req q) \<in> {StatusSucceeded, StatusFailed}"
proof -
  have w: "w_repo (sample_world sample_claimed) = sample_claimed" by (simp add: sample_world_def)
  have req: "1 \<le> Attempts claimed_req" "ID claimed_req = 1"
    by (simp_all add: claimed_req_def sample_req_def NewCurrencyRateUpdateRequest_def)
  have run: "Process (sample_worker 1) (sample_world sample_claimed) claimed_req
      = (Ok (), snd (Process (sample_worker 1) (sample_world sample_claimed) claimed_req))"
    using sample_process [of 1] by (metis prod.collapse)
  from Process_out_of_attempts [of "sample_world sample_claimed" claimed_req fake_clock sample_decimal
      Minute fake_clock "5 * Second" "5 * Minute" 1 Hour sgn sample_fmt 0,
      OF _ _ _ run [unfolded sample_worker_def] req(1)]
  show ?thesis
    using sample_claimed_ok sample_held unfolding w req(2) sample_worker_def by blast
qed

text \<open>C29. A cached quote is reused only while fresh: when \<open>fetch\<close> returns a quote of the journal,
  it is one for that pair whose \<open>StaleAfter\<close> lies after the clock reading that decided it, and
  neither the provider nor the rate budget was touched; any other rate it returns was validated
  (positive, quoted, and not quoted from the future).\<close>

theorem fetch_reuses_only_fresh:
  assumes "mem_inv (w_repo w)" "store_ok (mem_abs (w_repo w))" "pair_ok pair"
    and "fetch (NewWorker mem_ops (fake_provider K dec ttl) C baseB maxB attempts lifetime Sign F cvt)
           w pair = (Ok (rate, qid), w')"
  shows "if qid = 0
    then 0 < Sign (Value rate) \<and> QuotedAt rate \<noteq> 0 \<and> QuotedAt rate \<le> FetchedAt rate + maxQuotedAtSkew
    else map_of (quotes (w_repo w)) qid = Some (pair, rate) \<and> w_prov w' = w_prov w
      \<and> w_limiter w' = w_limiter w \<and> fst (Now C (w_clock w)) < StaleAfter rate"
  using mem_fake.fetch_Ok [OF assms] by (auto simp: NewWorker_def rate_ok_def)

theorem fetch_reuses_only_fresh_witness:
  "map_of (quotes sample_cached) 1 = Some (sample_pair, sample_rate)
   \<and> fst (Now fake_clock (w_clock (sample_world sample_cached))) < StaleAfter sample_rate"
proof -
  have w: "w_repo (sample_world sample_cached) = sample_cached" by (simp add: sample_world_def)
  show ?thesis
    using fetch_reuses_only_fresh [OF _ _ sample_pair_ok sample_cached_fetch [unfolded sample_worker_def]]
      sample_cached_ok unfolding w by simp
qed

section \<open>The dispatcher\<close>

text \<open>C10. The drain loop of \<open>Run\<close> ends: if the readings of the system clock during it span at most
  the visibility timeout, claiming again after every full batch stops after finitely many passes,
  because every claim spends one of the claims the attempts budget leaves a row.\<close>

theorem drain_terminates:
  assumes "mem_inv (w_repo w)" "store_ok (mem_abs (w_repo w))" "\<And>xs. mset (order xs) = mset xs"
    and "int (sum_list (elapses (w_clock w))) \<le> int vis"
  shows "\<exists>stopped w'. drain
    (mem_dispatcher K dec ttl system_clock baseB maxB attempts lifetime Sign F cvt batch vis)
    order cancelled w = Some (stopped, w') \<and> store_ok (mem_abs (w_repo w'))"
proof -
  have "clock_within (wall (w_clock w)) (wall (w_clock w) + int vis) (w_clock w)"
    using assms(4) by (simp add: clock_within_def)
  from mem_drain.drain_returns [OF assms(1,2) this assms(3)] show ?thesis by blast
qed

theorem drain_terminates_witness:
  "\<exists>stopped w'. drain (mem_dispatcher fake_clock sample_decimal Minute system_clock (5 * Second)
      (5 * Minute) 10 Hour sgn sample_fmt 0 1 120000000000) rev (\<lambda>n. False)
      \<lparr>w_repo = sample_pending, w_prov = sample_fake, w_clock = NewSystemClock 3000 [1000, 2000],
       w_limiter = NewRateLimiter 12 100, w_rand = (\<lambda>n. 0), w_turn = 0\<rparr>
    = Some (stopped, w') \<and> store_ok (mem_abs (w_repo w'))"
  by (rule drain_terminates) (simp_all add: sample_pending_ok NewSystemClock_def)

section \<open>Storage\<close>

text \<open>C22. \<open>ClaimBatch\<close> of the in-memory repository claims \<open>min limit (number of due rows)\<close> distinct
  due rows and returns their new contents: in progress, locked at \<open>now\<close>, one attempt more exactly
  when the row was pending (a reaper reclaim costs none); no due pending row is passed over for one
  with a later \<open>next_attempt_at\<close>; every other row and the journal stay as they are.\<close>

theorem memory_ClaimBatch:
  assumes "mem_inv r" "0 \<le> limit" "mem_ClaimBatch r limit now visibleSince = (res, r')"
  shows "mem_inv r' \<and> claim_spec (\<lambda>t. t) (mem_abs r) limit now visibleSince res (mem_abs r')"
  using mem_claim_spec [OF assms] .

theorem memory_ClaimBatch_witness:
  "claim_spec (\<lambda>t. t) (mem_abs sample_pending) 10 2000 0 (Ok [claimed_req]) (mem_abs sample_claimed)"
  using memory_ClaimBatch [OF sample_pending_ok(1) _ sample_claim] by simp

text \<open>\<open>CompleteSuccess\<close> of the in-memory repository: an unknown id or a row that is not in
  progress is refused with nothing written; otherwise the row succeeds with its error fields
  cleared and points at the one journal entry for that provider, pair and quote time, which is
  added only when there was none.\<close>

theorem memory_CompleteSuccess:
  assumes "mem_inv r" "mem_CompleteSuccess r i pair rate now = (res, r')"
  shows "mem_inv r' \<and> success_spec (\<lambda>t. t) (\<lambda>x. x) (mem_abs r) i pair rate now res (mem_abs r')"
  using mem_success_spec [OF assms] .

theorem memory_CompleteSuccess_witness:
  "success_spec (\<lambda>t. t) (\<lambda>x. x) (mem_abs sample_claimed) 1 sample_pair sample_rate 4000
     (fst (mem_CompleteSuccess sample_claimed 1 sample_pair sample_rate 4000))
     (mem_abs (snd (mem_CompleteSuccess sample_claimed 1 sample_pair sample_rate 4000)))"
  using memory_CompleteSuccess [OF sample_claimed_ok(1) prod.collapse [symmetric]] by blast

text \<open>\<open>CompleteFailure\<close> of the in-memory repository: refused as above, or the row goes back to
  pending with the given next attempt (retryable) or fails for good and keeps its old one, with
  the error recorded; nothing else changes.\<close>

theorem memory_CompleteFailure:
  assumes "mem_inv r" "mem_CompleteFailure r i code msg retryable next now = (res, r')"
  shows "mem_inv r' \<and> failure_spec (\<lambda>t. t) (mem_abs r) i code msg retryable next now res (mem_abs r')"
  using mem_failure_spec [OF assms] .

theorem memory_CompleteFailure_witness:
  "failure_spec (\<lambda>t. t) (mem_abs sample_claimed) 1 ''rate_limited'' ''m'' True 9000 4000
     (fst (mem_CompleteFailure sample_claimed 1 ''rate_limited'' ''m'' True 9000 4000))
     (mem_abs (snd (mem_CompleteFailure sample_claimed 1 ''rate_limited'' ''m'' True 9000 4000)))"
  using memory_CompleteFailure [OF sample_claimed_ok(1) prod.collapse [symmetric]] by blast

text \<open>\<open>GetLatestQuote\<close> of the in-memory repository: the pass over the unordered map of quotes
  finds the quote of the pair that is last in the order of quote time, then id, and reports
  \<open>ErrNotFound\<close> exactly when the pair has none.\<close>

theorem memory_GetLatestQuote:
  assumes "mem_inv r" "mem_GetLatestQuote r pair = (res, r')"
  shows "r' = r \<and> ((res = Err ErrNotFound \<and> (\<forall>k q. map_of (quotes r) k \<noteq> Some (pair, q)))
    \<or> (\<exists>rate k. res = Ok (rate, k) \<and> map_of (quotes r) k = Some (pair, rate)
         \<and> (\<forall>k' q. map_of (quotes r) k' = Some (pair, q) \<longrightarrow> (QuotedAt q, k') \<le> (QuotedAt rate, k))))"
proof -
  have "r' = r" using assms(2) by (auto simp: mem_GetLatestQuote_def split: option.splits)
  with mem_latest_spec [OF assms] show ?thesis by (simp add: latest_spec_def)
qed

theorem memory_GetLatestQuote_witness:
  "\<exists>rate k. mem_GetLatestQuote sample_cached sample_pair = (Ok (rate, k), sample_cached)
   \<and> map_of (quotes sample_cached) k = Some (sample_pair, rate)"
proof -
  have run: "mem_GetLatestQuote sample_cached sample_pair = (Ok (sample_rate, 1), sample_cached)"
    by (simp add: mem_GetLatestQuote_def sample_cached_def)
  from memory_GetLatestQuote [OF sample_cached_ok(1) run] run show ?thesis by auto
qed

section \<open>The API\<close>

text \<open>C9. The Idempotency-Key contract: once a request was accepted under a non-empty key, a later
  request with that key, after any evolution of the store, creates nothing; with the same pair it
  replays the same update, with another pair it is a conflict.\<close>

theorem RequestUpdate_idempotent:
  assumes "mem_inv r" "store_ok (mem_abs r)" "map_of (records r) new = None"
    and "RequestUpdate mem_ops C U new r c raw key = (Ok res, r1, c1)" "key \<noteq> []"
    and "mem_inv r2" "store_ok (mem_abs r2)" "evolves (mem_abs r1) (mem_abs r2)"
    and "map_of (records r2) new2 = None"
    and "RequestUpdate mem_ops C U new2 r2 c2 raw2 key = (res2, r3, c3)"
    and "ParseCurrencyPair U raw2 ''/'' = Ok pair2"
  shows "mem_abs r3 = mem_abs r2
    \<and> (if pair2 = Pair (Request res)
       then \<exists>x. res2 = Ok x \<and> Replayed x \<and> ID (Request x) = ID (Request res)
               \<and> Pair (Request x) = Pair (Request res)
       else res2 = Err ErrIdempotencyConflict)"
proof -
  have "\<not> infra e" if e: "res2 = Err e" for e
    by (rule mem_RequestUpdate_not_infra [OF assms(10) [unfolded e]])
  then show ?thesis
    using repository.RequestUpdate_replay [OF mem.repository_axioms assms(1,2) _ assms(4-8) _ assms(10,11)]
      assms(3,9) by auto
qed

theorem RequestUpdate_idempotent_witness:
  "\<exists>x. fst (RequestUpdate mem_ops fake_clock sample_unicode 7 sample_claimed (NewFakeClock 5000)
      ''eur/MXN'' ''k'') = Ok x \<and> Replayed x \<and> ID (Request x) = 1"
proof -
  have ok: "store_ok (mem_abs (NewRepository :: int MemRepo))" by (simp add: mem_abs_New store_ok_empty)
  have none: "map_of (records (NewRepository :: int MemRepo)) 1 = None"
    "map_of (records sample_claimed) 7 = None"
    by (simp_all add: NewRepository_def sample_claimed_eq)
  have "ClaimBatch mem_ops sample_pending 10 2000 0 = (Ok [claimed_req], sample_claimed)"
    by (simp add: mem_ops_def sample_claim)
  from mem.claim_keeps(3) [OF sample_pending_ok _ this]
  have ev: "evolves (mem_abs sample_pending) (mem_abs sample_claimed)" by simp
  have again: "RequestUpdate mem_ops fake_clock sample_unicode 7 sample_claimed (NewFakeClock 5000)
      ''eur/MXN'' ''k'' = (fst (RequestUpdate mem_ops fake_clock sample_unicode 7 sample_claimed
        (NewFakeClock 5000) ''eur/MXN'' ''k''),
      fst (snd (RequestUpdate mem_ops fake_clock sample_unicode 7 sample_claimed (NewFakeClock 5000)
        ''eur/MXN'' ''k'')),
      snd (snd (RequestUpdate mem_ops fake_clock sample_unicode 7 sample_claimed (NewFakeClock 5000)
        ''eur/MXN'' ''k'')))" by simp
  have req: "Pair sample_req = sample_pair" "ID sample_req = 1"
    by (simp_all add: sample_req_def NewCurrencyRateUpdateRequest_def)
  from RequestUpdate_idempotent [OF mem_inv_New ok none(1) sample_request _ sample_claimed_ok ev none(2)
      again sample_parse] req
  show ?thesis by auto
qed

text \<open>C31. Every HTTP request other than a preflight gets exactly one status and one body: those that the handler of its
  route writes, which is then logged with its status, or, when the handler panics, the 500 with the internal error
  envelope. The response names a valid trace id, the client's own when that was valid, which is also the one the
  handler sees, and allows an origin only if the configuration does.\<close>

theorem router_answers_once:
  assumes "rq_method rq \<noteq> ''OPTIONS''" "NewRouter E origins rq s new_response = (res, s', w')"
    and "i = (if validRequestID (rq_header rq ''X-Request-Id'') then rq_header rq ''X-Request-Id''
      else uuid_String (sv_ids s (sv_turn s)))"
  shows "res = Ok () \<and> length (rs_codes w') = 1 \<and> length (rs_bodies w') = 1
    \<and> map_of (rs_headers w') ''Access-Control-Allow-Origin'' = cors_origin origins rq
    \<and> map_of (rs_headers w') ''X-Request-Id'' = Some i \<and> validRequestID i
    \<and> (\<exists>w0 out s1 w1. rs_codes w0 = [] \<and> rs_bodies w0 = []
          \<and> mux E (rq\<lparr>rq_id := i\<rparr>) (traced s rq) w0 = (out, s1, w1)
          \<and> (case out of
               Panic \<Rightarrow> s' = s1 \<and> rs_codes w' = [500]
                 \<and> rs_bodies w' = [ErrorEnvelope codeInternalError msgInternalError]
             | Err e \<Rightarrow> False
             | Ok _ \<Rightarrow> w' = w1 \<and> s' = s1\<lparr>sv_log := sv_log s1 @ [(rq_method rq, rq_path rq, wire_status w', i)]\<rparr>))"
proof -
  have i: "i = trace_id s rq" by (simp add: assms(3) trace_id_def)
  obtain w0 where w0: "rs_codes w0 = []" "rs_bodies w0 = []"
    "map_of (rs_headers w0) ''Access-Control-Allow-Origin'' = cors_origin origins rq"
    "map_of (rs_headers w0) ''X-Request-Id'' = Some (trace_id s rq)"
    and run: "NewRouter E origins rq s new_response
      = recoverMiddleware (loggingMiddleware (mux E)) (rq\<lparr>rq_id := trace_id s rq\<rparr>) (traced s rq) w0"
    by (rule NewRouter_routes [OF assms(1)])
  have log: "recorded_status w0 w1 = wire_status w1" if "one_more w0 w1" for w1
    using that w0(1) by (auto simp: one_more_def recorded_status_def wire_status_def)
  have head: "length (rs_codes w1) = 1" "length (rs_bodies w1) = 1"
    "map_of (rs_headers w1) ''Access-Control-Allow-Origin'' = cors_origin origins rq"
    "map_of (rs_headers w1) ''X-Request-Id'' = Some i" if "one_more w0 w1" for w1
    using that w0 by (auto simp: one_more_def kept_headers_def i)
  have error: "rs_codes (internal_error w0) = [500]"
    "rs_bodies (internal_error w0) = [ErrorEnvelope codeInternalError msgInternalError]"
    using w0 by (simp_all add: internal_error_def writeError_def writeJSON_def write_header_def set_header_def Let_def)
  note run = run [unfolded assms(2)]
  have valid: "validRequestID i" unfolding i by (rule trace_id_valid)
  show ?thesis
  proof (cases rule: recovered_mux [of E "rq\<lparr>rq_id := trace_id s rq\<rparr>" "traced s rq" w0])
    case (1 s1)
    with run have "res = Ok ()" "s' = s1" "w' = internal_error w0" by simp_all
    with head [OF one_more_simps(2)] error 1(1) valid w0(1,2) show ?thesis
      by (intro conjI exI [of _ w0]) (simp_all add: i)
  next
    case (2 s1 w1)
    with run have "res = Ok ()" "w' = w1"
      "s' = s1\<lparr>sv_log := sv_log s1 @ [(rq_method rq, rq_path rq, recorded_status w0 w1, i)]\<rparr>" by (simp_all add: i)
    with head [OF 2(2)] log [OF 2(2)] 2(1) valid w0(1,2) show ?thesis
      by (intro conjI exI [of _ w0]) (simp_all add: i)
  qed
qed

definition panicking_env :: "(int MemRepo, FakeClock, int) http_env" where
  "panicking_env = sample_env\<lparr>he_repo := mem_ops\<lparr>GetLatestQuote := \<lambda>r p. (Panic, r)\<rparr>\<rparr>"

definition sample_get_latest :: request where
  "sample_get_latest = sample_post\<lparr>rq_method := ''GET'', rq_path := [''api'', ''v1'', ''quotes'', ''latest''],
     rq_query := \<lambda>_. ''eur/MXN''\<rparr>"

lemma panicking_mux: "fst (mux panicking_env (sample_get_latest\<lparr>rq_id := i\<rparr>) s w) = Panic"
  by (simp add: mux_def is_get_def getQuotesLatestHandler_def GetLatest_def panicking_env_def sample_env_def
      sample_get_latest_def sample_parse Let_def)

theorem router_answers_once_witness:
  "rs_codes (snd (snd (NewRouter panicking_env [] sample_get_latest (sample_server NewRepository) new_response))) = [500]"
proof -
  obtain res s' w' where run: "NewRouter panicking_env [] sample_get_latest (sample_server NewRepository) new_response
      = (res, s', w')" by (metis prod_cases3)
  have "rq_method sample_get_latest \<noteq> ''OPTIONS''" by (simp add: sample_get_latest_def)
  from router_answers_once [OF this run refl] obtain i w0 out s1 w1 where
    m: "mux panicking_env (sample_get_latest\<lparr>rq_id := i\<rparr>) (traced (sample_server NewRepository) sample_get_latest) w0
      = (out, s1, w1)"
    and a: "case out of Panic \<Rightarrow> s' = s1 \<and> rs_codes w' = [500]
          \<and> rs_bodies w' = [ErrorEnvelope codeInternalError msgInternalError]
      | Err e \<Rightarrow> False
      | Ok _ \<Rightarrow> w' = w1 \<and> s' = s1\<lparr>sv_log := sv_log s1 @
          [(rq_method sample_get_latest, rq_path sample_get_latest, wire_status w', i)]\<rparr>" by metis
  from m panicking_mux have "out = Panic" by (metis fst_conv)
  with a run show ?thesis by simp
qed

text \<open>Raw error detail never reaches a client: the body of GET /quotes/updates/{id} does not
  depend on the stored error message.\<close>

theorem update_response_hides_detail:
  "newUpdateStatusResponse F (req\<lparr>ErrorMessage := m\<rparr>) rate = newUpdateStatusResponse F req rate"
  by (rule newUpdateStatusResponse_message)

text \<open>Every code the worker stores with a failure has a message of its own for clients; the
  fallback of \<open>safeErrorMessage\<close> is never needed.\<close>

theorem stored_codes_are_mapped:
  "stored_codes \<subseteq> set (map fst safeErrorMessages)"
  using stored_codes_have_messages by blast

section \<open>Retry delays\<close>

text \<open>C32. The backoff does what it means to do for bases \<open>b * 2 ^ v\<close> with \<open>b\<close> times the cap below
  \<open>2 ^ 63\<close> (the defaults, 5 s = 9765625 * 2 ^ 9 ns and 5 min, are among them): the \<open>int64\<close> product and
  its overflow test give the base doubled per attempt, capped, then raised to the upstream's
  \<open>Retry-After\<close>, for every number of attempts.\<close>

theorem backoff_delay_exact:
  assumes "0 < b" "0 < maxB" "maxB \<le> maxInt64" "b * maxB < 2 ^ 63"
  shows "backoff_delay (b * 2 ^ v) maxB retryAfter attempts
    = max (min (b * 2 ^ v * 2 ^ nat (max (attempts - 1) 0)) maxB) retryAfter"
  using backoff_delay_ideal [OF assms] by (simp add: ideal_delay_def backoff_shift_def)

theorem backoff_delay_exact_witness:
  "backoff_delay (5 * Second) (5 * Minute) 0 3 = 20 * Second
   \<and> backoff_delay (5 * Second) (5 * Minute) 0 100 = 5 * Minute"
proof -
  have "5 * Second = 9765625 * 2 ^ 9" by (simp add: Second_def)
  moreover have "backoff_delay (9765625 * 2 ^ 9) (5 * Minute) 0 n
      = max (min (9765625 * 2 ^ 9 * 2 ^ nat (max (n - 1) 0)) (5 * Minute)) 0" for n
    by (rule backoff_delay_exact) (simp_all add: Minute_def Second_def maxInt64_def)
  ultimately show ?thesis by (simp add: Minute_def Second_def)
qed

text \<open>Without such a bound the overflow test is not enough: with a base of 2 ^ 40 + 1 ns
  (about 18 minutes) and a cap of one hour, the 25th attempt waits 2 ^ 24 ns, about 17 ms.\<close>

theorem backoff_overflow_escapes:
  "backoff_delay (2 ^ 40 + 1) Hour 0 25 = 2 ^ 24"
  by (simp add: backoff_delay_def backoff_shift_def shl64_def wrap64_def Hour_def Minute_def Second_def)

text \<open>C33. The jitter spreads a delay by at most a quarter either way, rounding of \<open>float64\<close> included,
  for every draw and every delay below 2 ^ 50 ns (13 days).\<close>

theorem jitter_within_quarter:
  assumes "0 < delay" "delay < 2 ^ 50" "k < 2 ^ 53"
  shows "3 * delay div 4 \<le> jittered cvt delay k \<and> jittered cvt delay k \<le> 5 * delay div 4"
  using jittered_bounds [OF assms] by blast

theorem jitter_within_quarter_witness: "jittered 0 (5 * Second) 12345 \<le> 6250000000"
  using jitter_within_quarter [of "5 * Second" 12345 0] by (simp add: Second_def)

section \<open>Domain rules\<close>

text \<open>C34. A pair parses exactly when its trimmed, upper-cased text is the canonical text of an allowed
  pair (two different supported codes), and then to that pair.\<close>

theorem ParseCurrencyPair_accepts:
  "ParseCurrencyPair U s ''/'' = Ok p
    \<longleftrightarrow> pair_ok p \<and> strings_ToUpper U (strings_TrimSpace U s) = Pair_String p"
  by (rule ParseCurrencyPair_Ok_iff)

text \<open>What does not parse is told apart the way the API needs it: two non-empty codes around one
  slash that are not an allowed pair give \<open>ErrPairNotAllowed\<close>, anything else \<open>ErrMalformedPair\<close>;
  the parser never panics.\<close>

theorem ParseCurrencyPair_errors:
  "case ParseCurrencyPair U s ''/'' of
     Ok p \<Rightarrow> well_shaped U s
   | Err e \<Rightarrow> if well_shaped U s then is_ErrPairNotAllowed e else is_ErrMalformedPair e
   | Panic \<Rightarrow> False"
  using ParseCurrencyPair_outcome [of U s] ParseCurrencyPair_malformed [of U s]
  by (cases "well_shaped U s") auto

text \<open>Case and surrounding white space do not matter: any ASCII spelling of an allowed pair, with
  any white space around it, parses to that pair. In particular \<open>String\<close> parses back.\<close>

theorem ParseCurrencyPair_spelling:
  assumes "pair_ok p" "map upper_char s = Pair_String p"
    and "list_all ascii_space a" "list_all ascii_space b"
  shows "ParseCurrencyPair U (a @ s @ b) ''/'' = Ok p"
proof -
  note shape = pair_ok_shape [OF assms(1)]
  have "is_ascii (map upper_char s)" unfolding assms(2) by (rule shape(5))
  then have ascii: "is_ascii s" by simp
  have space: "is_ascii x" if "list_all ascii_space x" for x
    using that by (induction x) (auto simp: ascii_space_def)
  have no_space: "list_all (\<lambda>c. \<not> ascii_space c) s"
  proof -
    have "list_all (\<lambda>c. \<not> ascii_space c) (map upper_char s)" unfolding assms(2) by (rule shape(7))
    then show ?thesis by (simp add: list_all_iff)
  qed
  have "map upper_char s \<noteq> []" unfolding assms(2) by (simp add: Pair_String_shape)
  then have "s \<noteq> []" by simp
  with no_space have "\<not> ascii_space (hd s)" "\<not> ascii_space (last s)" by (simp_all add: list_all_iff)
  with trim_ascii_surround [OF assms(3,4) \<open>s \<noteq> []\<close>] ascii space [OF assms(3)] space [OF assms(4)]
  have "strings_ToUpper U (strings_TrimSpace U (a @ s @ b)) = map upper_char s"
    by (simp add: strings_TrimSpace_def strings_ToUpper_def)
  with assms(1,2) show ?thesis by (simp add: ParseCurrencyPair_Ok_iff)
qed

theorem ParseCurrencyPair_spelling_witness:
  "ParseCurrencyPair sample_unicode ('' '' @ ''usd/Eur'' @ [CHR 0x0A]) ''/'' = Ok \<lparr>base = ''USD'', quote = ''EUR''\<rparr>"
proof (rule ParseCurrencyPair_spelling)
  show "pair_ok \<lparr>base = ''USD'', quote = ''EUR''\<rparr>" by (simp add: pair_ok_def Code_Valid_iff)
  show "map upper_char ''usd/Eur'' = Pair_String \<lparr>base = ''USD'', quote = ''EUR''\<rparr>" by code_simp
  show "list_all ascii_space '' ''" "list_all ascii_space [CHR 0x0A]" by code_simp+
qed

text \<open>The life cycle of an update: the only moves are pending to in_progress and from there to
  succeeded, failed or back to pending; a move changes the status and the update time only, and a
  refused one reports the two statuses.\<close>

theorem TransitionTo_life_cycle:
  "TransitionTo req next now =
    (if (Status req, next) \<in> {(StatusPending, StatusInProgress), (StatusInProgress, StatusSucceeded),
          (StatusInProgress, StatusFailed), (StatusInProgress, StatusPending)}
     then Ok (req\<lparr>Status := next, UpdatedAt := now\<rparr>)
     else Err (ErrInvalidTransition (Status req) next))"
  by (cases "Status req") (auto simp: TransitionTo_def)

section \<open>Providers\<close>

text \<open>C35. Whatever the upstream answers, an error of the exchangerate.dev adapter is a classified one
  with a declared code; the only exceptions are a request that could not be built and a call that
  failed while the caller's context was over.\<close>

theorem exchangeratedev_errors_classified:
  assumes "dev_GetCurrencyRate X e h pair = (Err err, h')"
  shows "(\<exists>r. err = RateError r \<and> ErrorCode_Valid (err_code r))
    \<or> (\<exists>m. err = ErrWrap ''exchangeratedev: build request'' (ErrOther m))
    \<or> (\<exists>m url auth. err = ErrOther m \<and> fst (http_Do X h url auth) = DoFailed True m)"
  using dev_GetCurrencyRate_outcome [of X e h pair] assms by auto

definition sample_refusal :: string where
  "sample_refusal = print_json (error_body ''rate_limited'' ''limited'' [])"

lemma sample_refusal_read: "unmarshal_errorResponse (take maxResponseBodyBytes sample_refusal)
    = Some \<lparr>er_Result = ''error'', er_Code = ''rate_limited'', er_Message = ''limited''\<rparr>"
proof -
  have "list_all plain_name [''error'', ''rate_limited'', ''limited'']" by code_simp
  then have plain: "quote_json x = x" "to_valid x = x" if "x \<in> {''error'', ''rate_limited'', ''limited''}" for x
    using that by (auto simp: plain_string)
  have "length sample_refusal \<le> maxResponseBodyBytes"
    by (simp add: sample_refusal_def error_body_def json_of_string_def plain maxResponseBodyBytes_def)
  moreover have "extra_ok error_names []" by (simp add: extra_ok_def error_names_def maxNestingDepth_def)
  ultimately show ?thesis using unmarshal_error_body [of "[]" "''rate_limited''" "''limited''"]
    by (simp add: sample_refusal_def plain)
qed

definition sample_exchange :: "(unit, int) exchange_env" where
  "sample_exchange = \<lparr>http_Do = (\<lambda>h url auth. (Response 429 ''30'' (Body sample_refusal), h)),
     json_errtext = (\<lambda>b. ''eof''), parse_rfc3339 = (\<lambda>s. None),
     http_ParseTime = (\<lambda>s. None), time_Now = (\<lambda>h. 0), NewFromString = (\<lambda>s. Inl s)\<rparr>"

theorem exchangeratedev_errors_classified_witness:
  "\<exists>r. dev_GetCurrencyRate sample_exchange \<lparr>baseURL = ''u'', apiKey = [], quoteTTL = Minute\<rparr> ()
     sample_pair = (Err (RateError r), ()) \<and> ErrorCode_Valid (err_code r)
     \<and> err_retryAfter r = 30 * Second"
proof -
  let ?r = "\<lparr>err_code = RateLimitedError, err_message = ''limited'', err_retryable = True,
    err_retryAfter = 30 * Second, err_providerCode = ''rate_limited''\<rparr>"
  have atoi: "strconv_Atoi ''30'' = Some 30" by code_simp
  have run: "dev_GetCurrencyRate sample_exchange \<lparr>baseURL = ''u'', apiKey = [], quoteTTL = Minute\<rparr> ()
      sample_pair = (Err (RateError ?r), ())"
    by (simp add: dev_GetCurrencyRate_def sample_exchange_def errorFromBody_def classifyError_def
        errorClassification_def mk_class_def parseRetryAfter_def atoi wrap64_def Second_def
        sample_refusal_read Let_def)
  from exchangeratedev_errors_classified [OF run] run show ?thesis by auto
qed

text \<open>C37. The quota of the fake provider is a true rolling window: over any number of calls under the
  system clock, no window of one minute holds more than \<open>rpmQuota\<close> calls that passed the check.\<close>

theorem fake_quota_within:
  assumes "0 < rpm"
  shows "int (in_window (fst (quota_run system_clock n
    (NewFakeRateProvider (NewSystemClock t elapsed) mind maxd rpm ttl draws))) x Minute) \<le> rpm"
  by (rule sys_clk.quota_run_within [OF assms, where t = t]) (simp add: NewSystemClock_def)

theorem fake_quota_within_witness:
  "int (in_window (fst (quota_run system_clock 5 (NewFakeRateProvider
     (NewSystemClock 0 [1, 2, 3]) 0 0 2 Minute (fk_draws sample_fake)))) 10 Minute) \<le> 2"
  by (rule fake_quota_within) simp

text \<open>Every pair the domain allows has a base rate at the fake provider, so with its quota off
  and no simulated delay a fetch of an allowed pair always returns a live quote.\<close>

theorem fake_serves_allowed_pairs:
  assumes "pair_ok pair" "rpmQuota f \<le> 0" "maxDelay f \<le> minDelay f" "minDelay f \<le> 0"
  shows "\<exists>q f'. fake_GetCurrencyRate C D f pair = (Ok q, f') \<and> pq_Quality q = ''live''"
proof -
  obtain r where "map_of baseRates (Slug pair ''-'') = Some r" using baseRates_pair_ok [OF assms(1)] by auto
  with assms(2-4) show ?thesis
    by (auto simp: fake_GetCurrencyRate_def checkQuota_def simulateDelay_def randomDelay_def Let_def
        split: prod.splits)
qed

theorem fake_serves_allowed_pairs_witness:
  "\<exists>q f'. fake_GetCurrencyRate fake_clock sample_decimal (sample_fake\<lparr>rpmQuota := 0\<rparr>) sample_pair
     = (Ok q, f') \<and> pq_Quality q = ''live''"
  by (rule fake_serves_allowed_pairs) (simp_all add: sample_fake_def NewFakeRateProvider_def)

end
